(* ===== verification/Bus_Prelude.thy ===== *)
theory Bus_Prelude
  imports Main "HOL-Library.Word" "HOL-Library.Monad_Syntax" "HOL-Library.AList"
begin

text \<open>
  Shared vocabulary of the development: machine integers, the two ways a Rust
  function of the bus can fail (an error value, a panic), the standard-library
  containers as the code uses them, unbounded channels, and the interface
  locales that several components rely on.

  \<^item> \<open>'a result\<close> is \<open>BusResult\<close> with the error on the left of a sum.
  \<^item> \<open>'a run\<close> is a computation that may panic: \<open>None\<close> is the panic, which ends the
    task that runs it. A function that both returns a \<open>BusResult\<close> and may panic has
    type \<open>'a result run\<close>.
  \<^item> \<open>HashMap<K, V>\<close> is a finite map \<open>'k \<rightharpoonup> 'v\<close>; where its iteration order can be
    observed it is an association list. \<open>HashSet<u32>\<close> is a finite set, and draining
    one goes through an iteration order that is a parameter (locale
    \<open>hash_iteration\<close>).
\<close>

section \<open>Machine integers and failure\<close>

type_synonym u8 = "8 word"
type_synonym u32 = "32 word"
type_synonym bytes = "u8 list"

type_synonym 'a run = "'a option"

abbreviation (input) panic :: "'a run" where
  "panic \<equiv> None"

abbreviation (input) returns :: "'a \<Rightarrow> 'a run" where
  "returns x \<equiv> Some x"

named_theorems bus_simps \<open>equations of the model that are safe to unfold\<close>

lemma bind_run_eq_returns [bus_simps]:
  "Option.bind m f = returns y \<longleftrightarrow> (\<exists>x. m = returns x \<and> f x = returns y)"
  by (cases m) auto

lemma bind_run_eq_panic:
  "Option.bind m f = panic \<longleftrightarrow> m = panic \<or> (\<exists>x. m = returns x \<and> f x = panic)"
  by (cases m) auto

lemma case_sum_eq_iff:
  "(case q of Inl e \<Rightarrow> f e | Inr x \<Rightarrow> g x) = y \<longleftrightarrow>
   (\<exists>e. q = Inl e \<and> f e = y) \<or> (\<exists>x. q = Inr x \<and> g x = y)"
  by (cases q) auto

section \<open>Finite maps: retain and values\<close>

definition map_retain :: "('v \<Rightarrow> bool) \<Rightarrow> ('k \<rightharpoonup> 'v) \<Rightarrow> ('k \<rightharpoonup> 'v)" where
  \<comment> \<open>\<open>HashMap::retain\<close> with a predicate on the values\<close>
  "map_retain P m =
     (\<lambda>k. case m k of None \<Rightarrow> None | Some v \<Rightarrow> if P v then Some v else None)"

lemma map_retain_eq_Some [simp]:
  "map_retain P m k = Some v \<longleftrightarrow> m k = Some v \<and> P v"
  by (auto simp: map_retain_def split: option.splits)

lemma dom_map_retain: "dom (map_retain P m) \<subseteq> dom m"
  by (auto simp: dom_def)

lemma map_retain_None: "m k = None \<Longrightarrow> map_retain P m k = None"
  by (simp add: map_retain_def)

lemma map_leD: "m \<subseteq>\<^sub>m m' \<Longrightarrow> m k = Some x \<Longrightarrow> m' k = Some x"
  by (metis domI map_le_def)

lemma map_retain_le: "map_retain P m \<subseteq>\<^sub>m m"
  by (simp add: map_le_def map_retain_def split: option.split) (auto simp: dom_def)

lemma map_of_update_same [simp]: "map_of (AList.update k v al) k = Some v"
  by (simp add: update_conv')

section \<open>HashSet iteration\<close>

text \<open>
  Draining a \<open>HashSet\<close> yields every element exactly once, in an unspecified order.
  The order is a parameter \<open>ord\<close> of the operations that drain; this is its law. It is an
  arbitrary function of the set, while in the program two equal sets may be drained in
  different orders; the theorems are about any such function, and none compares the orders
  of two drains.
\<close>

locale hash_iteration =
  fixes ord :: "u32 set \<Rightarrow> u32 list"
  assumes set_ord: "finite S \<Longrightarrow> set (ord S) = S"
    and distinct_ord: "finite S \<Longrightarrow> distinct (ord S)"
begin

lemma length_ord: "finite S \<Longrightarrow> length (ord S) = card S"
  using set_ord [of S] distinct_ord [of S] by (metis distinct_card)

lemma ord_empty_iff: "finite S \<Longrightarrow> ord S = [] \<longleftrightarrow> S = {}"
  using set_ord [of S] by auto

end

definition ascending :: "u32 set \<Rightarrow> u32 list" where
  "ascending S = sorted_list_of_set S"

interpretation ascending_order: hash_iteration ascending
  by unfold_locales (simp_all add: ascending_def)

section \<open>Unbounded channels\<close>

text \<open>
  A tokio unbounded mpsc channel as its users see it: a buffer, whether the receiving
  half still exists, and whether the sending half does. Sending fails exactly when the
  receiver has been dropped.
\<close>

record 'm chan =
  buffer :: "'m list"
  rx_alive :: bool
  tx_alive :: bool

definition new_chan :: "'m chan" where
  "new_chan = \<lparr>buffer = [], rx_alive = True, tx_alive = True\<rparr>"

definition chan_send :: "'m \<Rightarrow> 'm chan \<Rightarrow> 'm chan option" where
  "chan_send m c = (if rx_alive c then Some (c\<lparr>buffer := buffer c @ [m]\<rparr>) else None)"

lemma chan_send_simps [simp]:
  "rx_alive c \<Longrightarrow> chan_send m c = Some (c\<lparr>buffer := buffer c @ [m]\<rparr>)"
  "\<not> rx_alive c \<Longrightarrow> chan_send m c = None"
  by (simp_all add: chan_send_def)

datatype 'a poll = Pending | Ready 'a

definition poll_recv :: "'a chan \<Rightarrow> 'a option poll \<times> 'a chan" where
  \<comment> \<open>tokio's receiver: the next message, the end once every sender is gone, or nothing yet\<close>
  "poll_recv c =
     (case buffer c of
        m # ms \<Rightarrow> (Ready (Some m), c\<lparr>buffer := ms\<rparr>)
      | [] \<Rightarrow> (if tx_alive c then Pending else Ready None, c))"

section \<open>Transition systems and invariants\<close>

locale transition_system =
  fixes init :: "'s \<Rightarrow> bool"
    and step :: "'s \<Rightarrow> 's \<Rightarrow> bool"
    and inv :: "'s \<Rightarrow> bool"
  assumes init_inv: "init s \<Longrightarrow> inv s"
    and step_inv: "step s t \<Longrightarrow> inv s \<Longrightarrow> inv t"
begin

lemma steps_inv: "step\<^sup>*\<^sup>* s t \<Longrightarrow> inv s \<Longrightarrow> inv t"
  by (induction rule: rtranclp_induct) (auto intro: step_inv)

lemma reachable_inv: "init s \<Longrightarrow> step\<^sup>*\<^sup>* s t \<Longrightarrow> inv t"
  by (blast intro: steps_inv init_inv)

end

end
