(* ===== verification/Err.thy ===== *)
theory Err
  imports Bus_Prelude
begin

text \<open>
  \<open>err.rs\<close>: the error type of the bus, its messages, and the conversions from library
  errors. \<open>ServiceNotFound\<close> carries a topic, so the two data types of \<open>topic.rs\<close> are
  declared here too; their operations are in theory \<open>Topic\<close>.

  A Rust \<open>String\<close> is its sequence of UTF-8 bytes, an Isabelle \<open>string\<close>.
\<close>

section \<open>Paths and topics: the data\<close>

datatype path = Path (path_str: string)

record topic =
  protocol :: string
  path_of :: path

section \<open>Decimal display of unsigned integers\<close>

fun show_nat :: "nat \<Rightarrow> string" where
  "show_nat n =
     (if n < 10 then [char_of (48 + n)]
      else show_nat (n div 10) @ [char_of (48 + n mod 10)])"

declare show_nat.simps [simp del]

definition show_u32 :: "u32 \<Rightarrow> string" where
  "show_u32 n = show_nat (unat n)"

fun read_digits :: "string \<Rightarrow> nat" where
  \<comment> \<open>the value of a decimal numeral, to state that the display loses nothing\<close>
  "read_digits s = foldl (\<lambda>n c. 10 * n + (of_char c - 48)) 0 s"

lemma read_digits_show_nat: "read_digits (show_nat n) = n"
proof (induction n rule: show_nat.induct)
  case (1 n)
  then show ?case
    by (subst show_nat.simps) (auto simp: show_nat.simps [of n])
qed

lemma show_u32_inject: "show_u32 m = show_u32 n \<longleftrightarrow> m = n"
  by (metis read_digits_show_nat show_u32_def word_unat_eq_iff)

section \<open>Display of paths and topics\<close>

definition PROTOCOL_SEPARATOR :: char where
  "PROTOCOL_SEPARATOR = CHR '':''"

definition PATH_SEPARATOR :: char where
  "PATH_SEPARATOR = CHR ''/''"

fun display_path :: "path \<Rightarrow> string" where
  "display_path (Path s) = s"

definition display_topic :: "topic \<Rightarrow> string" where
  "display_topic t = protocol t @ [PROTOCOL_SEPARATOR] @ display_path (path_of t)"

section \<open>The error type\<close>

datatype bus_error =
    InvalidTopicString string
  | RequestFailedChannelClosed
  | RequestFailedTimeout
  | RequestFailed string
  | InvalidRequestId
  | TopicAlreadyClaimed
  | ClaimWildcardNotSupported
  | ChannelClosed
  | ServiceNotFound topic
  | DeliveryFailed u32 string
  | UnknownClient u32
  | MalformedMessage string string
  | UnserializableMessage string
  | IOError string
  | InternalError string
  | TlsConfigError string
  | DnsLookupFailed
  | ClientTimeout u32

type_synonym 'a result = "bus_error + 'a"

fun display_error :: "bus_error \<Rightarrow> string" where
  "display_error (InvalidTopicString s) = ''Invalid topic string: '' @ s"
| "display_error RequestFailedChannelClosed =
     ''Request failed: Channel closed while awaiting ACK''"
| "display_error RequestFailedTimeout = ''Request failed: Timeout while awaiting ACK''"
| "display_error (RequestFailed s) = ''Request failed: '' @ s"
| "display_error InvalidRequestId =
     ''Respond failed: Invalid request ID or requester disconnected''"
| "display_error TopicAlreadyClaimed = ''Claim topic failed: Already claimed''"
| "display_error ClaimWildcardNotSupported =
     ''Claim topic failed: Wildcards not supported''"
| "display_error ChannelClosed = ''Channel closed by peer''"
| "display_error (ServiceNotFound t) = ''Service not found: '' @ display_topic t"
| "display_error (DeliveryFailed c s) =
     ''Message delivery failed: Client #'' @ show_u32 c @ '': '' @ s"
| "display_error (UnknownClient c) =
     ''Message delivery failed: Unknown client '' @ show_u32 c"
| "display_error (MalformedMessage p s) =
     ''Deserialize message failed. Protocol: '' @ p @ ''. Error: '' @ s"
| "display_error (UnserializableMessage s) = ''Serialize message failed: '' @ s"
| "display_error (IOError s) = ''IO error: '' @ s"
| "display_error (InternalError s) = ''Internal error: '' @ s"
| "display_error (TlsConfigError s) = ''TLS configuration error: '' @ s"
| "display_error DnsLookupFailed = ''DNS lookup failed''"
| "display_error (ClientTimeout c) =
     ''Client #'' @ show_u32 c @
     '' timed out, no messages or keep alives for KEEP_ALIVE_TIMEOUT_S''"

section \<open>Conversions from library errors\<close>

text \<open>Where the conversion keeps the library's text, that text is the argument.\<close>

definition from_ser_error :: bus_error where
  "from_ser_error = IOError ''CBOR serialization failed.''"

definition from_de_error :: bus_error where
  "from_de_error = IOError ''CBOR deserialization failed.''"

definition from_io_error :: "string \<Rightarrow> bus_error" where
  "from_io_error text = IOError text"

definition from_send_error :: bus_error where
  "from_send_error = ChannelClosed"

definition from_join_error :: "string \<Rightarrow> bus_error" where
  "from_join_error text = InternalError text"

definition from_json_error :: "string \<Rightarrow> bus_error" where
  "from_json_error text = UnserializableMessage text"

definition from_recv_error :: "string \<Rightarrow> bus_error" where
  "from_recv_error text = InternalError text"

end
