(* ===== verification/Regex_Engine.thy ===== *)
theory Regex_Engine
  imports Bus_Prelude
begin

text \<open>
  The regular expressions the bus validates its strings with. The patterns are
  literals of the source and are written here as syntax trees; the engine that
  matches them (crate \<open>regex\<close>) is a parameter \<open>is_match\<close>, whose documented behaviour
  on anchored patterns is the law of locale \<open>regex_engine\<close>: it accepts exactly the
  strings of the regular language. A derivative matcher shows that the law can be met.
\<close>

section \<open>Patterns and their languages\<close>

datatype rexp =
    Empty                     \<comment> \<open>matches nothing\<close>
  | Eps                       \<comment> \<open>the empty string\<close>
  | Cls "(char \<times> char) list" \<comment> \<open>\<open>[a-z0-9_]\<close>: inclusive ranges\<close>
  | Alt rexp rexp
  | Seq rexp rexp
  | Star rexp

abbreviation Lit :: "char \<Rightarrow> rexp" where
  "Lit c \<equiv> Cls [(c, c)]"

abbreviation Plus :: "rexp \<Rightarrow> rexp" where
  "Plus r \<equiv> Seq r (Star r)"

definition in_class :: "(char \<times> char) list \<Rightarrow> char \<Rightarrow> bool" where
  "in_class rs c \<longleftrightarrow>
     (\<exists>(lo, hi) \<in> set rs. (of_char lo :: nat) \<le> of_char c \<and> (of_char c :: nat) \<le> of_char hi)"

lemma in_class_Nil [simp]: "\<not> in_class [] c"
  by (simp add: in_class_def)

lemma in_class_Cons [simp]:
  "in_class ((lo, hi) # rs) c \<longleftrightarrow>
     (of_char lo :: nat) \<le> of_char c \<and> (of_char c :: nat) \<le> of_char hi \<or> in_class rs c"
  by (simp add: in_class_def)

lemma in_class_Lit: "in_class [(c, c)] d \<longleftrightarrow> d = c"
proof -
  have "(of_char d :: nat) = of_char c \<longleftrightarrow> d = c"
    by (simp add: of_char_eq_iff)
  then show ?thesis by (auto simp: le_antisym)
qed

inductive rmatch :: "rexp \<Rightarrow> string \<Rightarrow> bool" where
  Eps: "rmatch Eps []"
| Cls: "in_class rs c \<Longrightarrow> rmatch (Cls rs) [c]"
| AltL: "rmatch r s \<Longrightarrow> rmatch (Alt r q) s"
| AltR: "rmatch q s \<Longrightarrow> rmatch (Alt r q) s"
| Seq: "rmatch r s \<Longrightarrow> rmatch q t \<Longrightarrow> rmatch (Seq r q) (s @ t)"
| Star_Nil: "rmatch (Star r) []"
| Star_App: "rmatch r s \<Longrightarrow> rmatch (Star r) t \<Longrightarrow> rmatch (Star r) (s @ t)"

inductive_cases rmatch_StarE: "rmatch (Star r) s"
inductive_simps rmatch_Empty [simp]: "rmatch Empty s"
inductive_simps rmatch_Eps [simp]: "rmatch Eps s"
inductive_simps rmatch_Cls: "rmatch (Cls rs) s"
inductive_simps rmatch_Alt [simp]: "rmatch (Alt r q) s"
inductive_simps rmatch_Seq: "rmatch (Seq r q) s"

lemma rmatch_Lit [simp]: "rmatch (Lit c) s \<longleftrightarrow> s = [c]"
  by (auto simp: rmatch_Cls in_class_Lit simp del: in_class_Cons)

lemma rmatch_Seq_Lit [simp]:
  "rmatch (Seq (Lit c) r) s \<longleftrightarrow> (\<exists>t. s = c # t \<and> rmatch r t)"
  by (auto simp: rmatch_Seq)

lemma rmatch_Star_Cls: "rmatch (Star (Cls rs)) s \<longleftrightarrow> (\<forall>c \<in> set s. in_class rs c)"
proof
  show "rmatch (Star (Cls rs)) s \<Longrightarrow> \<forall>c \<in> set s. in_class rs c"
    by (induction "Star (Cls rs)" s rule: rmatch.induct) (auto simp: rmatch_Cls)
next
  show "\<forall>c \<in> set s. in_class rs c \<Longrightarrow> rmatch (Star (Cls rs)) s"
  proof (induction s)
    case Nil
    show ?case by (rule rmatch.Star_Nil)
  next
    case (Cons c s)
    have "rmatch (Star (Cls rs)) ([c] @ s)"
      using Cons by (intro rmatch.Star_App rmatch.Cls) auto
    then show ?case by simp
  qed
qed

lemma rmatch_Plus_Cls:
  "rmatch (Plus (Cls rs)) s \<longleftrightarrow> s \<noteq> [] \<and> (\<forall>c \<in> set s. in_class rs c)"
proof (cases s)
  case Nil
  then show ?thesis by (auto simp: rmatch_Seq rmatch_Cls)
next
  case (Cons c t)
  have "rmatch (Plus (Cls rs)) (c # t) \<longleftrightarrow> in_class rs c \<and> rmatch (Star (Cls rs)) t"
    by (auto simp: rmatch_Seq rmatch_Cls intro: exI [of _ "[c]"])
  then show ?thesis
    by (simp add: Cons rmatch_Star_Cls)
qed

section \<open>A derivative matcher\<close>

primrec nullable :: "rexp \<Rightarrow> bool" where
  "nullable Empty \<longleftrightarrow> False"
| "nullable Eps \<longleftrightarrow> True"
| "nullable (Cls rs) \<longleftrightarrow> False"
| "nullable (Alt r q) \<longleftrightarrow> nullable r \<or> nullable q"
| "nullable (Seq r q) \<longleftrightarrow> nullable r \<and> nullable q"
| "nullable (Star r) \<longleftrightarrow> True"

primrec deriv :: "char \<Rightarrow> rexp \<Rightarrow> rexp" where
  "deriv c Empty = Empty"
| "deriv c Eps = Empty"
| "deriv c (Cls rs) = (if in_class rs c then Eps else Empty)"
| "deriv c (Alt r q) = Alt (deriv c r) (deriv c q)"
| "deriv c (Seq r q) =
     (if nullable r then Alt (Seq (deriv c r) q) (deriv c q) else Seq (deriv c r) q)"
| "deriv c (Star r) = Seq (deriv c r) (Star r)"

definition deriv_match :: "rexp \<Rightarrow> string \<Rightarrow> bool" where
  "deriv_match r s = nullable (fold deriv s r)"

lemma nullable_iff: "nullable r \<longleftrightarrow> rmatch r []"
  by (induction r) (auto simp: rmatch_Cls rmatch_Seq intro: rmatch.Star_Nil)

lemma rmatch_Star_Cons:
  "rmatch (Star r) (c # s) \<longleftrightarrow>
     (\<exists>u v. s = u @ v \<and> rmatch r (c # u) \<and> rmatch (Star r) v)"
proof
  show "rmatch (Star r) (c # s) \<Longrightarrow>
     \<exists>u v. s = u @ v \<and> rmatch r (c # u) \<and> rmatch (Star r) v"
  proof (induction "Star r" "c # s" rule: rmatch.induct)
    case (Star_App u v)
    then show ?case by (cases u) auto
  qed
next
  assume "\<exists>u v. s = u @ v \<and> rmatch r (c # u) \<and> rmatch (Star r) v"
  then obtain u v where "s = u @ v" "rmatch r (c # u)" "rmatch (Star r) v" by blast
  then show "rmatch (Star r) (c # s)"
    using rmatch.Star_App [of r "c # u" v] by simp
qed

lemma rmatch_Seq_Cons:
  "rmatch (Seq r q) (c # s) \<longleftrightarrow>
     (\<exists>u v. s = u @ v \<and> rmatch r (c # u) \<and> rmatch q v) \<or> rmatch r [] \<and> rmatch q (c # s)"
  unfolding rmatch_Seq by (auto simp: Cons_eq_append_conv)

lemma rmatch_deriv: "rmatch (deriv c r) s \<longleftrightarrow> rmatch r (c # s)"
proof (induction r arbitrary: s)
  case (Seq r q)
  have "rmatch (Seq (deriv c r) q) s \<longleftrightarrow> (\<exists>u v. s = u @ v \<and> rmatch r (c # u) \<and> rmatch q v)"
    by (auto simp: rmatch_Seq Seq.IH)
  then show ?case
    by (auto simp: rmatch_Seq_Cons nullable_iff Seq.IH)
next
  case (Star r)
  then show ?case by (auto simp: rmatch_Star_Cons rmatch_Seq)
qed (auto simp: rmatch_Cls)

lemma deriv_match_iff: "deriv_match r s \<longleftrightarrow> rmatch r s"
  unfolding deriv_match_def
  by (induction s arbitrary: r) (auto simp: nullable_iff rmatch_deriv)

section \<open>The engine\<close>

locale regex_engine =
  fixes is_match :: "rexp \<Rightarrow> string \<Rightarrow> bool"
  assumes is_match_iff: "is_match r s \<longleftrightarrow> rmatch r s"

interpretation deriv_engine: regex_engine deriv_match
  by unfold_locales (rule deriv_match_iff)

end
