(* ===== verification/Topic.thy ===== *)
theory Topic
  imports Err Regex_Engine
begin

text \<open>
  \<open>topic.rs\<close>: validation, parsing, splitting, building, printing and the wire form of
  paths and topics. The regular expressions are translated from the source; the engine
  is the parameter \<open>rx\<close>.
\<close>

section \<open>Constants\<close>

definition WILDCARD :: string where
  "WILDCARD = ''*''"

definition DOUBLE_WILDCARD :: string where
  "DOUBLE_WILDCARD = ''**''"

lemma wildcards_distinct [simp]:
  "WILDCARD \<noteq> DOUBLE_WILDCARD" "DOUBLE_WILDCARD \<noteq> WILDCARD"
  by (simp_all add: WILDCARD_def DOUBLE_WILDCARD_def)

definition word_class :: "(char \<times> char) list" where
  \<comment> \<open>\<open>[a-z0-9_]\<close>\<close>
  "word_class = [(CHR ''a'', CHR ''z''), (CHR ''0'', CHR ''9''), (CHR ''_'', CHR ''_'')]"

definition RGX_SEGMENT :: rexp where
  \<comment> \<open>\<open>[a-z0-9_]+|\*|\*\*\<close>\<close>
  "RGX_SEGMENT =
     Alt (Plus (Cls word_class)) (Alt (Lit CHR ''*'') (Seq (Lit CHR ''*'') (Lit CHR ''*'')))"

definition RGX_PATH :: rexp where
  "RGX_PATH = Seq (Star (Seq RGX_SEGMENT (Lit CHR ''/''))) RGX_SEGMENT"

definition RGX_PROTOCOL :: rexp where
  "RGX_PROTOCOL = Alt (Plus (Cls word_class)) (Lit CHR ''*'')"

section \<open>Splitting and joining\<close>

fun split_char :: "char \<Rightarrow> string \<Rightarrow> string list" where
  \<comment> \<open>\<open>str::split(char)\<close>\<close>
  "split_char c [] = [[]]"
| "split_char c (x # xs) =
     (if x = c then [] # split_char c xs
      else case split_char c xs of [] \<Rightarrow> [[x]] | w # ws \<Rightarrow> (x # w) # ws)"

fun split_once :: "char \<Rightarrow> string \<Rightarrow> (string \<times> string) option" where
  \<comment> \<open>\<open>str::split_once(char)\<close>\<close>
  "split_once c [] = None"
| "split_once c (x # xs) =
     (if x = c then Some ([], xs)
      else map_option (\<lambda>(a, b). (x # a, b)) (split_once c xs))"

section \<open>Path\<close>

definition path_root :: path where
  "path_root = Path ''''"

definition is_root :: "path \<Rightarrow> bool" where
  "is_root p \<longleftrightarrow> path_str p = []"

definition validate_path :: "(rexp \<Rightarrow> string \<Rightarrow> bool) \<Rightarrow> string \<Rightarrow> unit result" where
  "validate_path rx s =
     (if s = [] \<or> rx RGX_PATH s then Inr ()
      else Inl (InvalidTopicString (''Invalid path: '' @ s)))"

definition validate_protocol :: "(rexp \<Rightarrow> string \<Rightarrow> bool) \<Rightarrow> string \<Rightarrow> unit result" where
  "validate_protocol rx s =
     (if rx RGX_PROTOCOL s then Inr ()
      else Inl (InvalidTopicString (''Invalid protocol: '' @ s)))"

definition path_new :: "(rexp \<Rightarrow> string \<Rightarrow> bool) \<Rightarrow> string \<Rightarrow> path result" where
  "path_new rx s = (case validate_path rx s of Inl e \<Rightarrow> Inl e | Inr _ \<Rightarrow> Inr (Path s))"

definition path_segments :: "path \<Rightarrow> string list" where
  "path_segments p = (if is_root p then [] else split_char PATH_SEPARATOR (path_str p))"

fun push_segments :: "nat \<Rightarrow> string list \<Rightarrow> string \<Rightarrow> string" where
  \<comment> \<open>the loop of \<open>from_valid_segments\<close>: index, remaining segments, path so far\<close>
  "push_segments i [] path = path"
| "push_segments i (s # ss) path =
     push_segments (i + 1) ss ((if i > 0 then path @ [PATH_SEPARATOR] else path) @ s)"

definition path_from_valid_segments :: "string list \<Rightarrow> path" where
  "path_from_valid_segments ss = Path (push_segments 0 ss '''')"

definition path_from_str :: "(rexp \<Rightarrow> string \<Rightarrow> bool) \<Rightarrow> string \<Rightarrow> path result" where
  "path_from_str rx s = path_new rx s"

definition path_try_from :: "(rexp \<Rightarrow> string \<Rightarrow> bool) \<Rightarrow> string \<Rightarrow> path result" where
  "path_try_from rx s = path_new rx s"

definition path_as_str :: "path \<Rightarrow> string" where
  "path_as_str p = path_str p"

definition path_as_ref :: "path \<Rightarrow> string" where
  "path_as_ref p = path_str p"

section \<open>Topic\<close>

definition topic_new :: "(rexp \<Rightarrow> string \<Rightarrow> bool) \<Rightarrow> string \<Rightarrow> path \<Rightarrow> topic result" where
  "topic_new rx prot p =
     (case validate_protocol rx prot of Inl e \<Rightarrow> Inl e
      | Inr _ \<Rightarrow> Inr \<lparr>protocol = prot, path_of = p\<rparr>)"

definition topic_protocol :: "topic \<Rightarrow> string" where
  "topic_protocol t = protocol t"

definition topic_path :: "topic \<Rightarrow> path" where
  "topic_path t = path_of t"

definition into_parts :: "topic \<Rightarrow> string \<times> path" where
  "into_parts t = (protocol t, path_of t)"

definition topic_segments :: "topic \<Rightarrow> string list" where
  "topic_segments t = protocol t # path_segments (path_of t)"

definition topic_from_valid_segments :: "string list \<Rightarrow> topic option" where
  "topic_from_valid_segments segs =
     (case segs of [] \<Rightarrow> None
      | p # ps \<Rightarrow> Some \<lparr>protocol = p, path_of = path_from_valid_segments ps\<rparr>)"

definition topic_from_str :: "(rexp \<Rightarrow> string \<Rightarrow> bool) \<Rightarrow> string \<Rightarrow> topic result" where
  "topic_from_str rx s =
     (case split_once PROTOCOL_SEPARATOR s of
        None \<Rightarrow> Inl (InvalidTopicString
          (''Invalid topic: '' @ s @ ''. Expected <protocol>:<path>''))
      | Some (prot, p) \<Rightarrow>
          (case path_from_str rx p of Inl e \<Rightarrow> Inl e | Inr path \<Rightarrow> topic_new rx prot path))"

definition topic_try_from :: "(rexp \<Rightarrow> string \<Rightarrow> bool) \<Rightarrow> string \<Rightarrow> topic result" where
  "topic_try_from rx s = topic_from_str rx s"

section \<open>Wire form\<close>

text \<open>
  On the wire a topic is the pair of its protocol and its path string. The library
  error that wraps a failed validation (\<open>D::Error::custom\<close>) is represented by the
  validation error itself.
\<close>

definition serialize_path :: "path \<Rightarrow> string" where
  "serialize_path p = path_str p"

definition deserialize_path :: "(rexp \<Rightarrow> string \<Rightarrow> bool) \<Rightarrow> string \<Rightarrow> path result" where
  "deserialize_path rx s = path_new rx s"

definition serialize_topic :: "topic \<Rightarrow> string \<times> string" where
  "serialize_topic t = (protocol t, serialize_path (path_of t))"

definition deserialize_topic ::
    "(rexp \<Rightarrow> string \<Rightarrow> bool) \<Rightarrow> string \<times> string \<Rightarrow> topic result" where
  "deserialize_topic rx w =
     (case deserialize_path rx (snd w) of Inl e \<Rightarrow> Inl e
      | Inr p \<Rightarrow> topic_new rx (fst w) p)"

section \<open>Valid segments, paths and topics\<close>

definition is_word :: "string \<Rightarrow> bool" where
  "is_word s \<longleftrightarrow> s \<noteq> [] \<and> (\<forall>c \<in> set s. in_class word_class c)"

definition valid_segment :: "string \<Rightarrow> bool" where
  "valid_segment s \<longleftrightarrow> is_word s \<or> s = WILDCARD \<or> s = DOUBLE_WILDCARD"

definition valid_protocol :: "string \<Rightarrow> bool" where
  "valid_protocol s \<longleftrightarrow> is_word s \<or> s = WILDCARD"

definition wf_path :: "path \<Rightarrow> bool" where
  "wf_path p \<longleftrightarrow> (\<forall>s \<in> set (path_segments p). valid_segment s)"

definition wf_topic :: "topic \<Rightarrow> bool" where
  "wf_topic t \<longleftrightarrow> valid_protocol (protocol t) \<and> wf_path (path_of t)"

lemma word_class_excludes:
  "\<not> in_class word_class CHR ''/''"
  "\<not> in_class word_class CHR '':''"
  "\<not> in_class word_class CHR ''*''"
  by (simp_all add: word_class_def)

lemma valid_segment_sep: "valid_segment s \<Longrightarrow> PATH_SEPARATOR \<notin> set s"
  by (auto simp: valid_segment_def is_word_def WILDCARD_def DOUBLE_WILDCARD_def
      PATH_SEPARATOR_def word_class_excludes)

lemma valid_segment_nonempty: "valid_segment s \<Longrightarrow> s \<noteq> []"
  by (auto simp: valid_segment_def is_word_def WILDCARD_def DOUBLE_WILDCARD_def)

lemma valid_protocol_sep: "valid_protocol s \<Longrightarrow> PROTOCOL_SEPARATOR \<notin> set s"
  by (auto simp: valid_protocol_def is_word_def WILDCARD_def
      PROTOCOL_SEPARATOR_def word_class_excludes)

lemma valid_protocol_segment: "valid_protocol s \<Longrightarrow> valid_segment s"
  by (auto simp: valid_protocol_def valid_segment_def)

lemma is_word_not_wildcard: "is_word s \<Longrightarrow> s \<noteq> WILDCARD \<and> s \<noteq> DOUBLE_WILDCARD"
  by (auto simp: is_word_def WILDCARD_def DOUBLE_WILDCARD_def word_class_excludes)

section \<open>Splitting and joining are inverse\<close>

lemma split_char_notin: "c \<notin> set s \<Longrightarrow> split_char c s = [s]"
  by (induction s) auto

lemma split_char_app: "c \<notin> set w \<Longrightarrow> split_char c (w @ c # r) = w # split_char c r"
  by (induction w) auto

lemma split_char_nonempty [simp]: "split_char c s \<noteq> []"
  by (induction s) (auto split: list.splits)

lemma split_char_induct [case_names last more]:
  assumes last: "\<And>s. c \<notin> set s \<Longrightarrow> P s"
    and more: "\<And>w r. c \<notin> set w \<Longrightarrow> P r \<Longrightarrow> P (w @ c # r)"
  shows "P s"
proof (induction s rule: length_induct)
  case (1 s)
  show ?case
  proof (cases "c \<in> set s")
    case True
    then obtain w r where s: "s = w @ c # r" "c \<notin> set w"
      by (metis split_list_first)
    then have "P r" using 1 by simp
    then show ?thesis using s more by simp
  next
    case False
    then show ?thesis by (rule last)
  qed
qed

lemma push_segments_Suc:
  "0 < i \<Longrightarrow> push_segments i ss path = path @ concat (map ((#) PATH_SEPARATOR) ss)"
  by (induction ss arbitrary: i path) auto

lemma push_segments_Cons:
  "push_segments 0 (s # ss) [] = s @ concat (map ((#) PATH_SEPARATOR) ss)"
  by (simp add: push_segments_Suc)

lemma split_concat:
  "\<forall>s \<in> set (s # ss). c \<notin> set s \<Longrightarrow>
   split_char c (s @ concat (map ((#) c) ss)) = s # ss"
proof (induction ss arbitrary: s)
  case Nil
  then show ?case by (simp add: split_char_notin)
next
  case (Cons t ss)
  then show ?case by (simp add: split_char_app)
qed

lemma concat_split: "split_char c s = w # ws \<Longrightarrow> w @ concat (map ((#) c) ws) = s"
proof (induction s arbitrary: w ws rule: split_char_induct [of c])
  case (last s)
  then show ?case by (simp add: split_char_notin)
next
  case (more v r)
  then have "w = v" and ws: "split_char c r = ws" by (auto simp: split_char_app)
  moreover obtain x xs where "ws = x # xs"
    using ws by (cases ws) (auto simp: split_char_nonempty)
  moreover have "x @ concat (map ((#) c) xs) = r"
    using more.IH ws calculation(3) by simp
  ultimately show ?case by simp
qed

lemma from_segments: "path_from_valid_segments (path_segments p) = p"
proof (cases "is_root p")
  case True
  then show ?thesis
    by (cases p) (simp add: path_segments_def path_from_valid_segments_def is_root_def)
next
  case False
  then obtain w ws where "split_char PATH_SEPARATOR (path_str p) = w # ws"
    by (meson list.exhaust split_char_nonempty)
  then show ?thesis using False concat_split
    by (cases p) (simp add: path_segments_def path_from_valid_segments_def
        push_segments_Suc)
qed

lemma segments_from:
  assumes "\<forall>s \<in> set ss. valid_segment s"
  shows "path_segments (path_from_valid_segments ss) = ss"
proof (cases ss)
  case Nil
  then show ?thesis
    by (simp add: path_segments_def path_from_valid_segments_def is_root_def)
next
  case (Cons t ts)
  then have "t \<noteq> []" using assms valid_segment_nonempty by auto
  moreover have "\<forall>s \<in> set (t # ts). PATH_SEPARATOR \<notin> set s"
    using Cons assms valid_segment_sep by blast
  ultimately show ?thesis using Cons
    by (simp add: path_segments_def path_from_valid_segments_def is_root_def
        push_segments_Suc split_concat)
qed

lemma topic_from_segments: "topic_from_valid_segments (topic_segments t) = Some t"
  by (simp add: topic_from_valid_segments_def topic_segments_def from_segments)

lemma topic_segments_inject: "topic_segments t = topic_segments u \<Longrightarrow> t = u"
  by (metis topic_from_segments option.inject)

lemma topic_segments_from:
  assumes "\<forall>s \<in> set ss. valid_segment s" and "topic_from_valid_segments ss = Some t"
  shows "topic_segments t = ss"
  using assms
  by (cases ss) (auto simp: topic_from_valid_segments_def topic_segments_def segments_from)

lemma topic_segments_valid: "wf_topic t \<Longrightarrow> \<forall>s \<in> set (topic_segments t). valid_segment s"
  by (auto simp: wf_topic_def topic_segments_def wf_path_def valid_protocol_segment)

section \<open>The regular expressions accept exactly the valid strings\<close>

lemma rmatch_SEGMENT: "rmatch RGX_SEGMENT s \<longleftrightarrow> valid_segment s"
  by (simp add: RGX_SEGMENT_def valid_segment_def is_word_def rmatch_Plus_Cls
      WILDCARD_def DOUBLE_WILDCARD_def)

lemma rmatch_PROTOCOL: "rmatch RGX_PROTOCOL s \<longleftrightarrow> valid_protocol s"
  by (simp add: RGX_PROTOCOL_def valid_protocol_def is_word_def rmatch_Plus_Cls WILDCARD_def)

lemma rmatch_STEM:
  "rmatch (Star (Seq RGX_SEGMENT (Lit CHR ''/''))) u \<Longrightarrow> valid_segment v \<Longrightarrow>
   \<forall>s \<in> set (split_char PATH_SEPARATOR (u @ v)). valid_segment s"
proof (induction "Star (Seq RGX_SEGMENT (Lit CHR ''/''))" u rule: rmatch.induct)
  case Star_Nil
  then show ?case by (simp add: split_char_notin valid_segment_sep)
next
  case (Star_App x t)
  then obtain w where "x = w @ [PATH_SEPARATOR]" and w: "valid_segment w"
    by (auto simp: rmatch_Seq rmatch_SEGMENT PATH_SEPARATOR_def)
  then show ?case using Star_App by (simp add: split_char_app valid_segment_sep)
qed

lemma rmatch_PATH:
  "rmatch RGX_PATH s \<longleftrightarrow> (\<forall>w \<in> set (split_char PATH_SEPARATOR s). valid_segment w)"
proof
  assume "rmatch RGX_PATH s"
  then show "\<forall>w \<in> set (split_char PATH_SEPARATOR s). valid_segment w"
    unfolding RGX_PATH_def by (auto simp: rmatch_Seq [of "Star _"] rmatch_SEGMENT
        dest: rmatch_STEM)
next
  show "\<forall>w \<in> set (split_char PATH_SEPARATOR s). valid_segment w \<Longrightarrow> rmatch RGX_PATH s"
  proof (induction s rule: split_char_induct [of PATH_SEPARATOR])
    case (last s)
    then have "rmatch RGX_SEGMENT s" by (simp add: split_char_notin rmatch_SEGMENT)
    then show ?case unfolding RGX_PATH_def
      using rmatch.Seq [OF rmatch.Star_Nil] by fastforce
  next
    case (more w r)
    then have "rmatch RGX_SEGMENT w" and "rmatch RGX_PATH r"
      by (auto simp: split_char_app rmatch_SEGMENT)
    moreover from this obtain u v where "r = u @ v"
      and "rmatch (Star (Seq RGX_SEGMENT (Lit CHR ''/''))) u" and "rmatch RGX_SEGMENT v"
      unfolding RGX_PATH_def by (auto simp: rmatch_Seq [of "Star _"])
    moreover have "rmatch (Seq RGX_SEGMENT (Lit CHR ''/'')) (w @ [CHR ''/''])"
      using calculation(1) by (intro rmatch.Seq) simp_all
    ultimately show ?case unfolding RGX_PATH_def PATH_SEPARATOR_def
      by (metis (no_types, lifting) append.assoc append_Cons append_Nil rmatch.Seq
          rmatch.Star_App)
  qed
qed

section \<open>Parsing and printing under the engine's law\<close>

lemma split_once_eq:
  "split_once c s = (if c \<in> set s then Some (takeWhile (\<lambda>x. x \<noteq> c) s, tl (dropWhile (\<lambda>x. x \<noteq> c) s))
     else None)"
  by (induction s) auto

lemma split_once_app: "c \<notin> set a \<Longrightarrow> split_once c (a @ c # b) = Some (a, b)"
  by (induction a) auto

lemma split_once_SomeD: "split_once c s = Some (a, b) \<Longrightarrow> s = a @ c # b \<and> c \<notin> set a"
  by (induction s arbitrary: a) (auto split: if_splits)

context regex_engine
begin

lemma validate_path_Inr: "validate_path is_match s = Inr u \<longleftrightarrow> wf_path (Path s)"
  by (auto simp: validate_path_def is_match_iff rmatch_PATH wf_path_def path_segments_def
      is_root_def)

lemma validate_protocol_Inr: "validate_protocol is_match s = Inr u \<longleftrightarrow> valid_protocol s"
  by (auto simp: validate_protocol_def is_match_iff rmatch_PROTOCOL)

lemma path_new_Inr: "path_new is_match s = Inr p \<longleftrightarrow> p = Path s \<and> wf_path p"
  using validate_path_Inr [of s] by (auto simp: path_new_def split: sum.splits)

lemma path_new_Inl:
  "path_new is_match s = Inl e \<longleftrightarrow>
     \<not> wf_path (Path s) \<and> e = InvalidTopicString (''Invalid path: '' @ s)"
  using validate_path_Inr [of s]
  by (auto simp: path_new_def validate_path_def split: sum.splits if_splits)

lemma topic_new_Inr:
  "topic_new is_match pr p = Inr t \<longleftrightarrow>
     valid_protocol pr \<and> t = \<lparr>protocol = pr, path_of = p\<rparr>"
  using validate_protocol_Inr [of pr] by (auto simp: topic_new_def split: sum.splits)

lemma topic_from_str_Inr:
  "topic_from_str is_match s = Inr t \<longleftrightarrow> s = display_topic t \<and> wf_topic t"
proof
  assume "topic_from_str is_match s = Inr t"
  then obtain a b where "split_once PROTOCOL_SEPARATOR s = Some (a, b)"
    and "wf_path (Path b)" "valid_protocol a" "t = \<lparr>protocol = a, path_of = Path b\<rparr>"
    by (auto simp: topic_from_str_def path_from_str_def path_new_Inr topic_new_Inr
        split: option.splits sum.splits)
  then show "s = display_topic t \<and> wf_topic t"
    by (auto simp: display_topic_def wf_topic_def dest: split_once_SomeD)
next
  assume t: "s = display_topic t \<and> wf_topic t"
  obtain p where p: "path_of t = Path p" by (cases "path_of t")
  have "split_once PROTOCOL_SEPARATOR s = Some (protocol t, p)"
    using t p by (auto simp: display_topic_def wf_topic_def
        intro!: split_once_app valid_protocol_sep)
  moreover have "path_new is_match p = Inr (Path p)"
    using t p by (simp add: path_new_Inr wf_topic_def)
  moreover have "topic_new is_match (protocol t) (Path p) = Inr t"
    using t p by (simp add: topic_new_Inr wf_topic_def)
  ultimately show "topic_from_str is_match s = Inr t"
    by (simp add: topic_from_str_def path_from_str_def)
qed

lemma deserialize_topic_Inr:
  "deserialize_topic is_match w = Inr t \<longleftrightarrow> w = serialize_topic t \<and> wf_topic t"
  by (cases t; cases w; cases "path_of t")
     (auto simp: deserialize_topic_def deserialize_path_def path_new_Inr path_new_Inl topic_new_Inr
       serialize_topic_def serialize_path_def wf_topic_def split: sum.splits)

end

end
