(* ===== verification/Protocol.thy ===== *)
theory Protocol
  imports Topic
begin

text \<open>
  \<open>protocol.rs\<close>: the messages between client and server, the payload with its optional
  compression, and the protocol's constants. The gzip coder and decoder (crate
  \<open>flate2\<close>) are parameters.
\<close>

section \<open>Constants\<close>

definition REQUEST_TIMEOUT_S :: nat where
  "REQUEST_TIMEOUT_S = 30"

definition KEEP_ALIVE_INTERVAL_S :: nat where
  "KEEP_ALIVE_INTERVAL_S = 30"

definition KEEP_ALIVE_TIMEOUT_S :: nat where
  "KEEP_ALIVE_TIMEOUT_S = 90"

definition MAX_MESSAGE_SIZE_BYTES :: nat where
  "MAX_MESSAGE_SIZE_BYTES = 2 ^ 20"

definition PAYLOAD_COMPRESSION_THRESHOLD_BYTES :: nat where
  "PAYLOAD_COMPRESSION_THRESHOLD_BYTES = 5000"

section \<open>Payload\<close>

record payload =
  data :: bytes
  is_compressed :: bool

definition payload_from_bytes :: "(bytes \<Rightarrow> bytes) \<Rightarrow> bytes \<Rightarrow> payload" where
  \<comment> \<open>\<open>impl From<Vec<u8>> for Payload\<close>; writing to a \<open>Vec\<close> never fails\<close>
  "payload_from_bytes gz_enc d =
     (if length d > PAYLOAD_COMPRESSION_THRESHOLD_BYTES
      then \<lparr>data = gz_enc d, is_compressed = True\<rparr>
      else \<lparr>data = d, is_compressed = False\<rparr>)"

definition payload_into_bytes :: "(bytes \<Rightarrow> bytes option) \<Rightarrow> payload \<Rightarrow> bytes run" where
  \<comment> \<open>\<open>impl From<Payload> for Vec<u8>\<close>; \<open>None\<close> of the decoder is its error, which the
    code unwraps\<close>
  "payload_into_bytes gz_dec p =
     (case is_compressed p of
        True \<Rightarrow> (case gz_dec (data p) of Some d \<Rightarrow> returns d | None \<Rightarrow> panic)
      | False \<Rightarrow> returns (data p))"

definition display_payload :: "payload \<Rightarrow> string" where
  "display_payload p =
     show_nat (length (data p)) @ '' bytes'' @ (if is_compressed p then '' compressed'' else [])"

definition gzip_law :: "(bytes \<Rightarrow> bytes) \<Rightarrow> (bytes \<Rightarrow> bytes option) \<Rightarrow> bool" where
  \<comment> \<open>what the code relies on of the coder pair\<close>
  "gzip_law gz_enc gz_dec \<longleftrightarrow> (\<forall>d. gz_dec (gz_enc d) = Some d)"

lemma payload_round_trip:
  "gzip_law gz_enc gz_dec \<Longrightarrow>
   payload_into_bytes gz_dec (payload_from_bytes gz_enc d) = returns d"
  by (simp add: gzip_law_def payload_into_bytes_def payload_from_bytes_def)

section \<open>Messages\<close>

datatype sub_msg = SubMsg (sub_topic: topic)

datatype unsub_msg = UnsubMsg (unsub_topic: topic)

record pub_msg =
  pub_topic :: topic
  pub_payload :: payload

lemma pub_msg_eta [simp]: "\<lparr>pub_topic = pub_topic p, pub_payload = pub_payload p\<rparr> = p"
  by (cases p) simp

datatype srv_msg = SrvMsg (srv_topic: topic)

datatype unsrv_msg = UnsrvMsg (unsrv_topic: topic)

record req_msg =
  req_topic :: topic
  req_payload :: payload

lemma req_msg_eta [simp]: "\<lparr>req_topic = req_topic p, req_payload = req_payload p\<rparr> = p"
  by (cases p) simp

datatype rsp_msg_status = StatusOk | StatusTimeout

record rsp_msg =
  rsp_req_id :: u32
  rsp_status :: rsp_msg_status
  rsp_payload :: payload

record ack_msg =
  ack_msg_id :: u32
  ack_err :: "bus_error option"
  num_recipients :: "nat option"

datatype protocol_client =
    ClientSub sub_msg
  | ClientPub pub_msg
  | ClientSrv srv_msg
  | ClientReq req_msg
  | ClientRsp rsp_msg
  | ClientUnsub unsub_msg
  | ClientUnsrv unsrv_msg
  | ClientStop
  | ClientKeepAlive

datatype protocol_server =
    ServerPub pub_msg
  | ServerReq req_msg
  | ServerRsp rsp_msg
  | ServerAck ack_msg

datatype 'c msg = Msg (mid: u32) (content: 'c)

section \<open>Messages as they arrive\<close>

text \<open>
  A topic only exists in a running bus because it was validated, when it was built or
  when it was decoded; \<open>wf_client_msg\<close> says so for each message that carries one.
\<close>

fun client_topic :: "protocol_client \<Rightarrow> topic option" where
  "client_topic (ClientSub m) = Some (sub_topic m)"
| "client_topic (ClientPub m) = Some (pub_topic m)"
| "client_topic (ClientSrv m) = Some (srv_topic m)"
| "client_topic (ClientReq m) = Some (req_topic m)"
| "client_topic (ClientRsp m) = None"
| "client_topic (ClientUnsub m) = Some (unsub_topic m)"
| "client_topic (ClientUnsrv m) = Some (unsrv_topic m)"
| "client_topic ClientStop = None"
| "client_topic ClientKeepAlive = None"

definition wf_client_msg :: "protocol_client msg \<Rightarrow> bool" where
  "wf_client_msg m \<longleftrightarrow> (case client_topic (content m) of Some t \<Rightarrow> wf_topic t | None \<Rightarrow> True)"

end
