(* ===== verification/Topic_Properties.thy ===== *)
theory Topic_Properties
  imports Protocol
begin

text \<open>
  The properties of topics, paths and payloads: parsing and printing, the segments, the
  wire form, and compression. The regular-expression engine is a parameter with the law
  of locale \<open>regex_engine\<close>; the witnesses run the derivative matcher.
\<close>

text \<open>
  C24: parsing a topic succeeds exactly on the printed form of a valid topic, and returns
  that topic; every other string is the error \<open>InvalidTopicString\<close>.
\<close>

theorem topic_parse_print:
  assumes "regex_engine rx"
  shows "(topic_from_str rx s = Inr t \<longleftrightarrow> s = display_topic t \<and> wf_topic t) \<and>
     (topic_from_str rx s = Inl e \<longrightarrow> (\<exists>m. e = InvalidTopicString m))"
proof -
  note path_new_Inl = regex_engine.path_new_Inl [OF assms]
  note topic_from_str_Inr = regex_engine.topic_from_str_Inr [OF assms]
  have "\<exists>m. e = InvalidTopicString m" if "topic_from_str rx s = Inl e"
    using that
    by (auto simp: topic_from_str_def topic_new_def validate_protocol_def path_from_str_def
        path_new_Inl split: option.splits sum.splits if_splits)
  then show ?thesis by (simp add: topic_from_str_Inr)
qed

theorem topic_parse_print_witness:
  "topic_from_str deriv_match ''p:a/*/b_1'' = Inr \<lparr>protocol = ''p'', path_of = Path ''a/*/b_1''\<rparr>"
  using topic_parse_print [OF deriv_engine.regex_engine_axioms, of "''p:a/*/b_1''"
      "\<lparr>protocol = ''p'', path_of = Path ''a/*/b_1''\<rparr>"]
  by (auto simp: display_topic_def PROTOCOL_SEPARATOR_def wf_topic_def valid_protocol_def
      wf_path_def path_segments_def is_root_def is_word_def word_class_def valid_segment_def
      PATH_SEPARATOR_def WILDCARD_def)

text \<open>
  A path is accepted exactly when it is empty or every part between the separators
  is a word over \<open>a-z0-9_\<close> (given by their codes), a \<open>*\<close> or a \<open>**\<close>; the error repeats the path.
\<close>

theorem path_accepted_iff_segments_valid:
  assumes "regex_engine rx"
  shows "validate_path rx s =
     (if s = [] \<or> (\<forall>w \<in> set (split_char PATH_SEPARATOR s).
          w = ''*'' \<or> w = ''**'' \<or>
          (w \<noteq> [] \<and> (\<forall>c \<in> set w. (of_char c :: nat) \<in> {97..122} \<union> {48..57} \<union> {95})))
      then Inr () else Inl (InvalidTopicString (''Invalid path: '' @ s)))"
proof -
  note is_match_iff = regex_engine.is_match_iff [OF assms]
  have "valid_segment w \<longleftrightarrow> w = ''*'' \<or> w = ''**'' \<or>
      (w \<noteq> [] \<and> (\<forall>c \<in> set w. (of_char c :: nat) \<in> {97..122} \<union> {48..57} \<union> {95}))" for w
    by (auto simp: valid_segment_def is_word_def word_class_def WILDCARD_def
        DOUBLE_WILDCARD_def)
  then show ?thesis by (simp add: validate_path_def is_match_iff rmatch_PATH)
qed

theorem path_accepted_iff_segments_valid_witness:
  "validate_path deriv_match ''a/B'' = Inl (InvalidTopicString ''Invalid path: a/B'') \<and>
   validate_path deriv_match ''a_1/**'' = Inr ()"
  using path_accepted_iff_segments_valid [OF deriv_engine.regex_engine_axioms, of "''a/B''"]
    path_accepted_iff_segments_valid [OF deriv_engine.regex_engine_axioms, of "''a_1/**''"]
  by (auto simp: PATH_SEPARATOR_def)

text \<open>
  A topic and its segments determine each other: joining the segments of a topic
  gives the topic back, and every list of valid segments whose first can be a protocol
  is the segment list of the topic built from it.
\<close>

theorem topic_segments_round_trip:
  "topic_from_valid_segments (topic_segments t) = Some t \<and>
   (valid_protocol p \<and> (\<forall>s \<in> set ss. valid_segment s) \<longrightarrow>
      (\<exists>u. topic_from_valid_segments (p # ss) = Some u \<and> topic_segments u = p # ss \<and> wf_topic u))"
proof -
  have "topic_segments u = p # ss \<and> wf_topic u"
    if "valid_protocol p" "\<forall>s \<in> set ss. valid_segment s"
      "topic_from_valid_segments (p # ss) = Some u" for u
    using that segments_from [OF that(2)]
    by (auto simp: topic_from_valid_segments_def topic_segments_def wf_topic_def wf_path_def)
  then show ?thesis
    by (auto simp: topic_from_segments) (auto simp: topic_from_valid_segments_def)
qed

theorem topic_segments_round_trip_witness:
  "\<exists>u. topic_from_valid_segments [''p'', ''a'', ''**''] = Some u \<and>
     topic_segments u = [''p'', ''a'', ''**'']"
  using topic_segments_round_trip [of undefined "''p''" "[''a'', ''**'']"]
  by (auto simp: valid_protocol_def is_word_def word_class_def valid_segment_def
      DOUBLE_WILDCARD_def)

text \<open>
  Decoding a topic from its wire form accepts exactly the encodings of valid topics,
  so nothing invalid enters the bus through a message.
\<close>

theorem topic_wire_round_trip:
  assumes "regex_engine rx"
  shows "deserialize_topic rx w = Inr t \<longleftrightarrow> w = serialize_topic t \<and> wf_topic t"
  by (rule regex_engine.deserialize_topic_Inr [OF assms])

theorem topic_wire_round_trip_witness:
  "deserialize_topic deriv_match (''p'', ''a'') = Inr \<lparr>protocol = ''p'', path_of = Path ''a''\<rparr>"
  using topic_wire_round_trip [OF deriv_engine.regex_engine_axioms, of "(''p'', ''a'')"
      "\<lparr>protocol = ''p'', path_of = Path ''a''\<rparr>"]
  by (auto simp: serialize_topic_def serialize_path_def wf_topic_def valid_protocol_def
      wf_path_def path_segments_def is_root_def is_word_def word_class_def valid_segment_def
      PATH_SEPARATOR_def)

text \<open>
  A payload gives back the bytes it was made from, compressed exactly when they are
  longer than the threshold, and the receiver never panics on it.
\<close>

theorem payload_gives_back_its_bytes:
  assumes "gzip_law gz_enc gz_dec"
  shows "payload_into_bytes gz_dec (payload_from_bytes gz_enc d) = returns d \<and>
     is_compressed (payload_from_bytes gz_enc d) = (5000 < length d)"
  using payload_round_trip [OF assms, of d]
  by (simp add: payload_from_bytes_def PAYLOAD_COMPRESSION_THRESHOLD_BYTES_def)

theorem payload_gives_back_its_bytes_witness:
  "payload_into_bytes (\<lambda>x. Some (rev x)) (payload_from_bytes rev [1, 2, 3]) = returns [1, 2, 3]"
  using payload_gives_back_its_bytes [of rev "\<lambda>x. Some (rev x)" "[1, 2, 3]"]
  by (simp add: gzip_law_def)

end
