(* ===== verification/Matching.thy ===== *)
theory Matching
  imports Topic
begin

text \<open>
  What a topic pattern means, independently of the directory tree. A pattern is the
  segment list of a topic; it denotes a set of concrete segment lists (\<open>pat_matches\<close>):
  a word stands for itself, \<open>*\<close> for any one segment, \<open>**\<close> for any number of segments,
  none included. Both sides of the bus may use patterns: a subscription and a
  publication meet when some concrete topic belongs to both (\<open>overlap\<close> decides this).
\<close>

fun pat_matches :: "string list \<Rightarrow> string list \<Rightarrow> bool" where
  "pat_matches [] w \<longleftrightarrow> w = []"
| "pat_matches (p # ps) w \<longleftrightarrow>
     (if p = DOUBLE_WILDCARD then \<exists>i \<le> length w. pat_matches ps (drop i w)
      else case w of
          [] \<Rightarrow> False
        | x # xs \<Rightarrow> (p = WILDCARD \<or> p = x) \<and> pat_matches ps xs)"

fun overlap :: "string list \<Rightarrow> string list \<Rightarrow> bool" where
  "overlap [] [] \<longleftrightarrow> True"
| "overlap (s # p) [] \<longleftrightarrow> s = DOUBLE_WILDCARD \<and> overlap p []"
| "overlap [] (t # q) \<longleftrightarrow> t = DOUBLE_WILDCARD \<and> overlap [] q"
| "overlap (s # p) (t # q) \<longleftrightarrow>
     (if t = DOUBLE_WILDCARD then overlap (s # p) q \<or> overlap p (t # q)
      else if s = DOUBLE_WILDCARD then overlap p (t # q) \<or> overlap (s # p) q
      else if s = WILDCARD \<or> t = WILDCARD then overlap p q
      else s = t \<and> overlap p q)"

definition concrete :: "string list \<Rightarrow> bool" where
  "concrete w \<longleftrightarrow> (\<forall>s \<in> set w. is_word s)"

lemma concrete_simps [simp]:
  "concrete []" "concrete (s # w) \<longleftrightarrow> is_word s \<and> concrete w"
  by (auto simp: concrete_def)

lemma pat_matches_DW:
  "pat_matches (DOUBLE_WILDCARD # p) w \<longleftrightarrow>
     pat_matches p w \<or> (\<exists>x w'. w = x # w' \<and> pat_matches (DOUBLE_WILDCARD # p) w')"
proof (cases w)
  case Nil
  then show ?thesis by simp
next
  case (Cons x w')
  have "(\<exists>i \<le> Suc (length w'). pat_matches p (drop i (x # w'))) \<longleftrightarrow>
      pat_matches p (x # w') \<or> (\<exists>i \<le> length w'. pat_matches p (drop i w'))"
    by (metis Suc_le_mono drop0 drop_Suc_Cons not0_implies_Suc zero_le)
  then show ?thesis using Cons by simp
qed

lemma pat_matches_DW_I [intro]: "pat_matches p w \<Longrightarrow> pat_matches (DOUBLE_WILDCARD # p) w"
  by (subst pat_matches_DW) simp

lemma pat_matches_Cons_Nil [simp]:
  "pat_matches (s # p) [] \<longleftrightarrow> s = DOUBLE_WILDCARD \<and> pat_matches p []"
  by simp

lemma pat_matches_DW_Cons [simp]:
  "pat_matches (DOUBLE_WILDCARD # p) (x # w) \<longleftrightarrow>
     pat_matches p (x # w) \<or> pat_matches (DOUBLE_WILDCARD # p) w"
  using pat_matches_DW [of p "x # w"] by blast

lemma pat_matches_single [simp]:
  "s \<noteq> DOUBLE_WILDCARD \<Longrightarrow>
   pat_matches (s # p) w \<longleftrightarrow> (\<exists>x v. w = x # v \<and> (s = WILDCARD \<or> s = x) \<and> pat_matches p v)"
  by (simp split: list.split)

declare pat_matches.simps(2) [simp del]

lemma overlap_if_common:
  "pat_matches p w \<Longrightarrow> pat_matches q w \<Longrightarrow> overlap p q"
proof (induction "length p + length q + length w" arbitrary: p q w rule: less_induct)
  case less
  note IH = less.hyps and m = less.prems
  consider "p = []" | "q = []" | s p' t q' where "p = s # p'" "q = t # q'"
    by (cases p; cases q) auto
  then show ?case
  proof cases
    case 1
    with m show ?thesis using IH [of "[]" "tl q" "[]"] by (cases q) auto
  next
    case 2
    with m show ?thesis using IH [of "tl p" "[]" "[]"] by (cases p) auto
  next
    case pq: 3
    have skip_q: "overlap p q'" if "pat_matches q' w" using IH [OF _ m(1) that] pq by simp
    have skip_p: "overlap p' q" if "pat_matches p' w" using IH [OF _ that m(2)] pq by simp
    have both: "overlap a b" if "w = x # v" "pat_matches a v" "pat_matches b v"
        "length a + length b \<le> length p + length q" for a b x v
      using IH [of a b v] that by simp
    show ?thesis
    proof (cases w)
      case Nil
      then show ?thesis using m skip_p skip_q by (auto simp: pq)
    next
      case w: (Cons x v)
      show ?thesis
        using m skip_p skip_q both [OF w, of p q] both [OF w, of p' q] both [OF w, of p q']
          both [OF w, of p' q']
        by (cases "t = DOUBLE_WILDCARD"; cases "s = DOUBLE_WILDCARD") (auto simp: pq w)
    qed
  qed
qed

definition filler :: "string \<Rightarrow> string \<Rightarrow> string" where
  \<comment> \<open>a word that both single-segment patterns accept\<close>
  "filler s t = (if s \<noteq> WILDCARD then s else if t \<noteq> WILDCARD then t else ''a'')"

lemma is_word_a: "is_word ''a''"
  by (simp add: is_word_def word_class_def)

lemma is_word_filler:
  "valid_segment s \<Longrightarrow> valid_segment t \<Longrightarrow> s \<noteq> DOUBLE_WILDCARD \<Longrightarrow> t \<noteq> DOUBLE_WILDCARD \<Longrightarrow>
   is_word (filler s t)"
  by (auto simp: filler_def valid_segment_def is_word_a)

lemma overlap_common:
  "overlap p q \<Longrightarrow> \<forall>s \<in> set p \<union> set q. valid_segment s \<Longrightarrow>
   \<exists>w. concrete w \<and> pat_matches p w \<and> pat_matches q w"
proof (induction p q rule: overlap.induct)
  case 1
  show ?case by (rule exI [of _ "[]"]) simp
next
  case (2 s p)
  then obtain w where "concrete w" "pat_matches p w" "pat_matches [] w" by auto
  then show ?case using 2 by (intro exI [of _ "[]"]) auto
next
  case (3 t q)
  then obtain w where "concrete w" "pat_matches q w" "pat_matches [] w" by auto
  then show ?case using 3 by (intro exI [of _ "[]"]) auto
next
  case (4 s p t q)
  consider (t1) "t = DOUBLE_WILDCARD" "overlap (s # p) q"
    | (t2) "t = DOUBLE_WILDCARD" "overlap p (t # q)"
    | (s1) "s = DOUBLE_WILDCARD" "t \<noteq> DOUBLE_WILDCARD" "overlap p (t # q)"
    | (s2) "s = DOUBLE_WILDCARD" "t \<noteq> DOUBLE_WILDCARD" "overlap (s # p) q"
    | (one) "s \<noteq> DOUBLE_WILDCARD" "t \<noteq> DOUBLE_WILDCARD" "overlap p q"
        "s = WILDCARD \<or> t = WILDCARD \<or> s = t"
    using "4.prems"(1) by (auto split: if_splits)
  then show ?case
  proof cases
    case t1
    then obtain w where "concrete w" "pat_matches (s # p) w" "pat_matches q w"
      using 4 by auto
    then show ?thesis using t1 by (intro exI [of _ w]) auto
  next
    case t2
    then obtain w where w: "concrete w" "pat_matches p w" "pat_matches (t # q) w"
      using 4 by auto
    show ?thesis
    proof (cases "s = DOUBLE_WILDCARD")
      case True
      then show ?thesis using w by (intro exI [of _ w]) auto
    next
      case False
      then show ?thesis using w t2 "4.prems"(2) is_word_filler [of s WILDCARD]
        by (intro exI [of _ "filler s WILDCARD # w"])
           (auto simp: filler_def is_word_a valid_segment_def)
    qed
  next
    case s1
    then obtain w where "concrete w" "pat_matches p w" "pat_matches (t # q) w"
      using 4 by auto
    then show ?thesis using s1 by (intro exI [of _ w]) auto
  next
    case s2
    then obtain w where "concrete w" "pat_matches (s # p) w" "pat_matches q w"
      using 4 by auto
    then show ?thesis using s2 "4.prems"(2) is_word_filler [of t WILDCARD]
      by (intro exI [of _ "filler t WILDCARD # w"])
         (auto simp: filler_def is_word_a valid_segment_def)
  next
    case one
    then obtain w where "concrete w" "pat_matches p w" "pat_matches q w"
      using 4 by auto
    then show ?thesis using one "4.prems"(2) is_word_filler [of s t]
      by (intro exI [of _ "filler s t # w"]) (auto simp: filler_def)
  qed
qed

lemma overlap_iff:
  assumes "\<forall>s \<in> set p \<union> set q. valid_segment s"
  shows "overlap p q \<longleftrightarrow> (\<exists>w. concrete w \<and> pat_matches p w \<and> pat_matches q w)"
  using assms overlap_common overlap_if_common by blast

lemma pat_matches_concrete:
  "concrete q \<Longrightarrow> pat_matches q w \<longleftrightarrow> w = q"
proof (induction q arbitrary: w)
  case (Cons s q)
  then show ?case using is_word_not_wildcard [of s] by auto
qed simp

lemma overlap_concrete:
  assumes "\<forall>s \<in> set p. valid_segment s" and "concrete q"
  shows "overlap p q \<longleftrightarrow> pat_matches p q"
  using assms by (subst overlap_iff)
    (auto simp: pat_matches_concrete concrete_def valid_segment_def)

lemma overlap_sym: "overlap p q \<longleftrightarrow> overlap q p"
  by (induction p q rule: overlap.induct) auto

end
