(* ===== verification/Directory.thy ===== *)
theory Directory
  imports Matching
begin

text \<open>
  \<open>directory.rs\<close>: the tree that stores subscriptions and ownership by topic segment,
  and the topic matching. A node's children are a \<open>HashMap<String, Directory>\<close>; they
  are an association list with distinct keys, whose order stands for the map's
  unspecified iteration order. Nothing proved here depends on that order: the lemmas
  are stated on the sets \<open>subs_at\<close> and the lookups \<open>owner_at\<close>.
\<close>

section \<open>The data and its operations\<close>

datatype directory =
  Directory
    (owner: "u32 option")
    (children: "(string \<times> directory) list")
    (subscribers: "u32 set")

definition directory_new :: directory where
  "directory_new = Directory None [] {}"

fun ensure_child :: "string \<Rightarrow> directory \<Rightarrow> directory" where
  "ensure_child name (Directory own ch ss) =
     (case map_of ch name of
        Some _ \<Rightarrow> Directory own ch ss
      | None \<Rightarrow> Directory own (ch @ [(name, directory_new)]) ss)"

fun put_child :: "string \<Rightarrow> directory \<Rightarrow> directory \<Rightarrow> directory" where
  \<comment> \<open>write back through the reference that \<open>children.get_mut(name)\<close> returned\<close>
  "put_child name child (Directory own ch ss) = Directory own (AList.update name child ch) ss"

fun claim_segments :: "u32 \<Rightarrow> string list \<Rightarrow> directory \<Rightarrow> (unit result \<times> directory) run" where
  "claim_segments client [] (Directory own ch ss) =
     (case own of
        Some ow \<Rightarrow>
          (if ow = client then returns (Inr (), Directory own ch ss)
           else returns (Inl TopicAlreadyClaimed, Directory own ch ss))
      | None \<Rightarrow> returns (Inr (), Directory (Some client) ch ss))"
| "claim_segments client (s # rest) d =
     (if s = WILDCARD \<or> s = DOUBLE_WILDCARD
      then returns (Inl ClaimWildcardNotSupported, d)
      else
        let d = ensure_child s d in
        case map_of (children d) s of
          None \<Rightarrow> panic
        | Some child \<Rightarrow> do {
            (r, child) \<leftarrow> claim_segments client rest child;
            returns (r, put_child s child d)
          })"

fun unclaim_segments :: "u32 \<Rightarrow> string list \<Rightarrow> directory \<Rightarrow> unit result \<times> directory" where
  "unclaim_segments client [] (Directory own ch ss) =
     (Inr (), Directory (case own of
                           Some ow \<Rightarrow> if ow = client then None else own
                         | None \<Rightarrow> own) ch ss)"
| "unclaim_segments client (s # rest) d =
     (if s = WILDCARD \<or> s = DOUBLE_WILDCARD
      then (Inl ClaimWildcardNotSupported, d)
      else case map_of (children d) s of
          Some child \<Rightarrow>
            (let (r, child) = unclaim_segments client rest child in (r, put_child s child d))
        | None \<Rightarrow> (Inr (), d))"

fun get_owner_segments :: "string list \<Rightarrow> directory \<Rightarrow> u32 option" where
  "get_owner_segments [] d = owner d"
| "get_owner_segments (s # rest) d =
     (if s = WILDCARD \<or> s = DOUBLE_WILDCARD then None
      else case map_of (children d) s of
          Some child \<Rightarrow> get_owner_segments rest child
        | None \<Rightarrow> None)"

fun subscribe_segments :: "u32 \<Rightarrow> string list \<Rightarrow> directory \<Rightarrow> directory run" where
  "subscribe_segments client [] (Directory own ch ss) =
     returns (Directory own ch (insert client ss))"
| "subscribe_segments client (s # rest) d =
     (let d = ensure_child s d in
      case map_of (children d) s of
        None \<Rightarrow> panic
      | Some child \<Rightarrow> do {
          child \<leftarrow> subscribe_segments client rest child;
          returns (put_child s child d)
        })"

fun unsubscribe_segments :: "u32 \<Rightarrow> string list \<Rightarrow> directory \<Rightarrow> unit result \<times> directory" where
  "unsubscribe_segments client [] (Directory own ch ss) =
     (Inr (), Directory own ch (ss - {client}))"
| "unsubscribe_segments client (s # rest) d =
     (case map_of (children d) s of
        Some child \<Rightarrow>
          (let (r, child) = unsubscribe_segments client rest child in (r, put_child s child d))
      | None \<Rightarrow> (Inr (), d))"

section \<open>Matching\<close>

lemma size_child [termination_simp]:
  "(k, d) \<in> set ch \<Longrightarrow> size d < Suc (size_list (size_prod f size) ch + n)"
  by (induction ch) auto

lemma size_map_of:
  "map_of ch k = Some d \<Longrightarrow> size d < Suc (size_list (size_prod f size) ch)"
  using size_child [of k d ch f 0] by (auto dest: map_of_SomeD)

function (sequential) get_subscribers_rec ::
    "directory \<Rightarrow> string list \<Rightarrow> u32 set \<Rightarrow> bool \<Rightarrow> u32 set" where
  "get_subscribers_rec d topic acc True =
     (let acc = get_subscribers_rec d topic acc False in
      case topic of
        [] \<Rightarrow> acc
      | _ # rest \<Rightarrow> get_subscribers_rec d rest acc True)"
| "get_subscribers_rec (Directory own ch ss) [] acc False =
     (let acc = acc \<union> ss in
      case map_of ch DOUBLE_WILDCARD of
        Some child \<Rightarrow> get_subscribers_rec child [] acc True
      | None \<Rightarrow> acc)"
| "get_subscribers_rec (Directory own ch ss) (t # rest) acc False =
     (if t = DOUBLE_WILDCARD then
        let acc = get_subscribers_rec (Directory own ch ss) rest acc False in
        fold (\<lambda>(segment, child) acc. get_subscribers_rec child (t # rest) acc False) ch acc
      else if t = WILDCARD then
        fold (\<lambda>(segment, child) acc.
            if segment = DOUBLE_WILDCARD then get_subscribers_rec child (t # rest) acc True
            else get_subscribers_rec child rest acc False) ch acc
      else
        let acc = (case map_of ch t of
                     Some child \<Rightarrow> get_subscribers_rec child rest acc False
                   | None \<Rightarrow> acc);
            acc = (case map_of ch WILDCARD of
                     Some child \<Rightarrow> get_subscribers_rec child rest acc False
                   | None \<Rightarrow> acc)
        in case map_of ch DOUBLE_WILDCARD of
             Some child \<Rightarrow> get_subscribers_rec child (t # rest) acc True
           | None \<Rightarrow> acc)"
  by pat_completeness auto
termination
  by (relation "measures [\<lambda>(d, topic, acc, w). size d, \<lambda>(d, topic, acc, w). length topic,
        \<lambda>(d, topic, acc, w). if w then 1 else 0]")
     (auto simp: size_child [where n = 0, simplified] size_map_of)

section \<open>Dropping a client\<close>

function (sequential) drop_client_rec ::
    "u32 \<Rightarrow> directory \<Rightarrow> string list \<Rightarrow> topic list \<Rightarrow> directory \<times> topic list"
  and drop_client_children ::
    "u32 \<Rightarrow> (string \<times> directory) list \<Rightarrow> string list \<Rightarrow> topic list \<Rightarrow>
       (string \<times> directory) list \<times> topic list" where
  "drop_client_rec client (Directory own ch ss) topic results =
     (let own = (case own of
                   Some ow \<Rightarrow> if ow = client then None else own
                 | None \<Rightarrow> own);
          removed = client \<in> ss;
          ss = ss - {client};
          results = (if removed \<and> ss = {} then
                       (case topic_from_valid_segments topic of
                          Some t \<Rightarrow> results @ [t]
                        | None \<Rightarrow> results)
                     else results);
          (ch, results) = drop_client_children client ch topic results
      in (Directory own ch ss, results))"
| "drop_client_children client [] topic results = ([], results)"
| "drop_client_children client ((segment, child) # ch) topic results =
     (let (child, results) = drop_client_rec client child (topic @ [segment]) results;
          (ch, results) = drop_client_children client ch topic results
      in ((segment, child) # ch, results))"
  by pat_completeness auto
termination
  by (relation "measure (\<lambda>x. case x of
        Inl (client, d, topic, results) \<Rightarrow> size d
      | Inr (client, ch, topic, results) \<Rightarrow> size_list (size_prod (\<lambda>_. 0) size) ch)")
     auto

section \<open>The public operations\<close>

definition claim :: "u32 \<Rightarrow> topic \<Rightarrow> directory \<Rightarrow> (unit result \<times> directory) run" where
  "claim client t d = claim_segments client (topic_segments t) d"

definition unclaim :: "u32 \<Rightarrow> topic \<Rightarrow> directory \<Rightarrow> unit result \<times> directory" where
  "unclaim client t d = unclaim_segments client (topic_segments t) d"

definition get_owner :: "topic \<Rightarrow> directory \<Rightarrow> u32 option" where
  "get_owner t d = get_owner_segments (topic_segments t) d"

definition subscribe :: "u32 \<Rightarrow> topic \<Rightarrow> directory \<Rightarrow> directory run" where
  "subscribe client t d = subscribe_segments client (topic_segments t) d"

definition unsubscribe :: "u32 \<Rightarrow> topic \<Rightarrow> directory \<Rightarrow> unit result \<times> directory" where
  "unsubscribe client t d = unsubscribe_segments client (topic_segments t) d"

definition get_subscribers :: "(u32 set \<Rightarrow> u32 list) \<Rightarrow> topic \<Rightarrow> directory \<Rightarrow> u32 list" where
  "get_subscribers ord t d = ord (get_subscribers_rec d (topic_segments t) {} False)"

definition drop_client :: "u32 \<Rightarrow> directory \<Rightarrow> directory \<times> topic list" where
  "drop_client client d = drop_client_rec client d [] []"

end
