(* ===== verification/Directory_Spec.thy ===== *)
theory Directory_Spec
  imports Directory
begin

text \<open>
  What the directory promises. Its abstract state is two functions of a segment list:
  the clients subscribed there (\<open>subs_at\<close>) and the owner there (\<open>owner_at\<close>). Every
  operation of \<open>Directory\<close> is shown to act on these two as the obvious update, and
  \<open>get_subscribers\<close> to return exactly the clients with an overlapping subscription.
  The contract is then packaged as locale \<open>topic_directory\<close> on topics, which the server
  core and the client core rely on, and interpreted on the tree.
\<close>

section \<open>Abstraction and well-formedness\<close>

fun subs_at :: "directory \<Rightarrow> string list \<Rightarrow> u32 set" where
  "subs_at d [] = subscribers d"
| "subs_at d (s # p) =
     (case map_of (children d) s of Some child \<Rightarrow> subs_at child p | None \<Rightarrow> {})"

fun owner_at :: "directory \<Rightarrow> string list \<Rightarrow> u32 option" where
  "owner_at d [] = owner d"
| "owner_at d (s # p) =
     (case map_of (children d) s of Some child \<Rightarrow> owner_at child p | None \<Rightarrow> None)"

fun wf_dir :: "directory \<Rightarrow> bool" where
  "wf_dir (Directory own ch ss) \<longleftrightarrow>
     distinct (map fst ch) \<and> finite ss \<and>
     (\<forall>(k, child) \<in> set ch. valid_segment k \<and> wf_dir child)"

abbreviation is_wild :: "string \<Rightarrow> bool" where
  "is_wild s \<equiv> s = WILDCARD \<or> s = DOUBLE_WILDCARD"

abbreviation has_wild :: "string list \<Rightarrow> bool" where
  "has_wild p \<equiv> \<exists>s \<in> set p. is_wild s"

lemma abs_new [simp]:
  "subs_at directory_new p = {}" "owner_at directory_new p = None" "wf_dir directory_new"
  by (cases p; simp add: directory_new_def)+

lemma map_of_ensure_child:
  "map_of (children (ensure_child s d)) k =
     (case map_of (children d) k of
        Some child \<Rightarrow> Some child
      | None \<Rightarrow> if k = s then Some directory_new else None)"
  by (cases d) (auto simp: map_add_def split: option.splits)

lemma ensure_child_fields [simp]:
  "subscribers (ensure_child s d) = subscribers d" "owner (ensure_child s d) = owner d"
  by (cases d; simp split: option.split)+

lemma abs_ensure_child [simp]:
  "subs_at (ensure_child s d) p = subs_at d p" "owner_at (ensure_child s d) p = owner_at d p"
  by (cases p; simp add: map_of_ensure_child split: option.split)+

lemma ensured_child:
  obtains child where "map_of (children (ensure_child s d)) s = Some child"
  by (cases "map_of (children d) s") (simp_all add: map_of_ensure_child)

lemma wf_ensure_child:
  "wf_dir d \<Longrightarrow> valid_segment s \<Longrightarrow> wf_dir (ensure_child s d)"
  by (cases d) (auto simp: map_of_eq_None_iff split: option.splits)

lemma wf_map_of:
  "wf_dir d \<Longrightarrow> map_of (children d) s = Some child \<Longrightarrow> wf_dir child"
  by (cases d) (auto dest: map_of_SomeD)

lemma put_child_fields [simp]:
  "subscribers (put_child s child d) = subscribers d"
  "owner (put_child s child d) = owner d"
  "map_of (children (put_child s child d)) k =
     (if k = s then Some child else map_of (children d) k)"
  by (cases d; simp add: update_conv')+

lemma wf_put_child:
  assumes "wf_dir d" and "wf_dir child" and "map_of (children d) s \<noteq> None"
  shows "wf_dir (put_child s child d)"
proof -
  obtain own ch ss where d: "d = Directory own ch ss" by (cases d)
  have "s \<in> fst ` set ch" using assms(3) d by (auto simp: map_of_eq_None_iff)
  then have "valid_segment s" using assms(1) d by auto
  moreover have "x \<in> set (AList.update s child ch) \<Longrightarrow> x = (s, child) \<or> x \<in> set ch" for x
    by (induction ch) (auto split: if_splits)
  ultimately show ?thesis using assms(1,2) d
    by (fastforce simp: distinct_update)
qed

section \<open>Each operation on the abstract state\<close>

lemma put_child_at:
  "subs_at (put_child s child' d) p =
     (case p of [] \<Rightarrow> subscribers d
      | k # q \<Rightarrow> if k = s then subs_at child' q else subs_at d (k # q))"
  "owner_at (put_child s child' d) p =
     (case p of [] \<Rightarrow> owner d
      | k # q \<Rightarrow> if k = s then owner_at child' q else owner_at d (k # q))"
  by (cases p; simp)+

lemma node_at:
  "subs_at (Directory own ch ss) p =
     (case p of [] \<Rightarrow> ss
      | k # q \<Rightarrow> (case map_of ch k of Some child \<Rightarrow> subs_at child q | None \<Rightarrow> {}))"
  "owner_at (Directory own ch ss) p =
     (case p of [] \<Rightarrow> own
      | k # q \<Rightarrow> (case map_of ch k of Some child \<Rightarrow> owner_at child q | None \<Rightarrow> None))"
  by (cases p; simp)+

lemma child_at:
  assumes "map_of (children (ensure_child s d)) s = Some child"
  shows "subs_at d (s # p) = subs_at child p" and "owner_at d (s # p) = owner_at child p"
  using assms abs_ensure_child [of s d "s # p"] by simp_all

lemma ensure_child_wf_put:
  assumes "map_of (children (ensure_child s d)) s = Some child" and "wf_dir d"
    and "valid_segment s" and "wf_dir child \<Longrightarrow> wf_dir child'"
  shows "wf_dir (put_child s child' (ensure_child s d))"
  by (rule wf_put_child) (use assms wf_ensure_child [OF assms(2,3)] in \<open>auto dest: wf_map_of\<close>)

lemma subscribe_segments_spec:
  "\<exists>d'. subscribe_segments c t d = returns d' \<and>
     (\<forall>p. subs_at d' p = (if p = t then insert c (subs_at d t) else subs_at d p)) \<and>
     (\<forall>p. owner_at d' p = owner_at d p) \<and>
     (wf_dir d \<and> (\<forall>s \<in> set t. valid_segment s) \<longrightarrow> wf_dir d')"
proof (induction t arbitrary: d)
  case Nil
  then show ?case by (cases d) (auto simp: node_at split: list.splits)
next
  case (Cons s t)
  obtain child where child: "map_of (children (ensure_child s d)) s = Some child"
    by (rule ensured_child)
  obtain child' where c': "subscribe_segments c t child = returns child'"
    and abs: "\<And>p. subs_at child' p = (if p = t then insert c (subs_at child t) else subs_at child p)"
      "\<And>p. owner_at child' p = owner_at child p"
    and wf: "wf_dir child \<and> (\<forall>s \<in> set t. valid_segment s) \<longrightarrow> wf_dir child'"
    using Cons.IH by blast
  show ?case
    using child c' wf ensure_child_wf_put [OF child, of child']
    by (auto simp: Let_def put_child_at abs child_at [OF child] split: list.split
        simp del: subs_at.simps(2) owner_at.simps(2))
qed

lemma unsubscribe_segments_spec:
  "unsubscribe_segments c t d = (r, d') \<Longrightarrow>
     r = Inr () \<and>
     (\<forall>p. subs_at d' p = (if p = t then subs_at d t - {c} else subs_at d p)) \<and>
     (\<forall>p. owner_at d' p = owner_at d p) \<and> (wf_dir d \<longrightarrow> wf_dir d')"
proof (induction t arbitrary: d r d')
  case Nil
  then show ?case by (cases d) (auto simp: node_at split: list.splits)
next
  case (Cons s t)
  show ?case
  proof (cases "map_of (children d) s")
    case None
    then show ?thesis using Cons.prems by auto
  next
    case (Some child)
    obtain r1 child' where c': "unsubscribe_segments c t child = (r1, child')" by force
    have eq: "r = r1" "d' = put_child s child' d" using Cons.prems Some c' by auto
    have wf: "wf_dir d \<longrightarrow> wf_dir d'"
      using Cons.IH [OF c'] Some by (auto simp: eq dest: wf_map_of intro!: wf_put_child)
    show ?thesis using Cons.IH [OF c'] Some wf
      by (auto simp: eq put_child_at split: list.split)
  qed
qed

lemma claim_segments_spec:
  "\<exists>r d'. claim_segments c t d = returns (r, d') \<and>
     r = (if has_wild t then Inl ClaimWildcardNotSupported
          else if owner_at d t = None \<or> owner_at d t = Some c then Inr ()
          else Inl TopicAlreadyClaimed) \<and>
     (\<forall>p. owner_at d' p = (if p = t \<and> r = Inr () then Some c else owner_at d p)) \<and>
     (\<forall>p. subs_at d' p = subs_at d p) \<and>
     (wf_dir d \<and> (\<forall>s \<in> set t. valid_segment s) \<longrightarrow> wf_dir d')"
proof (induction t arbitrary: d)
  case Nil
  then show ?case by (cases d) (auto simp: node_at split: option.split list.splits)
next
  case (Cons s t)
  show ?case
  proof (cases "is_wild s")
    case True
    then show ?thesis by auto
  next
    case False
    obtain child where child: "map_of (children (ensure_child s d)) s = Some child"
      by (rule ensured_child)
    obtain r child' where c': "claim_segments c t child = returns (r, child')"
      and r: "r = (if has_wild t then Inl ClaimWildcardNotSupported
          else if owner_at child t = None \<or> owner_at child t = Some c then Inr ()
          else Inl TopicAlreadyClaimed)"
      and abs: "\<And>p. owner_at child' p = (if p = t \<and> r = Inr () then Some c else owner_at child p)"
        "\<And>p. subs_at child' p = subs_at child p"
      and wf: "wf_dir child \<and> (\<forall>s \<in> set t. valid_segment s) \<longrightarrow> wf_dir child'"
      using Cons.IH by blast
    have res: "claim_segments c (s # t) d = returns (r, put_child s child' (ensure_child s d))"
      using False child c' by (simp add: Let_def)
    show ?thesis unfolding res
      using False wf ensure_child_wf_put [OF child, of child'] r
      by (auto simp: put_child_at abs child_at [OF child] split: list.split
          simp del: subs_at.simps(2) owner_at.simps(2))
  qed
qed

lemma unclaim_segments_spec:
  "unclaim_segments c t d = (r, d') \<Longrightarrow>
     (r = Inr () \<or> r = Inl ClaimWildcardNotSupported \<and> has_wild t) \<and>
     (\<forall>p. owner_at d' p =
        (if p = t \<and> \<not> has_wild t \<and> owner_at d t = Some c then None else owner_at d p)) \<and>
     (\<forall>p. subs_at d' p = subs_at d p) \<and> (wf_dir d \<longrightarrow> wf_dir d')"
proof (induction t arbitrary: d r d')
  case Nil
  then show ?case by (cases d) (auto simp: node_at split: option.splits if_splits list.splits)
next
  case (Cons s t)
  show ?case
  proof (cases "is_wild s")
    case True
    then show ?thesis using Cons.prems by auto
  next
    case wild: False
    show ?thesis
    proof (cases "map_of (children d) s")
      case None
      then show ?thesis using Cons.prems wild by auto
    next
      case (Some child)
      obtain r1 child' where c': "unclaim_segments c t child = (r1, child')" by force
      have eq: "r = r1" "d' = put_child s child' d" using Cons.prems wild Some c' by auto
      have wf: "wf_dir d \<longrightarrow> wf_dir d'"
        using Cons.IH [OF c'] Some by (auto simp: eq dest: wf_map_of intro!: wf_put_child)
      show ?thesis using Cons.IH [OF c'] Some wild wf
        by (auto simp: eq put_child_at split: list.split)
    qed
  qed
qed

lemma get_owner_segments_eq:
  "get_owner_segments t d = (if has_wild t then None else owner_at d t)"
  by (induction t d rule: get_owner_segments.induct) (auto split: option.splits)

section \<open>Matching\<close>

text \<open>The accumulator only grows; the set added is the clients with an overlapping pattern.\<close>

definition matched :: "directory \<Rightarrow> string list \<Rightarrow> bool \<Rightarrow> u32 set" where
  "matched d topic w =
     {c. \<exists>p. c \<in> subs_at d p \<and> overlap (if w then DOUBLE_WILDCARD # p else p) topic}"

lemma wf_children:
  "wf_dir (Directory own ch ss) \<Longrightarrow> (k, child) \<in> set ch \<longleftrightarrow> map_of ch k = Some child"
  by (auto dest: map_of_SomeD intro: map_of_is_SomeI)

lemma fold_union:
  "(\<And>x acc. x \<in> set xs \<Longrightarrow> f x acc = acc \<union> g x) \<Longrightarrow> fold f xs acc = acc \<union> (\<Union>x \<in> set xs. g x)"
  by (induction xs arbitrary: acc) auto

definition via :: "string \<Rightarrow> directory \<Rightarrow> string list \<Rightarrow> u32 set" where
  "via k child topic = {c. \<exists>p. c \<in> subs_at child p \<and> overlap (k # p) topic}"

lemma via_simps:
  "via k child [] = (if k = DOUBLE_WILDCARD then matched child [] False else {})"
  "via k child (DOUBLE_WILDCARD # rest) =
     via k child rest \<union> matched child (DOUBLE_WILDCARD # rest) False"
  "t \<noteq> DOUBLE_WILDCARD \<Longrightarrow> k \<noteq> DOUBLE_WILDCARD \<Longrightarrow> via k child (t # rest) =
     (if k = WILDCARD \<or> t = WILDCARD \<or> k = t then matched child rest False else {})"
  "via DOUBLE_WILDCARD child topic = matched child topic True"
  by (auto simp: via_def matched_def)

lemma matched_node:
  assumes "wf_dir (Directory own ch ss)"
  shows "matched (Directory own ch ss) topic False =
     {c \<in> ss. overlap [] topic} \<union> (\<Union>(k, child) \<in> set ch. via k child topic)"
proof (rule set_eqI)
  fix c
  have "(\<exists>p. c \<in> subs_at (Directory own ch ss) p \<and> overlap p topic) \<longleftrightarrow>
      c \<in> ss \<and> overlap [] topic \<or>
      (\<exists>k p. c \<in> subs_at (Directory own ch ss) (k # p) \<and> overlap (k # p) topic)"
    by (metis directory.sel(3) list.exhaust subs_at.simps(1))
  also have "\<dots> \<longleftrightarrow> c \<in> ss \<and> overlap [] topic \<or>
      (\<exists>(k, child) \<in> set ch. \<exists>p. c \<in> subs_at child p \<and> overlap (k # p) topic)"
    using wf_children [OF assms] by (fastforce split: option.splits)
  finally show "c \<in> matched (Directory own ch ss) topic False \<longleftrightarrow>
      c \<in> {c \<in> ss. overlap [] topic} \<union> (\<Union>(k, child) \<in> set ch. via k child topic)"
    by (auto simp: matched_def via_def)
qed

lemma matched_True:
  "matched d [] True = matched d [] False"
  "matched d (t # rest) True = matched d (t # rest) False \<union> matched d rest True"
  by (auto simp: matched_def)

lemma via_children:
  assumes "wf_dir (Directory own ch ss)" and "\<And>k child. k \<notin> K \<Longrightarrow> via k child topic = {}"
  shows "(\<Union>(k, child) \<in> set ch. via k child topic) =
     (\<Union>k \<in> K. case map_of ch k of Some child \<Rightarrow> via k child topic | None \<Rightarrow> {})"
  using wf_children [OF assms(1)] assms(2) by (fastforce split: option.splits)

lemma get_subscribers_rec_eq:
  "wf_dir d \<Longrightarrow> get_subscribers_rec d topic acc w = acc \<union> matched d topic w"
proof (induction d topic acc w rule: get_subscribers_rec.induct)
  case (1 d topic acc)
  then show ?case
    by (cases topic) (auto simp: matched_True)
next
  case (2 own ch ss acc)
  have "(\<Union>(k, child) \<in> set ch. via k child []) =
      (case map_of ch DOUBLE_WILDCARD of Some child \<Rightarrow> matched child [] False | None \<Rightarrow> {})"
    using via_children [OF "2.prems", of "{DOUBLE_WILDCARD}" "[]"]
    by (simp add: via_simps(1) split: option.splits)
  then show ?case
    using "2.IH" "2.prems" wf_map_of [OF "2.prems"]
    by (auto simp: matched_node matched_True Let_def split: option.split)
next
  case (3 own ch ss t rest acc)
  have wf: "wf_dir child" if "(k, child) \<in> set ch" for k child
    using that "3.prems" by auto
  consider (dw) "t = DOUBLE_WILDCARD" | (w) "t = WILDCARD" | (word) "\<not> is_wild t" by auto
  then show ?case
  proof cases
    case dw
    have "get_subscribers_rec (Directory own ch ss) (t # rest) acc False =
        get_subscribers_rec (Directory own ch ss) rest acc False \<union>
        (\<Union>(k, child) \<in> set ch. matched child (t # rest) False)"
      using dw "3.IH"(2) wf by (auto simp: Let_def intro!: fold_union)
    then show ?thesis using "3.IH"(1) [OF dw "3.prems"] dw "3.prems"
      by (auto simp: matched_node via_simps)
  next
    case w
    have dw_child: "get_subscribers_rec child (t # rest) a True = a \<union> matched child (t # rest) True"
      if "(DOUBLE_WILDCARD, child) \<in> set ch" for child a
      using "3.IH"(3) [of "(DOUBLE_WILDCARD, child)" DOUBLE_WILDCARD child a] that w wf by simp
    have "(if k = DOUBLE_WILDCARD then get_subscribers_rec child (t # rest) a True
        else get_subscribers_rec child rest a False) = a \<union> via k child (t # rest)"
      if "(k, child) \<in> set ch" for k child a
      using that w wf dw_child "3.IH"(4) [of "(k, child)" k child a]
      by (cases "k = DOUBLE_WILDCARD") (simp_all add: via_simps del: get_subscribers_rec.simps(1))
    then have "get_subscribers_rec (Directory own ch ss) (t # rest) acc False = acc \<union>
        (\<Union>(k, child) \<in> set ch. via k child (t # rest))"
      using w by (auto simp del: get_subscribers_rec.simps(1) intro!: fold_union)
    then show ?thesis using w "3.prems" by (simp add: matched_node)
  next
    case word
    have wfm: "wf_dir child" if "map_of ch k = Some child" for k child
      using that wf by (blast dest: map_of_SomeD)
    let ?m = "\<lambda>k w topic. case map_of ch k of Some child \<Rightarrow> matched child topic w | None \<Rightarrow> {}"
    have s1: "(case map_of ch t of Some child \<Rightarrow> get_subscribers_rec child rest acc False
        | None \<Rightarrow> acc) = acc \<union> ?m t False rest"
      using word "3.IH"(5) wfm by (auto split: option.split)
    have s2: "(case map_of ch WILDCARD of
          Some child \<Rightarrow> get_subscribers_rec child rest (acc \<union> ?m t False rest) False
        | None \<Rightarrow> acc \<union> ?m t False rest) = acc \<union> ?m t False rest \<union> ?m WILDCARD False rest"
      using word "3.IH"(6) [OF _ _ s1 [symmetric]] wfm by (cases "map_of ch WILDCARD") simp_all
    let ?acc = "acc \<union> ?m t False rest \<union> ?m WILDCARD False rest"
    have s3: "(case map_of ch DOUBLE_WILDCARD of
          Some child \<Rightarrow> get_subscribers_rec child (t # rest) ?acc True
        | None \<Rightarrow> ?acc) = ?acc \<union> ?m DOUBLE_WILDCARD True (t # rest)"
      using word "3.IH"(7) [OF _ _ s1 [symmetric] s2 [symmetric]] wfm
      by (cases "map_of ch DOUBLE_WILDCARD") (simp_all del: get_subscribers_rec.simps(1))
    have "(\<Union>(k, child) \<in> set ch. via k child (t # rest)) =
        (\<Union>k \<in> {t, WILDCARD, DOUBLE_WILDCARD}.
           case map_of ch k of Some child \<Rightarrow> via k child (t # rest) | None \<Rightarrow> {})"
      using word by (intro via_children [OF "3.prems"]) (auto simp: via_simps)
    also have "\<dots> = ?m t False rest \<union> ?m WILDCARD False rest \<union> ?m DOUBLE_WILDCARD True (t # rest)"
      using word by (simp add: via_simps Un_assoc split: option.split)
    finally have all: "(\<Union>(k, child) \<in> set ch. via k child (t # rest)) = \<dots>" .
    have "get_subscribers_rec (Directory own ch ss) (t # rest) acc False =
        ?acc \<union> ?m DOUBLE_WILDCARD True (t # rest)"
      using word by (simp only: get_subscribers_rec.simps(3) Let_def s1 s2 s3) simp
    then show ?thesis using word "3.prems"
      by (simp add: matched_node all Un_assoc)
  qed
qed

lemma matched_finite: "wf_dir d \<Longrightarrow> finite (\<Union>p. subs_at d p)"
proof (induction d)
  case (Directory own ch ss)
  have "(\<Union>p. subs_at (Directory own ch ss) p) \<subseteq> ss \<union> (\<Union>(k, child) \<in> set ch. \<Union>p. subs_at child p)"
    by (auto simp: node_at split: list.splits option.splits dest!: map_of_SomeD) blast
  moreover have "finite (ss \<union> (\<Union>(k, child) \<in> set ch. \<Union>p. subs_at child p))"
    using Directory by auto
  ultimately show ?case by (rule finite_subset)
qed

section \<open>Dropping a client\<close>

fun drop_tree :: "u32 \<Rightarrow> directory \<Rightarrow> directory" where
  "drop_tree c (Directory own ch ss) =
     Directory (if own = Some c then None else own)
       (map (\<lambda>(k, child). (k, drop_tree c child)) ch) (ss - {c})"

fun sole_paths :: "u32 \<Rightarrow> directory \<Rightarrow> string list list" where
  \<comment> \<open>the positions whose only subscriber is the client, in traversal order\<close>
  "sole_paths c (Directory own ch ss) =
     (if ss = {c} then [[]] else []) @
     concat (map (\<lambda>(k, child). map ((#) k) (sole_paths c child)) ch)"

lemma map_filter_append:
  "List.map_filter f (xs @ ys) = List.map_filter f xs @ List.map_filter f ys"
  by (simp add: List.map_filter_def)

lemma set_map_filter: "y \<in> set (List.map_filter f xs) \<longleftrightarrow> (\<exists>x \<in> set xs. f x = Some y)"
  by (force simp: List.map_filter_def)

lemma drop_client_rec_eq:
  "drop_client_rec c d pre res = (drop_tree c d,
     res @ List.map_filter topic_from_valid_segments (map ((@) pre) (sole_paths c d)))"
  "drop_client_children c ch pre res = (map (\<lambda>(k, child). (k, drop_tree c child)) ch,
     res @ List.map_filter topic_from_valid_segments
       (concat (map (\<lambda>(k, child). map (\<lambda>p. pre @ k # p) (sole_paths c child)) ch)))"
proof (induction c d pre res and c ch pre res
    rule: drop_client_rec_drop_client_children.induct)
  case (1 c own ch ss pre res)
  have sole: "c \<in> ss \<and> ss - {c} = {} \<longleftrightarrow> ss = {c}" by auto
  show ?case
    using "1.IH" [OF refl refl refl refl]
    by (auto simp: Let_def sole map_filter_append map_concat List.map_filter_simps comp_def
        case_prod_unfold split: option.split)
next
  case (2 c pre res)
  show ?case by (simp add: List.map_filter_simps)
next
  case (3 c k child ch pre res)
  then show ?case by (simp add: map_filter_append comp_def)
qed

lemma drop_tree_at:
  "subs_at (drop_tree c d) p = subs_at d p - {c}"
  "owner_at (drop_tree c d) p = (if owner_at d p = Some c then None else owner_at d p)"
proof -
  have m: "map_of (map (\<lambda>(k, child). (k, drop_tree c child)) ch) k =
      map_option (drop_tree c) (map_of ch k)" for ch k
    by (induction ch) auto
  show "subs_at (drop_tree c d) p = subs_at d p - {c}"
    by (induction p arbitrary: d) (case_tac [!] d, auto simp: m split: option.splits)
  show "owner_at (drop_tree c d) p = (if owner_at d p = Some c then None else owner_at d p)"
    by (induction p arbitrary: d) (case_tac [!] d, auto simp: m split: option.splits)
qed

lemma wf_drop_tree: "wf_dir d \<Longrightarrow> wf_dir (drop_tree c d)"
proof (induction d)
  case (Directory own ch ss)
  have "map fst (map (\<lambda>(k, child). (k, drop_tree c child)) ch) = map fst ch"
    by (induction ch) auto
  then show ?case using Directory by (force simp del: map_map)
qed

lemma set_sole_paths: "wf_dir d \<Longrightarrow> p \<in> set (sole_paths c d) \<longleftrightarrow> subs_at d p = {c}"
proof (induction d arbitrary: p)
  case (Directory own ch ss)
  show ?case
  proof (cases p)
    case Nil
    then show ?thesis by auto
  next
    case (Cons k q)
    have "p \<in> set (sole_paths c (Directory own ch ss)) \<longleftrightarrow>
        (\<exists>child. (k, child) \<in> set ch \<and> q \<in> set (sole_paths c child))"
      using Cons by auto
    also have "\<dots> \<longleftrightarrow> (\<exists>child. (k, child) \<in> set ch \<and> subs_at child q = {c})"
      using Directory by fastforce
    also have "\<dots> \<longleftrightarrow> subs_at (Directory own ch ss) p = {c}"
      using wf_children [OF Directory.prems] Cons by (simp split: option.split)
    finally show ?thesis .
  qed
qed

lemma distinct_sole_paths: "wf_dir d \<Longrightarrow> distinct (sole_paths c d)"
proof (induction d)
  case (Directory own ch ss)
  have "distinct (concat (map (\<lambda>(k, child). map ((#) k) (sole_paths c child)) ch))"
    if "distinct (map fst ch)" "\<forall>(k, child) \<in> set ch. distinct (sole_paths c child)"
    using that
  proof (induction ch)
    case (Cons x ch)
    obtain k child where x: "x = (k, child)" by (cases x)
    have "k \<notin> fst ` set ch" using Cons.prems x by simp
    then have "set (map ((#) k) (sole_paths c child)) \<inter>
        set (concat (map (\<lambda>(k, child). map ((#) k) (sole_paths c child)) ch)) = {}"
      by (auto simp: image_iff split: prod.splits)
    then show ?case using Cons x by (simp add: distinct_map)
  qed simp
  moreover have "\<forall>(k, child) \<in> set ch. distinct (sole_paths c child)"
    using Directory by auto
  ultimately show ?case using Directory.prems by auto
qed

lemma subs_at_valid:
  "wf_dir d \<Longrightarrow> subs_at d p \<noteq> {} \<Longrightarrow> \<forall>s \<in> set p. valid_segment s"
  by (induction p arbitrary: d)
     (case_tac [!] d, auto split: option.splits dest!: map_of_SomeD)

section \<open>The directory on topics\<close>

definition subs_of :: "directory \<Rightarrow> topic \<Rightarrow> u32 set" where
  "subs_of d t = subs_at d (topic_segments t)"

definition owner_of :: "directory \<Rightarrow> topic \<Rightarrow> u32 option" where
  "owner_of d t = owner_at d (topic_segments t)"

definition topic_wild :: "topic \<Rightarrow> bool" where
  "topic_wild t \<longleftrightarrow> has_wild (topic_segments t)"

definition topic_overlap :: "topic \<Rightarrow> topic \<Rightarrow> bool" where
  "topic_overlap t u \<longleftrightarrow> overlap (topic_segments t) (topic_segments u)"

definition dir_inv :: "directory \<Rightarrow> bool" where
  \<comment> \<open>well-formed, and nothing at the root: every topic has a protocol segment\<close>
  "dir_inv d \<longleftrightarrow> wf_dir d \<and> subs_at d [] = {} \<and> owner_at d [] = None"

lemma topic_segments_eq_iff [simp]: "topic_segments t = topic_segments u \<longleftrightarrow> t = u"
  by (metis topic_segments_inject)

lemma topic_segments_nonempty [simp]: "topic_segments t \<noteq> []" "[] \<noteq> topic_segments t"
  by (simp_all add: topic_segments_def)

lemma dir_inv_new: "dir_inv directory_new" "subs_of directory_new t = {}"
  "owner_of directory_new t = None"
  by (simp_all add: dir_inv_def subs_of_def owner_of_def del: subs_at.simps owner_at.simps)

lemma subs_path_topic:
  assumes "dir_inv d" and "subs_at d p \<noteq> {}"
  obtains u where "p = topic_segments u" "topic_from_valid_segments p = Some u"
proof -
  have "p \<noteq> []" and "\<forall>s \<in> set p. valid_segment s"
    using assms subs_at_valid [of d p] by (auto simp: dir_inv_def)
  then obtain u where "topic_from_valid_segments p = Some u"
    by (cases p) (auto simp: topic_from_valid_segments_def)
  with \<open>\<forall>s \<in> set p. valid_segment s\<close> show ?thesis
    using that topic_segments_from by metis
qed

lemma subscribe_spec:
  assumes "dir_inv d" and "wf_topic t"
  obtains d' where "subscribe c t d = returns d'" and "dir_inv d'"
    and "\<And>u. subs_of d' u = (if u = t then insert c (subs_of d t) else subs_of d u)"
    and "\<And>u. owner_of d' u = owner_of d u"
proof -
  obtain d' where "subscribe c t d = returns d'" and "wf_dir d'"
    and "\<forall>p. subs_at d' p = (if p = topic_segments t then insert c (subs_at d p) else subs_at d p)"
    and "\<forall>p. owner_at d' p = owner_at d p"
    using assms subscribe_segments_spec [of c "topic_segments t" d] topic_segments_valid [of t]
    unfolding subscribe_def dir_inv_def by metis
  then show ?thesis using that [of d'] assms
    by (auto simp: dir_inv_def subs_of_def owner_of_def simp del: subs_at.simps owner_at.simps)
qed

lemma unsubscribe_spec:
  assumes "dir_inv d"
  obtains d' where "unsubscribe c t d = (Inr (), d')" and "dir_inv d'"
    and "\<And>u. subs_of d' u = (if u = t then subs_of d t - {c} else subs_of d u)"
    and "\<And>u. owner_of d' u = owner_of d u"
proof -
  obtain r d' where "unsubscribe c t d = (r, d')" by force
  then show ?thesis
    using that [of d'] assms unsubscribe_segments_spec [of c "topic_segments t" d r d']
    unfolding unsubscribe_def subs_of_def owner_of_def dir_inv_def
    by (auto simp del: subs_at.simps owner_at.simps)
qed

definition claim_result :: "u32 \<Rightarrow> topic \<Rightarrow> directory \<Rightarrow> unit result" where
  "claim_result c t d =
     (if topic_wild t then Inl ClaimWildcardNotSupported
      else if owner_of d t = None \<or> owner_of d t = Some c then Inr ()
      else Inl TopicAlreadyClaimed)"

lemma claim_spec:
  assumes "dir_inv d" and "wf_topic t"
  obtains d' where "claim c t d = returns (claim_result c t d, d')" and "dir_inv d'"
    and "\<And>u. owner_of d' u =
      (if u = t \<and> claim_result c t d = Inr () then Some c else owner_of d u)"
    and "\<And>u. subs_of d' u = subs_of d u"
proof -
  obtain r d' where "claim c t d = returns (r, d')" and r: "r = claim_result c t d"
    and "\<forall>p. owner_at d' p = (if p = topic_segments t \<and> r = Inr () then Some c else owner_at d p)"
    and "\<forall>p. subs_at d' p = subs_at d p" and "wf_dir d'"
    using claim_segments_spec [of c "topic_segments t" d] assms topic_segments_valid [of t]
    unfolding claim_def claim_result_def topic_wild_def owner_of_def dir_inv_def by blast
  then show ?thesis using that [of d'] assms
    by (auto simp: dir_inv_def subs_of_def owner_of_def simp del: subs_at.simps owner_at.simps)
qed

lemma unclaim_spec:
  assumes "dir_inv d"
  obtains r d' where "unclaim c t d = (r, d')" and "dir_inv d'"
    and "r = Inr () \<or> r = Inl ClaimWildcardNotSupported \<and> topic_wild t"
    and "\<And>u. owner_of d' u =
      (if u = t \<and> \<not> topic_wild t \<and> owner_of d t = Some c then None else owner_of d u)"
    and "\<And>u. subs_of d' u = subs_of d u"
proof -
  obtain r d' where "unclaim c t d = (r, d')" by force
  then show ?thesis
    using that [of r d'] assms unclaim_segments_spec [of c "topic_segments t" d r d']
    unfolding unclaim_def subs_of_def owner_of_def dir_inv_def topic_wild_def
    by (auto simp del: subs_at.simps owner_at.simps)
qed

lemma get_owner_eq: "get_owner t d = (if topic_wild t then None else owner_of d t)"
  by (simp add: get_owner_def get_owner_segments_eq topic_wild_def owner_of_def)

definition matching :: "directory \<Rightarrow> topic \<Rightarrow> u32 set" where
  "matching d t = get_subscribers_rec d (topic_segments t) {} False"

lemma matching_eq:
  assumes "dir_inv d"
  shows "matching d t = {c. \<exists>u. c \<in> subs_of d u \<and> topic_overlap u t}"
proof -
  have "matching d t = {c. \<exists>p. c \<in> subs_at d p \<and> overlap p (topic_segments t)}"
    using assms by (simp add: matching_def dir_inv_def get_subscribers_rec_eq matched_def)
  also have "\<dots> = {c. \<exists>u. c \<in> subs_of d u \<and> topic_overlap u t}"
    unfolding subs_of_def topic_overlap_def using subs_path_topic [OF assms] by blast
  finally show ?thesis .
qed

lemma finite_matching: "dir_inv d \<Longrightarrow> finite (matching d t)"
  using matched_finite [of d] finite_subset
  by (fastforce simp: dir_inv_def matching_def get_subscribers_rec_eq matched_def)

lemma get_subscribers_eq: "get_subscribers ord t d = ord (matching d t)"
  by (simp add: get_subscribers_def matching_def)

lemma drop_client_spec:
  assumes "dir_inv d"
  obtains d' ts where "drop_client c d = (d', ts)" and "dir_inv d'"
    and "\<And>u. subs_of d' u = subs_of d u - {c}"
    and "\<And>u. owner_of d' u = (if owner_of d u = Some c then None else owner_of d u)"
    and "distinct ts" and "set ts = {u. subs_of d u = {c}}"
proof -
  let ?f = "topic_from_valid_segments"
  let ?ts = "List.map_filter ?f (sole_paths c d)"
  have ok: "drop_client c d = (drop_tree c d, ?ts)"
    by (simp add: drop_client_def drop_client_rec_eq map_idI)
  have wf: "wf_dir d" using assms by (simp add: dir_inv_def)
  have sole: "p \<in> set (sole_paths c d) \<longleftrightarrow> subs_at d p = {c}" for p
    by (rule set_sole_paths [OF wf])
  have conv: "\<exists>u. p = topic_segments u \<and> ?f p = Some u" if "p \<in> set (sole_paths c d)" for p
    using that sole subs_path_topic [OF assms, of p] by blast
  have "inj_on (\<lambda>p. the (?f p)) (set (sole_paths c d))"
  proof (rule inj_onI)
    fix p q
    assume "p \<in> set (sole_paths c d)" "q \<in> set (sole_paths c d)" "the (?f p) = the (?f q)"
    then show "p = q" using conv [of p] conv [of q] by auto
  qed
  then have "distinct ?ts"
    using distinct_sole_paths [OF wf, of c]
    by (auto simp: List.map_filter_def distinct_map comp_def intro: inj_on_subset)
  moreover have "u \<in> set ?ts \<longleftrightarrow> subs_of d u = {c}" for u
  proof
    assume "u \<in> set ?ts"
    then obtain p where "p \<in> set (sole_paths c d)" "?f p = Some u"
      by (auto simp: set_map_filter)
    then show "subs_of d u = {c}" using conv [of p] sole [of p] by (auto simp: subs_of_def)
  next
    assume "subs_of d u = {c}"
    then have "topic_segments u \<in> set (sole_paths c d)" by (simp add: sole subs_of_def)
    then show "u \<in> set ?ts" by (auto simp: set_map_filter intro: topic_from_segments)
  qed
  then have "set ?ts = {u. subs_of d u = {c}}" by blast
  ultimately have ts: "distinct ?ts" "set ?ts = {u. subs_of d u = {c}}" by blast+
  have "dir_inv (drop_tree c d)"
    using assms by (simp add: dir_inv_def wf_drop_tree drop_tree_at
        del: subs_at.simps owner_at.simps)
  then show ?thesis
    by (intro that [OF ok _ _ _ ts]) (simp_all only: subs_of_def owner_of_def drop_tree_at)
qed

section \<open>The contract\<close>

text \<open>
  The interface the two cores use. A client \<open>c\<close> is \<open>absent\<close> when no subscription and
  no ownership mentions it; which operations keep a client absent, and that dropping it
  makes it absent, is proved once from the laws.
\<close>

locale topic_directory =
  fixes inv :: "'d \<Rightarrow> bool"
    and subs :: "'d \<Rightarrow> topic \<Rightarrow> u32 set"
    and own :: "'d \<Rightarrow> topic \<Rightarrow> u32 option"
    and new :: "'d"
    and sub :: "u32 \<Rightarrow> topic \<Rightarrow> 'd \<Rightarrow> 'd run"
    and unsub :: "u32 \<Rightarrow> topic \<Rightarrow> 'd \<Rightarrow> unit result \<times> 'd"
    and clm :: "u32 \<Rightarrow> topic \<Rightarrow> 'd \<Rightarrow> (unit result \<times> 'd) run"
    and uncl :: "u32 \<Rightarrow> topic \<Rightarrow> 'd \<Rightarrow> unit result \<times> 'd"
    and drop :: "u32 \<Rightarrow> 'd \<Rightarrow> 'd \<times> topic list"
    and look :: "'d \<Rightarrow> topic \<Rightarrow> u32 set"
  assumes new_law: "inv new" "subs new t = {}" "own new t = None"
    and sub_law: "inv d \<Longrightarrow> wf_topic t \<Longrightarrow> \<exists>d'. sub c t d = returns d' \<and> inv d' \<and>
      subs d' = (subs d)(t := insert c (subs d t)) \<and> own d' = own d"
    and unsub_law: "inv d \<Longrightarrow> \<exists>d'. unsub c t d = (Inr (), d') \<and> inv d' \<and>
      subs d' = (subs d)(t := subs d t - {c}) \<and> own d' = own d"
    and clm_law: "inv d \<Longrightarrow> wf_topic t \<Longrightarrow> \<exists>r d'. clm c t d = returns (r, d') \<and> inv d' \<and>
      subs d' = subs d \<and> own d' = (if r = Inr () then (own d)(t := Some c) else own d)"
    and uncl_law: "inv d \<Longrightarrow> \<exists>r d'. uncl c t d = (r, d') \<and> inv d' \<and> subs d' = subs d \<and>
      (own d' = own d \<or> own d t = Some c \<and> own d' = (own d)(t := None))"
    and drop_law: "inv d \<Longrightarrow> \<exists>d' ts. drop c d = (d', ts) \<and> inv d' \<and>
      (\<forall>u. subs d' u = subs d u - {c}) \<and>
      (\<forall>u. own d' u = (if own d u = Some c then None else own d u)) \<and>
      distinct ts \<and> set ts = {u. subs d u = {c}}"
    and look_law: "inv d \<Longrightarrow> finite (look d t) \<and>
      look d t = {c. \<exists>u. c \<in> subs d u \<and> topic_overlap u t}"
begin

definition absent :: "u32 \<Rightarrow> 'd \<Rightarrow> bool" where
  "absent c d \<longleftrightarrow> (\<forall>t. c \<notin> subs d t \<and> own d t \<noteq> Some c)"

lemma absent_new: "absent c new"
  by (simp add: absent_def new_law)

lemma sub_frame:
  assumes "inv d" and "wf_topic t" and "sub c t d = returns d'"
  shows "inv d'" and "c' \<noteq> c \<Longrightarrow> absent c' d \<Longrightarrow> absent c' d'"
    and "subs d' u = (if u = t then insert c (subs d u) else subs d u)" and "own d' u = own d u"
  using sub_law [OF assms(1,2), of c] assms(3) by (auto simp: absent_def)

lemma unsub_frame:
  assumes "inv d" and "unsub c t d = (r, d')"
  shows "inv d'" and "r = Inr ()" and "absent c' d \<Longrightarrow> absent c' d'"
    and "subs d' u = (if u = t then subs d u - {c} else subs d u)" and "own d' u = own d u"
  using unsub_law [OF assms(1), of c t] assms(2) by (auto simp: absent_def)

lemma clm_frame:
  assumes "inv d" and "wf_topic t" and "clm c t d = returns (r, d')"
  shows "inv d'" and "c' \<noteq> c \<Longrightarrow> absent c' d \<Longrightarrow> absent c' d'" and "subs d' u = subs d u"
    and "own d' u = (if u = t \<and> r = Inr () then Some c else own d u)"
  using clm_law [OF assms(1,2), of c] assms(3) by (auto simp: absent_def split: if_splits)

lemma uncl_frame:
  assumes "inv d" and "uncl c t d = (r, d')"
  shows "inv d'" and "absent c' d \<Longrightarrow> absent c' d'" and "subs d' u = subs d u"
    and "own d' u = own d u \<or> own d' u = None"
  using uncl_law [OF assms(1), of c t] assms(2) by (auto simp: absent_def split: if_splits)

lemma drop_frame:
  assumes "inv d" and "drop c d = (d', ts)"
  shows "inv d'" and "absent c d'" and "absent c' d \<Longrightarrow> absent c' d'"
    and "subs d' u = subs d u - {c}"
    and "own d' u = (if own d u = Some c then None else own d u)"
    and "distinct ts" and "set ts = {u. subs d u = {c}}"
  using drop_law [OF assms(1), of c] assms(2) by (auto simp: absent_def split: if_splits)

lemma look_absent: "inv d \<Longrightarrow> absent c d \<Longrightarrow> c \<notin> look d t"
  using look_law [of d t] by (auto simp: absent_def)

lemma look_mono_sub:
  "inv d \<Longrightarrow> wf_topic t \<Longrightarrow> sub c t d = returns d' \<Longrightarrow>
   look d' u = look d u \<union> (if topic_overlap t u then {c} else {})"
proof -
  assume *: "inv d" "wf_topic t" "sub c t d = returns d'"
  have "(\<exists>v. x \<in> subs d' v \<and> topic_overlap v u) \<longleftrightarrow>
      (\<exists>v. x \<in> subs d v \<and> topic_overlap v u) \<or> x = c \<and> topic_overlap t u" for x
    by (metis sub_frame(3) [OF *] insert_iff)
  then show ?thesis using sub_frame(1) [OF *] look_law [of d u] look_law [of d' u] *(1) by auto
qed

lemma look_drop: "inv d \<Longrightarrow> drop c d = (d', ts) \<Longrightarrow> look d' u = look d u - {c}"
  using drop_frame [of d c d' ts] look_law [of d u] look_law [of d' u] by auto

end

interpretation tree: topic_directory dir_inv subs_of owner_of directory_new subscribe
    unsubscribe claim unclaim drop_client matching
proof unfold_locales
  fix d t c
  assume inv: "dir_inv d"
  {
    assume "wf_topic t"
    from subscribe_spec [OF inv this, of c]
    show "\<exists>d'. subscribe c t d = returns d' \<and> dir_inv d' \<and>
        subs_of d' = (subs_of d)(t := insert c (subs_of d t)) \<and> owner_of d' = owner_of d"
      by (metis (no_types, lifting) fun_upd_apply ext)
  next
    from unsubscribe_spec [OF inv, of c t]
    show "\<exists>d'. unsubscribe c t d = (Inr (), d') \<and> dir_inv d' \<and>
        subs_of d' = (subs_of d)(t := subs_of d t - {c}) \<and> owner_of d' = owner_of d"
      by (metis (no_types, lifting) fun_upd_apply ext)
  next
    assume "wf_topic t"
    from claim_spec [OF inv this, of c]
    show "\<exists>r d'. claim c t d = returns (r, d') \<and> dir_inv d' \<and> subs_of d' = subs_of d \<and>
        owner_of d' = (if r = Inr () then (owner_of d)(t := Some c) else owner_of d)"
      by (metis (no_types, lifting) fun_upd_apply ext)
  next
    obtain r d' where "unclaim c t d = (r, d')" and "dir_inv d'"
      and "r = Inr () \<or> r = Inl ClaimWildcardNotSupported \<and> topic_wild t"
      and "\<And>u. owner_of d' u =
        (if u = t \<and> \<not> topic_wild t \<and> owner_of d t = Some c then None else owner_of d u)"
      and "\<And>u. subs_of d' u = subs_of d u"
      by (rule unclaim_spec [OF inv, of c t]) (rule that)
    then show "\<exists>r d'. unclaim c t d = (r, d') \<and> dir_inv d' \<and> subs_of d' = subs_of d \<and>
        (owner_of d' = owner_of d \<or>
         owner_of d t = Some c \<and> owner_of d' = (owner_of d)(t := None))"
      by (intro exI [of _ r] exI [of _ d']) (auto simp: fun_eq_iff)
  next
    obtain d' ts where "drop_client c d = (d', ts)" and "dir_inv d'"
      and "\<And>u. subs_of d' u = subs_of d u - {c}"
      and "\<And>u. owner_of d' u = (if owner_of d u = Some c then None else owner_of d u)"
      and "distinct ts" and "set ts = {u. subs_of d u = {c}}"
      by (rule drop_client_spec [OF inv, of c]) (rule that)
    then show "\<exists>d' ts. drop_client c d = (d', ts) \<and> dir_inv d' \<and>
        (\<forall>u. subs_of d' u = subs_of d u - {c}) \<and>
        (\<forall>u. owner_of d' u = (if owner_of d u = Some c then None else owner_of d u)) \<and>
        distinct ts \<and> set ts = {u. subs_of d u = {c}}"
      by (intro exI [of _ d'] exI [of _ ts]) simp
  next
    show "finite (matching d t) \<and>
        matching d t = {c. \<exists>u. c \<in> subs_of d u \<and> topic_overlap u t}"
      using inv finite_matching matching_eq by blast
  }
qed (simp_all add: dir_inv_new)

end
