(* ===== verification/Directory_Registry.thy ===== *)
theory Directory_Registry
  imports Directory_Spec
begin

text \<open>
  The contract of the directory as an abstract machine, and the refinement between the
  tree and it. A registry is what a client of the directory can know: who subscribes to
  each topic and who owns it. One command per public operation; \<open>tree_run\<close> executes a
  sequence of commands on the tree, \<open>registry_run\<close> on the registry.
\<close>

section \<open>The registry\<close>

record registry =
  reg_subs :: "topic \<Rightarrow> u32 set"
  reg_owner :: "topic \<Rightarrow> u32 option"

definition empty_registry :: registry where
  "empty_registry = \<lparr>reg_subs = (\<lambda>_. {}), reg_owner = (\<lambda>_. None)\<rparr>"

datatype dir_cmd =
    Subscribe u32 topic
  | Unsubscribe u32 topic
  | Claim u32 topic
  | Unclaim u32 topic
  | DropClient u32
  | GetOwner topic

datatype dir_answer =
    Done "unit result"
  | Owner "u32 option"

fun registry_step :: "dir_cmd \<Rightarrow> registry \<Rightarrow> dir_answer \<times> registry" where
  "registry_step (Subscribe c t) r =
     (Done (Inr ()), r\<lparr>reg_subs := (reg_subs r)(t := insert c (reg_subs r t))\<rparr>)"
| "registry_step (Unsubscribe c t) r =
     (Done (Inr ()), r\<lparr>reg_subs := (reg_subs r)(t := reg_subs r t - {c})\<rparr>)"
| "registry_step (Claim c t) r =
     (if topic_wild t then (Done (Inl ClaimWildcardNotSupported), r)
      else case reg_owner r t of
          None \<Rightarrow> (Done (Inr ()), r\<lparr>reg_owner := (reg_owner r)(t := Some c)\<rparr>)
        | Some o' \<Rightarrow> (Done (if o' = c then Inr () else Inl TopicAlreadyClaimed), r))"
| "registry_step (Unclaim c t) r =
     (if topic_wild t then (Done (Inl ClaimWildcardNotSupported), r)
      else if reg_owner r t = Some c
        then (Done (Inr ()), r\<lparr>reg_owner := (reg_owner r)(t := None)\<rparr>)
        else (Done (Inr ()), r))"
| "registry_step (DropClient c) r =
     (Done (Inr ()),
      \<lparr>reg_subs = (\<lambda>t. reg_subs r t - {c}),
       reg_owner = (\<lambda>t. if reg_owner r t = Some c then None else reg_owner r t)\<rparr>)"
| "registry_step (GetOwner t) r =
     (Owner (if topic_wild t then None else reg_owner r t), r)"

fun registry_run :: "dir_cmd list \<Rightarrow> registry \<Rightarrow> dir_answer list \<times> registry" where
  "registry_run [] r = ([], r)"
| "registry_run (x # xs) r =
     (let (a, r) = registry_step x r; (as, r) = registry_run xs r in (a # as, r))"

section \<open>The same commands on the tree\<close>

fun tree_step :: "dir_cmd \<Rightarrow> directory \<Rightarrow> (dir_answer \<times> directory) run" where
  "tree_step (Subscribe c t) d = do { d \<leftarrow> subscribe c t d; returns (Done (Inr ()), d) }"
| "tree_step (Unsubscribe c t) d = (let (r, d) = unsubscribe c t d in returns (Done r, d))"
| "tree_step (Claim c t) d = do { (r, d) \<leftarrow> claim c t d; returns (Done r, d) }"
| "tree_step (Unclaim c t) d = (let (r, d) = unclaim c t d in returns (Done r, d))"
| "tree_step (DropClient c) d = returns (Done (Inr ()), fst (drop_client c d))"
| "tree_step (GetOwner t) d = returns (Owner (get_owner t d), d)"

fun tree_run :: "dir_cmd list \<Rightarrow> directory \<Rightarrow> (dir_answer list \<times> directory) run" where
  "tree_run [] d = returns ([], d)"
| "tree_run (x # xs) d = do {
     (a, d) \<leftarrow> tree_step x d;
     (as, d) \<leftarrow> tree_run xs d;
     returns (a # as, d)
   }"

fun cmd_topic :: "dir_cmd \<Rightarrow> topic option" where
  "cmd_topic (Subscribe _ t) = Some t"
| "cmd_topic (Unsubscribe _ t) = Some t"
| "cmd_topic (Claim _ t) = Some t"
| "cmd_topic (Unclaim _ t) = Some t"
| "cmd_topic (DropClient _) = None"
| "cmd_topic (GetOwner t) = Some t"

definition wf_cmd :: "dir_cmd \<Rightarrow> bool" where
  "wf_cmd x \<longleftrightarrow> (case cmd_topic x of Some t \<Rightarrow> wf_topic t | None \<Rightarrow> True)"

section \<open>Refinement\<close>

definition registry_of :: "directory \<Rightarrow> registry" where
  "registry_of d = \<lparr>reg_subs = subs_of d, reg_owner = owner_of d\<rparr>"

lemma registry_of_simps [simp]:
  "reg_subs (registry_of d) = subs_of d" "reg_owner (registry_of d) = owner_of d"
  by (simp_all add: registry_of_def)

lemma registry_of_new: "registry_of directory_new = empty_registry"
  by (simp add: registry_of_def empty_registry_def dir_inv_new fun_eq_iff)

lemma registry_eqI:
  "(\<And>t. reg_subs r t = reg_subs s t) \<Longrightarrow> (\<And>t. reg_owner r t = reg_owner s t) \<Longrightarrow>
   r = (s :: registry)"
  by (cases r; cases s) auto

text \<open>
  The answer of \<open>unclaim\<close> on a wildcard topic depends on the tree: the error appears only
  when the nodes before the wildcard exist. The registry says error, the tree may also
  say \<open>Ok\<close>; every other answer is the registry's.
\<close>

fun permitted :: "dir_cmd \<Rightarrow> dir_answer \<Rightarrow> dir_answer \<Rightarrow> bool" where
  "permitted (Unclaim c t) a b \<longleftrightarrow> b = a \<or> topic_wild t \<and> b = Done (Inr ())"
| "permitted _ a b \<longleftrightarrow> b = a"

fun agree :: "dir_cmd list \<Rightarrow> dir_answer list \<Rightarrow> dir_answer list \<Rightarrow> bool" where
  "agree [] [] [] = True"
| "agree (x # xs) (a # as) (b # bs) = (permitted x a b \<and> agree xs as bs)"
| "agree _ _ _ = False"

lemma tree_step_refines:
  assumes "dir_inv d" and "wf_cmd x"
  shows "\<exists>b d'. tree_step x d = returns (b, d') \<and> dir_inv d' \<and>
     permitted x (fst (registry_step x (registry_of d))) b \<and>
     registry_of d' = snd (registry_step x (registry_of d))"
proof (cases x)
  case (Subscribe c t)
  then obtain d' where "subscribe c t d = returns d'" "dir_inv d'"
    "\<And>u. subs_of d' u = (if u = t then insert c (subs_of d t) else subs_of d u)"
    "\<And>u. owner_of d' u = owner_of d u"
    using subscribe_spec [OF assms(1), of t c] assms(2) by (auto simp: wf_cmd_def)
  then show ?thesis using Subscribe by (auto intro!: registry_eqI)
next
  case (Unsubscribe c t)
  obtain d' where "unsubscribe c t d = (Inr (), d')" "dir_inv d'"
    "\<And>u. subs_of d' u = (if u = t then subs_of d t - {c} else subs_of d u)"
    "\<And>u. owner_of d' u = owner_of d u"
    by (rule unsubscribe_spec [OF assms(1)]) (rule that)
  then show ?thesis using Unsubscribe by (auto intro!: registry_eqI)
next
  case (Claim c t)
  then obtain d' where "claim c t d = returns (claim_result c t d, d')" "dir_inv d'"
    "\<And>u. owner_of d' u =
      (if u = t \<and> claim_result c t d = Inr () then Some c else owner_of d u)"
    "\<And>u. subs_of d' u = subs_of d u"
    using claim_spec [OF assms(1), of t c] assms(2) by (auto simp: wf_cmd_def)
  then show ?thesis using Claim
    by (auto intro!: registry_eqI simp: claim_result_def split: option.split)
next
  case (Unclaim c t)
  obtain r d' where "unclaim c t d = (r, d')" "dir_inv d'"
    "r = Inr () \<or> r = Inl ClaimWildcardNotSupported \<and> topic_wild t"
    "\<And>u. owner_of d' u =
      (if u = t \<and> \<not> topic_wild t \<and> owner_of d t = Some c then None else owner_of d u)"
    "\<And>u. subs_of d' u = subs_of d u"
    by (rule unclaim_spec [OF assms(1)]) (rule that)
  then show ?thesis using Unclaim by (auto intro!: registry_eqI)
next
  case (DropClient c)
  obtain d' ts where "drop_client c d = (d', ts)" "dir_inv d'"
    "\<And>u. subs_of d' u = subs_of d u - {c}"
    "\<And>u. owner_of d' u = (if owner_of d u = Some c then None else owner_of d u)"
    by (rule drop_client_spec [OF assms(1)]) (rule that)
  then show ?thesis using DropClient by (auto intro!: registry_eqI)
next
  case (GetOwner t)
  then show ?thesis using assms(1) by (auto simp: get_owner_eq)
qed

lemma tree_run_refines:
  assumes "dir_inv d" and "\<forall>x \<in> set xs. wf_cmd x"
  shows "\<exists>bs d'. tree_run xs d = returns (bs, d') \<and> dir_inv d' \<and>
     agree xs (fst (registry_run xs (registry_of d))) bs \<and>
     registry_of d' = snd (registry_run xs (registry_of d))"
  using assms
proof (induction xs arbitrary: d)
  case (Cons x xs)
  obtain b d1 where d1: "tree_step x d = returns (b, d1)" "dir_inv d1"
    "permitted x (fst (registry_step x (registry_of d))) b"
    "registry_of d1 = snd (registry_step x (registry_of d))"
    using tree_step_refines [OF Cons.prems(1), of x] Cons.prems(2) by auto
  obtain bs d2 where "tree_run xs d1 = returns (bs, d2)" "dir_inv d2"
    "agree xs (fst (registry_run xs (registry_of d1))) bs"
    "registry_of d2 = snd (registry_run xs (registry_of d1))"
    using Cons.IH [OF d1(2)] Cons.prems(2) by auto
  with d1 show ?case by (auto simp: Let_def split: prod.split)
qed simp

section \<open>Which subscribers a topic reaches\<close>

definition denotes :: "topic \<Rightarrow> string list \<Rightarrow> bool" where
  \<comment> \<open>the concrete topic, as its segments, belongs to the pattern\<close>
  "denotes t w \<longleftrightarrow> concrete w \<and> pat_matches (topic_segments t) w"

definition audience :: "registry \<Rightarrow> topic \<Rightarrow> u32 set" where
  \<comment> \<open>clients with a subscription that shares a concrete topic with \<open>t\<close>\<close>
  "audience r t = {c. \<exists>u w. c \<in> reg_subs r u \<and> denotes u w \<and> denotes t w}"

lemma subs_of_valid:
  "dir_inv d \<Longrightarrow> c \<in> subs_of d u \<Longrightarrow> \<forall>s \<in> set (topic_segments u). valid_segment s"
  using subs_at_valid [of d "topic_segments u"] by (auto simp: dir_inv_def subs_of_def)

lemma matching_audience:
  assumes "dir_inv d" and "wf_topic t"
  shows "matching d t = audience (registry_of d) t"
proof -
  have "topic_overlap u t \<longleftrightarrow> (\<exists>w. denotes u w \<and> denotes t w)" if "c \<in> subs_of d u" for c u
  proof -
    have "\<forall>s \<in> set (topic_segments u) \<union> set (topic_segments t). valid_segment s"
      using subs_of_valid [OF assms(1) that] topic_segments_valid [OF assms(2)] by blast
    then show ?thesis by (auto simp: topic_overlap_def denotes_def overlap_iff)
  qed
  then show ?thesis using matching_eq [OF assms(1)] by (auto simp: audience_def)
qed

end
