(* ===== verification/Directory_Properties.thy ===== *)
theory Directory_Properties
  imports Directory_Registry
begin

text \<open>
  The properties of the topic directory: the tree refines the registry, and the search
  for subscribers computes the intersection of pattern languages.
\<close>

text \<open>
  C2: any sequence of subscribe, unsubscribe, claim, unclaim, drop and owner queries on
  valid topics, run on the tree from empty, answers as the abstract registry does and
  ends in a tree that represents the registry's final state; it never panics.
\<close>

theorem directory_refines_registry:
  assumes "\<forall>x \<in> set xs. wf_cmd x"
  shows "\<exists>bs d. tree_run xs directory_new = returns (bs, d) \<and> dir_inv d \<and>
     agree xs (fst (registry_run xs empty_registry)) bs \<and>
     registry_of d = snd (registry_run xs empty_registry)"
  using tree_run_refines [OF dir_inv_new(1) assms] by (simp add: registry_of_new)

definition sample_topic :: topic where
  "sample_topic = \<lparr>protocol = ''p'', path_of = Path ''a/b''\<rparr>"

definition sample_pattern :: topic where
  "sample_pattern = \<lparr>protocol = ''*'', path_of = Path ''**/b''\<rparr>"

lemma wf_samples: "wf_topic sample_topic" "wf_topic sample_pattern"
  by (auto simp: sample_topic_def sample_pattern_def wf_topic_def valid_protocol_def wf_path_def
      path_segments_def is_root_def is_word_def word_class_def valid_segment_def
      PATH_SEPARATOR_def WILDCARD_def DOUBLE_WILDCARD_def)

lemma sample_not_wild: "\<not> topic_wild sample_topic"
  by (simp add: sample_topic_def topic_wild_def topic_segments_def path_segments_def is_root_def
      PATH_SEPARATOR_def WILDCARD_def DOUBLE_WILDCARD_def)

theorem directory_refines_registry_witness:
  "\<exists>bs d. tree_run [Claim 1 sample_topic, Claim 2 sample_topic, DropClient 1,
       GetOwner sample_topic] directory_new = returns (bs, d) \<and>
     bs = [Done (Inr ()), Done (Inl TopicAlreadyClaimed), Done (Inr ()), Owner None]"
proof -
  let ?xs = "[Claim 1 sample_topic, Claim 2 sample_topic, DropClient 1, GetOwner sample_topic]"
  obtain bs d where "tree_run ?xs directory_new = returns (bs, d)"
    and a: "agree ?xs (fst (registry_run ?xs empty_registry)) bs"
    using directory_refines_registry [of ?xs] by (auto simp: wf_cmd_def wf_samples)
  moreover from a have
    "bs = [Done (Inr ()), Done (Inl TopicAlreadyClaimed), Done (Inr ()), Owner None]"
    by (cases bs; cases "tl bs"; cases "tl (tl bs)"; cases "tl (tl (tl bs))";
        cases "tl (tl (tl (tl bs)))")
       (auto simp: sample_not_wild empty_registry_def Let_def)
  ultimately show ?thesis by blast
qed

text \<open>
  C19: after any sequence of commands, the subscribers found for a topic are, each once,
  the clients with a subscription that has a concrete topic in common with it, wildcards
  being expanded on both sides.
\<close>

theorem subscribers_are_the_audience:
  assumes "\<forall>x \<in> set xs. wf_cmd x" and "tree_run xs directory_new = returns (bs, d)"
    and "wf_topic t" and "hash_iteration ord"
  shows "set (get_subscribers ord t d) = audience (snd (registry_run xs empty_registry)) t \<and>
     distinct (get_subscribers ord t d)"
proof -
  have d: "dir_inv d" "registry_of d = snd (registry_run xs empty_registry)"
    using tree_run_refines [OF dir_inv_new(1) assms(1)] assms(2) by (auto simp: registry_of_new)
  have "finite (matching d t)" using d(1) by (rule finite_matching)
  then show ?thesis
    using hash_iteration.set_ord [OF assms(4)] hash_iteration.distinct_ord [OF assms(4)]
      matching_audience [OF d(1) assms(3)] d(2)
    by (simp add: get_subscribers_eq)
qed

theorem subscribers_are_the_audience_witness:
  "\<exists>bs d. tree_run [Subscribe 7 sample_pattern] directory_new = returns (bs, d) \<and>
     set (get_subscribers ascending sample_topic d) =
       audience (snd (registry_run [Subscribe 7 sample_pattern] empty_registry)) sample_topic"
proof -
  have wf: "\<forall>x \<in> set [Subscribe 7 sample_pattern]. wf_cmd x"
    by (simp add: wf_cmd_def wf_samples)
  obtain bs d where "tree_run [Subscribe 7 sample_pattern] directory_new = returns (bs, d)"
    using tree_run_refines [OF dir_inv_new(1) wf] by auto
  with subscribers_are_the_audience [OF wf this wf_samples(1)
      ascending_order.hash_iteration_axioms]
  show ?thesis by blast
qed

text \<open>
  C25: dropping a client reports, each once, exactly the topics that lose their last
  subscriber with it, and removes the client from every search result and nobody else.
\<close>

theorem drop_client_reports_orphaned_topics:
  assumes "dir_inv d" and "drop_client c d = (d', ts)"
  shows "dir_inv d' \<and> distinct ts \<and> set ts = {u. subs_of d u = {c}} \<and>
     matching d' t = matching d t - {c} \<and>
     get_owner t d' = (if get_owner t d = Some c then None else get_owner t d)"
  using tree.drop_frame [OF assms] tree.look_drop [OF assms] by (auto simp: get_owner_eq)

theorem drop_client_reports_orphaned_topics_witness:
  "\<exists>bs d d' ts. tree_run [Subscribe 7 sample_pattern] directory_new = returns (bs, d) \<and>
     drop_client 7 d = (d', ts) \<and> set ts = {sample_pattern} \<and> matching d' sample_topic = {}"
proof -
  have wf: "\<forall>x \<in> set [Subscribe 7 sample_pattern]. wf_cmd x"
    by (simp add: wf_cmd_def wf_samples)
  obtain bs d where d: "tree_run [Subscribe 7 sample_pattern] directory_new = returns (bs, d)"
    "dir_inv d" "registry_of d = snd (registry_run [Subscribe 7 sample_pattern] empty_registry)"
    using tree_run_refines [OF dir_inv_new(1) wf] by (auto simp: registry_of_new)
  obtain d' ts where d': "drop_client 7 d = (d', ts)" by fastforce
  have s: "subs_of d u = (if u = sample_pattern then {7} else {})" for u
    using d(3) by (auto simp: registry_of_def empty_registry_def)
  have "matching d sample_topic \<subseteq> {7}"
    using s by (auto simp: matching_eq [OF d(2)] split: if_splits)
  with drop_client_reports_orphaned_topics [OF d(2) d', of sample_topic] d(1) d' s
  show ?thesis by (auto split: if_splits)
qed

end
