(* ===== verification/Server_Core.thy ===== *)
theory Server_Core
  imports Directory_Spec Protocol
begin

text \<open>
  \<open>server/core.rs\<close>: the single task that owns the server's state. Its state is the
  struct \<open>Core\<close> with the effects it has on the runtime: the channels to the client
  stubs (a heap of channels, the struct holding their sending halves), the stubs it
  spawned and the request timers it spawned. Message and client ids are 32-bit words
  and wrap around, as \<open>+= 1\<close> does in a release build.

  What comes from outside is in the record \<open>runtime\<close>: the iteration order of a hash set,
  the text of tokio's send error, and the gzip coder.
\<close>

section \<open>State\<close>

record runtime =
  hash_order :: "u32 set \<Rightarrow> u32 list"
  send_error_text :: string
  gzip_encode :: "bytes \<Rightarrow> bytes"

record pending_response =
  pr_request_id :: u32
  pr_responder_id :: u32
  pr_requester_id :: u32

record stub =
  stub_id :: u32
  stub_transport :: nat
  stub_receiver :: nat \<comment> \<open>handle of its channel from the core\<close>

record core =
  protocol_server_senders :: "u32 \<rightharpoonup> nat" \<comment> \<open>client id to channel handle\<close>
  directory :: directory
  next_client_id :: u32
  next_msg_id :: u32
  pending_responses :: "u32 \<rightharpoonup> pending_response"
  chans :: "nat \<Rightarrow> protocol_server msg chan"
  next_chan :: nat
  spawned_stubs :: "stub list"
  spawned_timers :: "u32 list" \<comment> \<open>each sends \<open>RequestTimeout\<close> after \<open>REQUEST_TIMEOUT_S\<close>\<close>

datatype task =
    Register nat
  | Deregister u32
  | Message u32 "protocol_client msg"
  | RequestTimeout u32

definition empty_core :: core where
  "empty_core =
     \<lparr>protocol_server_senders = Map.empty, directory = directory_new, next_client_id = 1,
      next_msg_id = 0, pending_responses = Map.empty,
      chans = (\<lambda>_. \<lparr>buffer = [], rx_alive = False, tx_alive = False\<rparr>), next_chan = 0,
      spawned_stubs = [], spawned_timers = []\<rparr>"

definition core_new :: "(rexp \<Rightarrow> string \<Rightarrow> bool) \<Rightarrow> core run" where
  "core_new rx =
     (case topic_from_str rx ''bus:kill'' of
        Inl _ \<Rightarrow> panic
      | Inr t \<Rightarrow> do {
          d \<leftarrow> subscribe 0 t (directory empty_core);
          returns (empty_core\<lparr>directory := d\<rparr>)
        })"

section \<open>Delivery and deregistration\<close>

definition drop_sender :: "u32 \<Rightarrow> core \<Rightarrow> core" where
  \<comment> \<open>the sending half stored under the id, if any, leaves the map and is dropped\<close>
  "drop_sender cid c =
     (case protocol_server_senders c cid of
        Some h \<Rightarrow> c\<lparr>protocol_server_senders := (protocol_server_senders c)(cid := None),
                     chans := (chans c)(h := (chans c h)\<lparr>tx_alive := False\<rparr>)\<rparr>
      | None \<Rightarrow> c)"

definition deregister_client :: "u32 \<Rightarrow> core \<Rightarrow> unit result \<times> core" where
  "deregister_client cid c =
     (let c = drop_sender cid c;
          c = c\<lparr>directory := fst (drop_client cid (directory c))\<rparr>;
          c = c\<lparr>pending_responses :=
                 map_retain (\<lambda>v. pr_requester_id v \<noteq> cid \<and> pr_responder_id v \<noteq> cid)
                   (pending_responses c)\<rparr>
      in (Inr (), c))"

definition next_msg :: "protocol_server \<Rightarrow> core \<Rightarrow> protocol_server msg \<times> core" where
  \<comment> \<open>the method \<open>msg\<close>\<close>
  "next_msg payload c =
     (let i = next_msg_id c in (Msg i payload, c\<lparr>next_msg_id := next_msg_id c + 1\<rparr>))"

definition deliver :: "runtime \<Rightarrow> u32 \<Rightarrow> protocol_server \<Rightarrow> core \<Rightarrow> u32 result \<times> core" where
  "deliver rt cid payload c =
     (let (m, c) = next_msg payload c in
      case protocol_server_senders c cid of
        Some h \<Rightarrow>
          (case chan_send m (chans c h) of
             Some ch \<Rightarrow> (Inr (mid m), c\<lparr>chans := (chans c)(h := ch)\<rparr>)
           | None \<Rightarrow>
               (case deregister_client cid c of
                  (Inl e, c) \<Rightarrow> (Inl e, c)
                | (Inr _, c) \<Rightarrow> (Inl (DeliveryFailed cid (send_error_text rt)), c)))
      | None \<Rightarrow> (Inl (UnknownClient cid), c))"

section \<open>The operations behind each client message\<close>

definition core_serve :: "u32 \<Rightarrow> srv_msg \<Rightarrow> core \<Rightarrow> (unit result \<times> core) run" where
  "core_serve cid params c = do {
     (r, d) \<leftarrow> claim cid (srv_topic params) (directory c);
     returns (r, c\<lparr>directory := d\<rparr>)
   }"

definition core_unserve :: "u32 \<Rightarrow> unsrv_msg \<Rightarrow> core \<Rightarrow> unit result \<times> core" where
  "core_unserve cid params c =
     (let (r, d) = unclaim cid (unsrv_topic params) (directory c)
      in (r, c\<lparr>directory := d\<rparr>))"

definition core_request ::
    "runtime \<Rightarrow> u32 \<Rightarrow> u32 \<Rightarrow> req_msg \<Rightarrow> core \<Rightarrow> unit result \<times> core" where
  "core_request rt cid req_id params c =
     (case get_owner (req_topic params) (directory c) of
        Some server_id \<Rightarrow>
          (case deliver rt server_id
                  (ServerReq \<lparr>req_topic = req_topic params, req_payload = req_payload params\<rparr>) c of
             (Inl e, c) \<Rightarrow> (Inl e, c)
           | (Inr msg_id, c) \<Rightarrow>
               (Inr (),
                c\<lparr>pending_responses := (pending_responses c)(msg_id \<mapsto>
                     \<lparr>pr_request_id = req_id, pr_responder_id = server_id,
                      pr_requester_id = cid\<rparr>),
                  spawned_timers := spawned_timers c @ [msg_id]\<rparr>))
      | None \<Rightarrow> (Inl (ServiceNotFound (req_topic params)), c))"

definition core_respond :: "runtime \<Rightarrow> u32 \<Rightarrow> rsp_msg \<Rightarrow> core \<Rightarrow> unit result \<times> core" where
  "core_respond rt cid params c =
     (case pending_responses c (rsp_req_id params) of
        Some pr \<Rightarrow>
          (if cid \<noteq> 0 \<and> pr_responder_id pr \<noteq> cid then (Inl InvalidRequestId, c)
           else
             let c = c\<lparr>pending_responses := (pending_responses c)(rsp_req_id params := None)\<rparr> in
             case deliver rt (pr_requester_id pr)
                    (ServerRsp \<lparr>rsp_req_id = pr_request_id pr, rsp_status = rsp_status params,
                                rsp_payload = rsp_payload params\<rparr>) c of
               (Inl e, c) \<Rightarrow> (Inl e, c)
             | (Inr _, c) \<Rightarrow> (Inr (), c))
      | None \<Rightarrow> (Inl InvalidRequestId, c))"

definition core_subscribe :: "u32 \<Rightarrow> sub_msg \<Rightarrow> core \<Rightarrow> (unit result \<times> core) run" where
  "core_subscribe cid params c = do {
     d \<leftarrow> subscribe cid (sub_topic params) (directory c);
     returns (Inr (), c\<lparr>directory := d\<rparr>)
   }"

definition core_unsubscribe :: "u32 \<Rightarrow> unsub_msg \<Rightarrow> core \<Rightarrow> unit result \<times> core" where
  "core_unsubscribe cid params c =
     (let (r, d) = unsubscribe cid (unsub_topic params) (directory c)
      in (r, c\<lparr>directory := d\<rparr>))"

fun publish_to ::
    "runtime \<Rightarrow> protocol_server \<Rightarrow> u32 list \<Rightarrow> core \<Rightarrow> (unit result \<times> core) run" where
  \<comment> \<open>the delivery loop of \<open>publish\<close>\<close>
  "publish_to rt payload [] c = returns (Inr (), c)"
| "publish_to rt payload (cid # ids) c =
     (if cid = 0 then panic
      else case deliver rt cid payload c of
          (Inl e, c) \<Rightarrow> returns (Inl e, c)
        | (Inr _, c) \<Rightarrow> publish_to rt payload ids c)"

definition core_publish :: "runtime \<Rightarrow> pub_msg \<Rightarrow> core \<Rightarrow> (nat result \<times> core) run" where
  "core_publish rt params c =
     (let ids = get_subscribers (hash_order rt) (pub_topic params) (directory c);
          payload = ServerPub \<lparr>pub_topic = pub_topic params, pub_payload = pub_payload params\<rparr>
      in do {
        (r, c) \<leftarrow> publish_to rt payload ids c;
        returns (case r of Inl e \<Rightarrow> Inl e | Inr _ \<Rightarrow> Inr (length ids), c)
      })"

section \<open>Processing a message and a task\<close>

definition dispatch ::
    "runtime \<Rightarrow> u32 \<Rightarrow> u32 \<Rightarrow> protocol_client \<Rightarrow> core \<Rightarrow> (unit result \<times> core) run" where
  \<comment> \<open>the inner match of \<open>process_msg\<close>\<close>
  "dispatch rt cid msg_id cnt c =
     (case cnt of
        ClientSub params \<Rightarrow> core_subscribe cid params c
      | ClientUnsub params \<Rightarrow> returns (core_unsubscribe cid params c)
      | ClientSrv params \<Rightarrow> core_serve cid params c
      | ClientUnsrv params \<Rightarrow> returns (core_unserve cid params c)
      | ClientReq params \<Rightarrow> returns (core_request rt cid msg_id params c)
      | ClientRsp params \<Rightarrow> returns (core_respond rt cid params c)
      | ClientStop \<Rightarrow> returns (Inr (), c)
      | ClientKeepAlive \<Rightarrow> returns (Inr (), c)
      | ClientPub _ \<Rightarrow> panic)"

definition process_msg ::
    "runtime \<Rightarrow> u32 \<Rightarrow> protocol_client msg \<Rightarrow> core \<Rightarrow> (bool result \<times> core) run" where
  "process_msg rt cid m c =
     (let stop = (content m = ClientStop) in do {
        (result, c) \<leftarrow> (case content m of
            ClientPub params \<Rightarrow> do {
              (r, c) \<leftarrow> core_publish rt params c;
              returns (case r of Inl e \<Rightarrow> Inl e | Inr n \<Rightarrow> Inr (Some n), c)
            }
          | _ \<Rightarrow> do {
              (r, c) \<leftarrow> dispatch rt cid (mid m) (content m) c;
              returns (case r of Inl e \<Rightarrow> Inl e | Inr _ \<Rightarrow> Inr None, c)
            });
        let ack = (case result of
            Inr n \<Rightarrow> \<lparr>ack_msg_id = mid m, ack_err = None, num_recipients = n\<rparr>
          | Inl e \<Rightarrow> \<lparr>ack_msg_id = mid m, ack_err = Some e, num_recipients = None\<rparr>);
        let (_, c) = deliver rt cid (ServerAck ack) c;
        returns (Inr stop, c)
      })"

definition register_client :: "nat \<Rightarrow> core \<Rightarrow> unit result \<times> core" where
  "register_client transport c =
     (let cid = next_client_id c;
          c = c\<lparr>next_client_id := next_client_id c + 1\<rparr>;
          h = next_chan c;
          c = c\<lparr>next_chan := h + 1, chans := (chans c)(h := new_chan)\<rparr>;
          c = c\<lparr>spawned_stubs := spawned_stubs c @
                 [\<lparr>stub_id = cid, stub_transport = transport, stub_receiver = h\<rparr>]\<rparr>;
          c = drop_sender cid c;
          c = c\<lparr>protocol_server_senders := (protocol_server_senders c)(cid \<mapsto> h)\<rparr>
      in (Inr (), c))"

definition process_task :: "runtime \<Rightarrow> task \<Rightarrow> core \<Rightarrow> (bool result \<times> core) run" where
  "process_task rt t c =
     (case t of
        Register transport \<Rightarrow>
          (case register_client transport c of
             (Inl e, c) \<Rightarrow> returns (Inl e, c)
           | (Inr _, c) \<Rightarrow> returns (Inr False, c))
      | Deregister cid \<Rightarrow>
          (case deregister_client cid c of
             (Inl e, c) \<Rightarrow> returns (Inl e, c)
           | (Inr _, c) \<Rightarrow> returns (Inr False, c))
      | Message cid m \<Rightarrow> process_msg rt cid m c
      | RequestTimeout req_id \<Rightarrow>
          (case core_respond rt 0 \<lparr>rsp_req_id = req_id, rsp_status = StatusTimeout,
                  rsp_payload = payload_from_bytes (gzip_encode rt) []\<rparr> c of
             (Inl e, c) \<Rightarrow> returns (Inl e, c)
           | (Inr _, c) \<Rightarrow> returns (Inr False, c)))"

section \<open>The main loop\<close>

datatype outcome =
    Running
  | Stopped "unit result" \<comment> \<open>the task's result\<close>
  | Panicked

text \<open>
  \<open>run\<close> over what its channels yield: a task, the stop signal, or \<open>None\<close> when every
  task sender is gone. The list is the sequence in which \<open>select!\<close> sees them.
\<close>

datatype core_event =
    Task task
  | StopSignal
  | TasksClosed

fun core_run :: "runtime \<Rightarrow> core_event list \<Rightarrow> core \<Rightarrow> outcome \<times> core" where
  "core_run rt [] c = (Running, c)"
| "core_run rt (StopSignal # es) c = (Stopped (Inr ()), c)"
| "core_run rt (TasksClosed # es) c = (Stopped (Inr ()), c)"
| "core_run rt (Task t # es) c =
     (case process_task rt t c of
        None \<Rightarrow> (Panicked, c)
      | Some (Inl e, c) \<Rightarrow> (Stopped (Inl e), c)
      | Some (Inr True, c) \<Rightarrow> (Stopped (Inr ()), c)
      | Some (Inr False, c) \<Rightarrow> core_run rt es c)"

end
