(* ===== verification/Server_Core_Inv.thy ===== *)
theory Server_Core_Inv
  imports Server_Core
begin

text \<open>
  The server core's invariant and frame. \<open>core_inv\<close>: the directory satisfies its
  contract, every registered client has a channel of its own whose sending half the core
  holds, and no unallocated channel holds a message. \<open>grows\<close>: an operation only
  appends to the channels. Both are proved operation by operation and collected in the
  named theorems \<open>core_pres\<close>.
\<close>

named_theorems core_pres \<open>operations preserve the core's invariant and frame\<close>

section \<open>Case analysis of the primitives\<close>

abbreviation bump :: "core \<Rightarrow> core" where
  "bump c \<equiv> c\<lparr>next_msg_id := next_msg_id c + 1\<rparr>"

definition push :: "nat \<Rightarrow> protocol_server \<Rightarrow> core \<Rightarrow> core" where
  \<comment> \<open>the state after a successful delivery on channel \<open>h\<close>\<close>
  "push h p c = (bump c)\<lparr>chans := (chans c)(h := (chans c h)\<lparr>buffer :=
     buffer (chans c h) @ [Msg (next_msg_id c) p]\<rparr>)\<rparr>"

definition reachable_client :: "core \<Rightarrow> u32 \<Rightarrow> bool" where
  "reachable_client c cid \<longleftrightarrow>
     (case protocol_server_senders c cid of Some h \<Rightarrow> rx_alive (chans c h) | None \<Rightarrow> False)"

lemma reachable_irrelevant [simp]:
  "reachable_client (c\<lparr>pending_responses := x\<rparr>) = reachable_client c"
  "reachable_client (c\<lparr>next_msg_id := i\<rparr>) = reachable_client c"
  "reachable_client (c\<lparr>spawned_timers := ts\<rparr>) = reachable_client c"
  "reachable_client (c\<lparr>directory := d\<rparr>) = reachable_client c"
  by (auto simp: reachable_client_def fun_eq_iff split: option.split)

lemma deliver_cases:
  obtains (sent) h where "protocol_server_senders c cid = Some h" "rx_alive (chans c h)"
      "deliver rt cid p c = (Inr (next_msg_id c), push h p c)"
  | (dead) h where "protocol_server_senders c cid = Some h" "\<not> rx_alive (chans c h)"
      "deliver rt cid p c =
         (Inl (DeliveryFailed cid (send_error_text rt)), snd (deregister_client cid (bump c)))"
  | (unknown) "protocol_server_senders c cid = None"
      "deliver rt cid p c = (Inl (UnknownClient cid), bump c)"
proof (cases "protocol_server_senders c cid")
  case None
  then show ?thesis by (intro unknown) (simp_all add: deliver_def next_msg_def)
next
  case (Some h)
  show ?thesis
  proof (cases "rx_alive (chans c h)")
    case True
    with Some show ?thesis
      by (intro sent) (simp_all add: deliver_def next_msg_def push_def Let_def)
  next
    case False
    with Some show ?thesis
      by (intro dead) (simp_all add: deliver_def next_msg_def deregister_client_def Let_def)
  qed
qed

lemma deliver_reachable:
  "reachable_client c cid \<Longrightarrow>
   \<exists>h. protocol_server_senders c cid = Some h \<and> rx_alive (chans c h) \<and>
       deliver rt cid p c = (Inr (next_msg_id c), push h p c)"
  by (cases rule: deliver_cases [of c cid rt p]) (auto simp: reachable_client_def)

lemma deregister_fields [simp]:
  "fst (deregister_client cid c) = Inr ()"
  "protocol_server_senders (snd (deregister_client cid c)) =
     (protocol_server_senders c)(cid := None)"
  "directory (snd (deregister_client cid c)) = fst (drop_client cid (directory c))"
  "next_client_id (snd (deregister_client cid c)) = next_client_id c"
  "next_msg_id (snd (deregister_client cid c)) = next_msg_id c"
  "pending_responses (snd (deregister_client cid c)) =
     map_retain (\<lambda>v. pr_requester_id v \<noteq> cid \<and> pr_responder_id v \<noteq> cid) (pending_responses c)"
  "next_chan (snd (deregister_client cid c)) = next_chan c"
  "spawned_stubs (snd (deregister_client cid c)) = spawned_stubs c"
  "spawned_timers (snd (deregister_client cid c)) = spawned_timers c"
  "buffer (chans (snd (deregister_client cid c)) h) = buffer (chans c h)"
  "rx_alive (chans (snd (deregister_client cid c)) h) = rx_alive (chans c h)"
  "tx_alive (chans (snd (deregister_client cid c)) h) \<longleftrightarrow>
     tx_alive (chans c h) \<and> protocol_server_senders c cid \<noteq> Some h"
  by (auto simp: deregister_client_def drop_sender_def Let_def fun_eq_iff split: option.split)

lemma push_fields [simp]:
  "protocol_server_senders (push h p c) = protocol_server_senders c"
  "directory (push h p c) = directory c"
  "next_client_id (push h p c) = next_client_id c"
  "next_msg_id (push h p c) = next_msg_id c + 1"
  "pending_responses (push h p c) = pending_responses c"
  "next_chan (push h p c) = next_chan c"
  "spawned_stubs (push h p c) = spawned_stubs c"
  "spawned_timers (push h p c) = spawned_timers c"
  "buffer (chans (push h p c) k) =
     buffer (chans c k) @ (if k = h then [Msg (next_msg_id c) p] else [])"
  "rx_alive (chans (push h p c) k) = rx_alive (chans c k)"
  "tx_alive (chans (push h p c) k) = tx_alive (chans c k)"
  by (auto simp: push_def)

section \<open>The invariant\<close>

definition core_inv :: "core \<Rightarrow> bool" where
  "core_inv c \<longleftrightarrow>
     dir_inv (directory c) \<and>
     (\<forall>a b h. protocol_server_senders c a = Some h \<and> protocol_server_senders c b = Some h
        \<longrightarrow> a = b) \<and>
     (\<forall>a h. protocol_server_senders c a = Some h \<longrightarrow> h < next_chan c) \<and>
     (\<forall>h. h < next_chan c \<longrightarrow>
        (tx_alive (chans c h) \<longleftrightarrow> (\<exists>a. protocol_server_senders c a = Some h))) \<and>
     (\<forall>h. next_chan c \<le> h \<longrightarrow> buffer (chans c h) = [] \<and> \<not> rx_alive (chans c h))"

lemma core_inv_dir [simp, dest]: "core_inv c \<Longrightarrow> dir_inv (directory c)"
  by (simp add: core_inv_def)

lemma core_inv_directory:
  "core_inv c \<Longrightarrow> dir_inv d \<Longrightarrow> core_inv (c\<lparr>directory := d\<rparr>)"
  by (simp add: core_inv_def)

lemma core_inv_irrelevant [simp]:
  "core_inv (c\<lparr>pending_responses := p\<rparr>) = core_inv c"
  "core_inv (c\<lparr>next_msg_id := i\<rparr>) = core_inv c"
  "core_inv (c\<lparr>spawned_timers := ts\<rparr>) = core_inv c"
  by (simp_all add: core_inv_def)

lemma drop_client_inv: "dir_inv d \<Longrightarrow> dir_inv (fst (drop_client cid d))"
  by (metis prod.collapse tree.drop_frame(1))

lemma deregister_inv [core_pres]: "core_inv c \<Longrightarrow> core_inv (snd (deregister_client cid c))"
  unfolding core_inv_def by (auto simp: drop_client_inv split: if_splits)

lemma push_inv [core_pres]:
  "core_inv c \<Longrightarrow> protocol_server_senders c cid = Some h \<Longrightarrow> core_inv (push h p c)"
  unfolding core_inv_def by (simp; metis leD)

lemma deliver_inv [core_pres]:
  "deliver rt cid p c = (r, c') \<Longrightarrow> core_inv c \<Longrightarrow> core_inv c'"
  by (cases rule: deliver_cases [of c cid rt p]) (auto intro: core_pres)

lemma core_serve_inv [core_pres]:
  "core_serve cid p c = returns (r, c') \<Longrightarrow> wf_topic (srv_topic p) \<Longrightarrow> core_inv c \<Longrightarrow> core_inv c'"
  by (auto simp: core_serve_def bus_simps intro!: core_inv_directory dest: tree.clm_frame(1))

lemma core_unserve_inv [core_pres]:
  "core_unserve cid p c = (r, c') \<Longrightarrow> core_inv c \<Longrightarrow> core_inv c'"
  by (auto simp: core_unserve_def intro!: core_inv_directory dest: tree.uncl_frame(1)
      split: prod.splits)

lemma core_request_inv [core_pres]:
  "core_request rt cid i p c = (r, c') \<Longrightarrow> core_inv c \<Longrightarrow> core_inv c'"
  by (auto simp: core_request_def intro: core_pres split: option.splits prod.splits sum.splits)

lemma core_respond_inv [core_pres]:
  "core_respond rt cid p c = (r, c') \<Longrightarrow> core_inv c \<Longrightarrow> core_inv c'"
  by (auto simp: core_respond_def Let_def intro: core_pres
      split: option.splits prod.splits sum.splits if_splits)

lemma core_subscribe_inv [core_pres]:
  "core_subscribe cid p c = returns (r, c') \<Longrightarrow> wf_topic (sub_topic p) \<Longrightarrow> core_inv c \<Longrightarrow>
   core_inv c'"
  by (auto simp: core_subscribe_def bus_simps intro!: core_inv_directory
      dest: tree.sub_frame(1))

lemma core_unsubscribe_inv [core_pres]:
  "core_unsubscribe cid p c = (r, c') \<Longrightarrow> core_inv c \<Longrightarrow> core_inv c'"
  by (auto simp: core_unsubscribe_def intro!: core_inv_directory dest: tree.unsub_frame(1)
      split: prod.splits)

lemma publish_to_inv [core_pres]:
  "publish_to rt p ids c = returns (r, c') \<Longrightarrow> core_inv c \<Longrightarrow> core_inv c'"
  by (induction ids arbitrary: c)
     (auto intro: core_pres split: if_splits prod.splits sum.splits)

lemma core_publish_inv [core_pres]:
  "core_publish rt p c = returns (r, c') \<Longrightarrow> core_inv c \<Longrightarrow> core_inv c'"
  by (auto simp: core_publish_def Let_def bus_simps intro: core_pres)

lemma dispatch_inv [core_pres]:
  "dispatch rt cid i cnt c = returns (r, c') \<Longrightarrow> wf_client_msg (Msg i cnt) \<Longrightarrow> core_inv c \<Longrightarrow>
   core_inv c'"
  by (cases cnt) (auto simp: dispatch_def wf_client_msg_def intro: core_pres)

text \<open>
  \<open>process_msg\<close> is an operation (publish or dispatch) followed by one delivery of the
  acknowledgement; \<open>handled\<close> names the first half.
\<close>

definition handled ::
    "runtime \<Rightarrow> u32 \<Rightarrow> protocol_client msg \<Rightarrow> core \<Rightarrow> (nat option result \<times> core) run" where
  "handled rt cid m c =
     (case content m of
        ClientPub params \<Rightarrow> do {
          (r, c) \<leftarrow> core_publish rt params c;
          returns (case r of Inl e \<Rightarrow> Inl e | Inr n \<Rightarrow> Inr (Some n), c)
        }
      | _ \<Rightarrow> do {
          (r, c) \<leftarrow> dispatch rt cid (mid m) (content m) c;
          returns (case r of Inl e \<Rightarrow> Inl e | Inr _ \<Rightarrow> Inr None, c)
        })"

definition ack_for :: "u32 \<Rightarrow> nat option result \<Rightarrow> ack_msg" where
  "ack_for i result =
     (case result of
        Inr n \<Rightarrow> \<lparr>ack_msg_id = i, ack_err = None, num_recipients = n\<rparr>
      | Inl e \<Rightarrow> \<lparr>ack_msg_id = i, ack_err = Some e, num_recipients = None\<rparr>)"

lemma process_msg_eq:
  "process_msg rt cid m c =
     (case handled rt cid m c of
        None \<Rightarrow> None
      | Some (result, c1) \<Rightarrow>
          Some (Inr (content m = ClientStop),
            snd (deliver rt cid (ServerAck (ack_for (mid m) result)) c1)))"
  by (simp add: process_msg_def handled_def ack_for_def Let_def case_prod_unfold
      split: option.split protocol_client.split sum.split)

lemma handled_inv [core_pres]:
  "handled rt cid m c = returns (r, c') \<Longrightarrow> wf_client_msg m \<Longrightarrow> core_inv c \<Longrightarrow> core_inv c'"
  by (cases m)
     (auto simp: handled_def bus_simps intro: core_pres split: protocol_client.splits)

lemma process_msg_inv [core_pres]:
  "process_msg rt cid m c = returns (r, c') \<Longrightarrow> wf_client_msg m \<Longrightarrow> core_inv c \<Longrightarrow> core_inv c'"
  by (auto simp: process_msg_eq intro: core_pres surjective_pairing split: option.splits)

section \<open>Operations only append to the channels\<close>

definition appends :: "('m \<Rightarrow> bool) \<Rightarrow> 'm msg list \<Rightarrow> 'm msg list \<Rightarrow> bool" where
  "appends P xs ys \<longleftrightarrow> (\<exists>ms. ys = xs @ ms \<and> (\<forall>m \<in> set ms. P (content m)))"

lemma appends_refl [simp]: "appends P xs xs"
  by (simp add: appends_def)

lemma appends_one [simp]: "appends P xs (xs @ [m]) \<longleftrightarrow> P (content m)"
  by (simp add: appends_def)

lemma appends_trans: "appends P xs ys \<Longrightarrow> appends P ys zs \<Longrightarrow> appends P xs zs"
  by (fastforce simp: appends_def)

lemma appends_mono: "appends P xs ys \<Longrightarrow> (\<And>x. P x \<Longrightarrow> Q x) \<Longrightarrow> appends Q xs ys"
  by (auto simp: appends_def)

definition grows :: "(protocol_server \<Rightarrow> bool) \<Rightarrow> core \<Rightarrow> core \<Rightarrow> bool" where
  "grows P c c' \<longleftrightarrow>
     (\<forall>h. appends P (buffer (chans c h)) (buffer (chans c' h))) \<and>
     (\<forall>h. rx_alive (chans c' h) = rx_alive (chans c h)) \<and>
     (\<forall>a. protocol_server_senders c' a = protocol_server_senders c a \<or>
          protocol_server_senders c' a = None \<and> \<not> reachable_client c a) \<and>
     spawned_stubs c' = spawned_stubs c \<and> next_client_id c' = next_client_id c \<and>
     next_chan c' = next_chan c"

lemma grows_refl [simp]: "grows P c c"
  by (simp add: grows_def)

lemma grows_senders: "grows P c c' \<Longrightarrow> protocol_server_senders c' a = Some h \<Longrightarrow>
  protocol_server_senders c a = Some h"
  unfolding grows_def by (metis option.distinct(1))

lemma grows_keeps: "grows P c c' \<Longrightarrow> reachable_client c a \<Longrightarrow>
  protocol_server_senders c' a = protocol_server_senders c a"
  unfolding grows_def by blast

lemma grows_reachable: "grows P c c' \<Longrightarrow> reachable_client c a \<Longrightarrow> reachable_client c' a"
  using grows_keeps [of P c c' a]
  by (cases "protocol_server_senders c a") (simp_all add: grows_def reachable_client_def)

lemma grows_trans:
  assumes "grows P a b" and "grows P b c"
  shows "grows P a c"
proof -
  have "protocol_server_senders c i = protocol_server_senders a i \<or>
      protocol_server_senders c i = None \<and> \<not> reachable_client a i" for i
    using assms grows_reachable [OF assms(1), of i] unfolding grows_def by metis
  moreover have "appends P (buffer (chans a h)) (buffer (chans c h))" for h
    using assms unfolding grows_def by (blast intro: appends_trans)
  ultimately show ?thesis
    using assms by (simp add: grows_def)
qed

lemma grows_mono: "grows P c c' \<Longrightarrow> (\<And>x. P x \<Longrightarrow> Q x) \<Longrightarrow> grows Q c c'"
  unfolding grows_def by (simp, blast intro: appends_mono)

lemma grows_irrelevant [simp]:
  "grows P c (c'\<lparr>pending_responses := x\<rparr>) = grows P c c'"
  "grows P c (c'\<lparr>spawned_timers := ts\<rparr>) = grows P c c'"
  "grows P c (c'\<lparr>directory := d\<rparr>) = grows P c c'"
  "grows P c (c'\<lparr>next_msg_id := i\<rparr>) = grows P c c'"
  "grows P (c\<lparr>pending_responses := x\<rparr>) c' = grows P c c'"
  "grows P (c\<lparr>next_msg_id := i\<rparr>) c' = grows P c c'"
  by (simp_all add: grows_def)

lemma deregister_grows:
  "\<not> reachable_client c cid \<Longrightarrow> grows P c (snd (deregister_client cid c))"
  by (simp add: grows_def)

lemma deliver_grows [core_pres]:
  assumes "deliver rt cid p c = (r, c')" and "P p"
  shows "grows P c c'"
proof (cases rule: deliver_cases [of c cid rt p])
  case (sent h)
  then show ?thesis using assms by (auto simp: grows_def)
next
  case (dead h)
  then have "grows P (bump c) (snd (deregister_client cid (bump c)))"
    by (intro deregister_grows) (simp add: reachable_client_def)
  then show ?thesis using dead assms by simp
next
  case unknown
  then show ?thesis using assms by (auto simp: grows_def)
qed

fun is_ack :: "protocol_server \<Rightarrow> bool" where
  "is_ack (ServerAck _) = True"
| "is_ack _ = False"

abbreviation no_acks :: "core \<Rightarrow> core \<Rightarrow> bool" where
  "no_acks \<equiv> grows (\<lambda>p. \<not> is_ack p)"

lemma publish_to_grows [core_pres]:
  "publish_to rt p ids c = returns (r, c') \<Longrightarrow> P p \<Longrightarrow> grows P c c'"
  by (induction ids arbitrary: c)
     (auto intro: deliver_grows grows_trans split: if_splits prod.splits sum.splits)

lemma handled_no_acks [core_pres]:
  assumes "handled rt cid m c = returns (r, c')"
  shows "no_acks c c'"
proof (cases "content m")
  case (ClientPub pm)
  then show ?thesis using assms
    by (auto simp: handled_def core_publish_def Let_def bus_simps intro: publish_to_grows)
next
  case (ClientReq x)
  then show ?thesis using assms
    by (auto simp: handled_def dispatch_def bus_simps core_request_def
        dest!: deliver_grows [where P = "\<lambda>p. \<not> is_ack p"] split: option.splits prod.splits sum.splits)
next
  case (ClientRsp x)
  then show ?thesis using assms
    by (auto simp: handled_def dispatch_def bus_simps core_respond_def Let_def
        dest!: deliver_grows [where P = "\<lambda>p. \<not> is_ack p"]
        split: option.splits prod.splits sum.splits if_splits)
qed (use assms in \<open>auto simp: handled_def dispatch_def bus_simps core_subscribe_def
      core_unsubscribe_def core_serve_def core_unserve_def split: prod.splits\<close>)

end
