(* ===== verification/Server_Core_Props.thy ===== *)
theory Server_Core_Props
  imports Server_Core_Inv
begin

text \<open>
  What the server core does with one message or one task: construction, publication,
  request and response routing, acknowledgements, deregistration, the kill topic, and
  the invariant over whole runs of the main loop.
\<close>

section \<open>Construction\<close>

definition kill_topic :: topic where
  "kill_topic = \<lparr>protocol = ''bus'', path_of = Path ''kill''\<rparr>"

lemma wf_kill_topic: "wf_topic kill_topic"
  by (auto simp: kill_topic_def wf_topic_def valid_protocol_def wf_path_def path_segments_def
      is_root_def is_word_def word_class_def valid_segment_def PATH_SEPARATOR_def)

lemma display_kill_topic: "display_topic kill_topic = ''bus:kill''"
  by (simp add: kill_topic_def display_topic_def PROTOCOL_SEPARATOR_def)

lemma core_inv_empty: "core_inv empty_core"
  by (simp add: core_inv_def empty_core_def dir_inv_new)

lemma core_new_spec:
  assumes "regex_engine rx"
  obtains d where "core_new rx = returns (empty_core\<lparr>directory := d\<rparr>)" and "dir_inv d"
    and "subs_of d = (\<lambda>u. if u = kill_topic then {0} else {})" and "owner_of d = (\<lambda>u. None)"
proof -
  note topic_from_str_Inr = regex_engine.topic_from_str_Inr [OF assms]
  have "topic_from_str rx ''bus:kill'' = Inr kill_topic"
    using topic_from_str_Inr [of "''bus:kill''" kill_topic] wf_kill_topic display_kill_topic
    by simp
  moreover obtain d where "subscribe 0 kill_topic directory_new = returns d" "dir_inv d"
    "subs_of d = (subs_of directory_new)(kill_topic := insert 0 (subs_of directory_new kill_topic))"
    "owner_of d = owner_of directory_new"
    using tree.sub_law [OF dir_inv_new(1) wf_kill_topic] by blast
  ultimately show ?thesis
    by (intro that [of d]) (auto simp: core_new_def empty_core_def dir_inv_new fun_eq_iff)
qed

section \<open>Publication\<close>

definition gets :: "core \<Rightarrow> u32 set \<Rightarrow> nat \<Rightarrow> bool" where
  \<comment> \<open>the channel belongs to one of the clients\<close>
  "gets c S h \<longleftrightarrow> (\<exists>cid \<in> S. protocol_server_senders c cid = Some h)"

lemma reachable_push [simp]: "reachable_client (push h p c) cid = reachable_client c cid"
  by (simp add: reachable_client_def split: option.split)

lemma gets_push [simp]: "gets (push h p c) S k = gets c S k"
  by (simp add: gets_def)

lemma publish_to_delivers:
  assumes "core_inv c" and "distinct ids" and "\<forall>cid \<in> set ids. cid \<noteq> 0 \<and> reachable_client c cid"
  shows "\<exists>c'. publish_to rt p ids c = returns (Inr (), c') \<and>
     (\<forall>h. map content (buffer (chans c' h)) =
        map content (buffer (chans c h)) @ (if gets c (set ids) h then [p] else [])) \<and>
     directory c' = directory c \<and> pending_responses c' = pending_responses c \<and>
     protocol_server_senders c' = protocol_server_senders c \<and>
     next_msg_id c' = next_msg_id c + of_nat (length ids)"
  using assms
proof (induction ids arbitrary: c)
  case Nil
  then show ?case by (simp add: gets_def)
next
  case (Cons cid ids)
  obtain h where h: "protocol_server_senders c cid = Some h"
    "deliver rt cid p c = (Inr (next_msg_id c), push h p c)"
    using Cons.prems(3) deliver_reachable [of c cid rt p] by auto
  have "core_inv (push h p c)" using Cons.prems(1) h(1) by (rule push_inv)
  then obtain c' where c': "publish_to rt p ids (push h p c) = returns (Inr (), c')"
    and buf: "\<And>k. map content (buffer (chans c' k)) =
      map content (buffer (chans (push h p c) k)) @ (if gets c (set ids) k then [p] else [])"
    and rest: "directory c' = directory c" "pending_responses c' = pending_responses c"
      "protocol_server_senders c' = protocol_server_senders c"
      "next_msg_id c' = next_msg_id c + 1 + of_nat (length ids)"
    using Cons.IH [of "push h p c"] Cons.prems(2,3) by auto
  have "\<not> gets c (set ids) h"
    using Cons.prems(1,2) h(1) by (auto simp: core_inv_def gets_def)
  moreover have "gets c (set (cid # ids)) k \<longleftrightarrow> k = h \<or> gets c (set ids) k" for k
    using h(1) by (auto simp: gets_def)
  ultimately show ?case
    using Cons.prems(3) h(2) c' buf rest by auto
qed

lemma publish_delivers_lemma:
  assumes "core_inv c" and "hash_iteration (hash_order rt)"
    and "\<forall>cid \<in> matching (directory c) (pub_topic p). cid \<noteq> 0 \<and> reachable_client c cid"
  shows "\<exists>c'. core_publish rt p c =
        returns (Inr (card (matching (directory c) (pub_topic p))), c') \<and>
     (\<forall>h. map content (buffer (chans c' h)) = map content (buffer (chans c h)) @
        (if gets c (matching (directory c) (pub_topic p)) h then [ServerPub p] else [])) \<and>
     directory c' = directory c \<and> pending_responses c' = pending_responses c \<and>
     protocol_server_senders c' = protocol_server_senders c"
proof -
  note distinct_ord = hash_iteration.distinct_ord [OF assms(2)]
    and set_ord = hash_iteration.set_ord [OF assms(2)]
    and length_ord = hash_iteration.length_ord [OF assms(2)]
  let ?S = "matching (directory c) (pub_topic p)"
  have fin: "finite ?S" using assms(1) by (auto intro: finite_matching)
  have "\<forall>cid \<in> set (hash_order rt ?S). cid \<noteq> 0 \<and> reachable_client c cid"
    using assms(3) by (simp add: set_ord [OF fin])
  then obtain c' where c': "publish_to rt (ServerPub p) (hash_order rt ?S) c = returns (Inr (), c')"
    and rest: "\<forall>h. map content (buffer (chans c' h)) = map content (buffer (chans c h)) @
        (if gets c ?S h then [ServerPub p] else [])"
      "directory c' = directory c" "pending_responses c' = pending_responses c"
      "protocol_server_senders c' = protocol_server_senders c"
    using publish_to_delivers [OF assms(1) distinct_ord [OF fin], of rt "ServerPub p"]
    by (auto simp: set_ord [OF fin])
  have "core_publish rt p c = returns (Inr (card ?S), c')"
    using c' by (simp add: core_publish_def Let_def get_subscribers_eq length_ord [OF fin])
  with rest show ?thesis by blast
qed

section \<open>The kill topic\<close>

lemma publish_to_panics: "publish_to rt p ids c = panic \<Longrightarrow> 0 \<in> set ids"
  by (induction ids arbitrary: c) (auto split: if_splits prod.splits sum.splits)

lemma publish_to_kill:
  "0 \<in> set ids \<Longrightarrow> \<forall>cid \<in> set ids. cid \<noteq> 0 \<longrightarrow> reachable_client c cid \<Longrightarrow>
   publish_to rt p ids c = panic"
proof (induction ids arbitrary: c)
  case (Cons cid ids)
  show ?case
  proof (cases "cid = 0")
    case False
    then obtain h where "deliver rt cid p c = (Inr (next_msg_id c), push h p c)"
      using Cons.prems(2) deliver_reachable [of c cid rt p] by auto
    then show ?thesis using False Cons.IH [of "push h p c"] Cons.prems by simp
  qed simp
qed simp

lemma dispatch_total:
  assumes "core_inv c" and "wf_client_msg (Msg i cnt)" and "\<And>pm. cnt \<noteq> ClientPub pm"
  shows "\<exists>r c'. dispatch rt cid i cnt c = returns (r, c')"
proof (cases cnt)
  case (ClientSub m)
  then show ?thesis using assms tree.sub_law [of "directory c" "sub_topic m" cid]
    by (force simp: dispatch_def core_subscribe_def wf_client_msg_def)
next
  case (ClientSrv m)
  then show ?thesis using assms tree.clm_law [of "directory c" "srv_topic m" cid]
    by (force simp: dispatch_def core_serve_def wf_client_msg_def)
qed (use assms in \<open>auto simp: dispatch_def\<close>)

lemma process_msg_panics:
  assumes "core_inv c" and "wf_client_msg m" and "hash_iteration (hash_order rt)"
    and "process_msg rt cid m c = panic"
  shows "\<exists>pm. content m = ClientPub pm \<and> 0 \<in> matching (directory c) (pub_topic pm)"
proof -
  note set_ord = hash_iteration.set_ord [OF assms(3)]
  have "handled rt cid m c = panic"
    using assms(4) by (auto simp: process_msg_eq split: option.splits)
  moreover have "\<exists>pm. content m = ClientPub pm"
  proof (rule ccontr)
    assume "\<nexists>pm. content m = ClientPub pm"
    then obtain r c' where "dispatch rt cid (mid m) (content m) c = returns (r, c')"
      using dispatch_total [OF assms(1), of "mid m" "content m" rt cid] assms(2)
      by (cases m) auto
    with \<open>handled rt cid m c = panic\<close> \<open>\<nexists>pm. content m = ClientPub pm\<close> show False
      by (auto simp: handled_def split: protocol_client.splits)
  qed
  ultimately obtain pm where pm: "content m = ClientPub pm"
    and "core_publish rt pm c = panic"
    by (auto simp: handled_def bind_run_eq_panic)
  then have "0 \<in> set (hash_order rt (matching (directory c) (pub_topic pm)))"
    by (auto simp: core_publish_def Let_def get_subscribers_eq bind_run_eq_panic
        dest: publish_to_panics)
  then show ?thesis using pm assms(1) set_ord finite_matching by auto
qed

section \<open>Acknowledgements\<close>

fun ack_in :: "protocol_server \<Rightarrow> ack_msg option" where
  "ack_in (ServerAck a) = Some a"
| "ack_in _ = None"

definition acks_of :: "protocol_server msg list \<Rightarrow> ack_msg list" where
  "acks_of ms = List.map_filter (\<lambda>m. ack_in (content m)) ms"

lemma acks_of_append [simp]: "acks_of (xs @ ys) = acks_of xs @ acks_of ys"
  by (simp add: acks_of_def List.map_filter_def)

lemma acks_of_one [simp]: "acks_of [Msg i (ServerAck a)] = [a]"
  by (simp add: acks_of_def List.map_filter_def)

lemma acks_of_Nil [simp]: "acks_of [] = []"
  by (simp add: acks_of_def List.map_filter_def)

lemma acks_of_no_acks:
  assumes "appends (\<lambda>p. \<not> is_ack p) xs ys"
  shows "acks_of ys = acks_of xs"
proof -
  obtain ms where ms: "ys = xs @ ms" "\<forall>m \<in> set ms. \<not> is_ack (content m)"
    using assms by (auto simp: appends_def)
  have "ack_in p = None" if "\<not> is_ack p" for p using that by (cases p) auto
  then have "acks_of ms = []"
    using ms(2) by (auto simp: acks_of_def List.map_filter_def filter_empty_conv)
  with ms(1) show ?thesis by simp
qed

lemma ack_for_simps [simp]:
  "ack_msg_id (ack_for i r) = i"
  "ack_err (ack_for i r) = (case r of Inl e \<Rightarrow> Some e | Inr _ \<Rightarrow> None)"
  by (auto simp: ack_for_def split: sum.split)

lemma process_msg_acks:
  assumes "process_msg rt cid m c = returns (r, c')" and "protocol_server_senders c cid = Some h"
    and "rx_alive (chans c h)"
  shows "\<exists>res c1. handled rt cid m c = returns (res, c1) \<and> r = Inr (content m = ClientStop) \<and>
     c' = push h (ServerAck (ack_for (mid m) res)) c1 \<and> no_acks c c1 \<and>
     protocol_server_senders c1 cid = Some h"
proof -
  obtain res c1 where h1: "handled rt cid m c = returns (res, c1)"
    and c': "r = Inr (content m = ClientStop)"
      "c' = snd (deliver rt cid (ServerAck (ack_for (mid m) res)) c1)"
    using assms(1) by (auto simp: process_msg_eq split: option.splits)
  have g: "no_acks c c1" using h1 by (rule handled_no_acks)
  have "reachable_client c cid" using assms(2,3) by (simp add: reachable_client_def)
  with g have "reachable_client c1 cid" "protocol_server_senders c1 cid = Some h"
    using assms(2) by (auto dest: grows_keeps grows_reachable)
  with c' deliver_reachable [of c1 cid rt "ServerAck (ack_for (mid m) res)"]
  have "c' = push h (ServerAck (ack_for (mid m) res)) c1" by auto
  with h1 g c'(1) \<open>protocol_server_senders c1 cid = Some h\<close> show ?thesis by blast
qed

lemma process_msg_acks_buffers:
  assumes "process_msg rt cid m c = returns (r, c')" and "protocol_server_senders c cid = Some h"
    and "rx_alive (chans c h)"
  shows "r = Inr (content m = ClientStop) \<and> (\<exists>a. ack_msg_id a = mid m \<and>
      acks_of (buffer (chans c' h)) = acks_of (buffer (chans c h)) @ [a] \<and>
      content (last (buffer (chans c' h))) = ServerAck a) \<and>
    (\<forall>k. k \<noteq> h \<longrightarrow> acks_of (buffer (chans c' k)) = acks_of (buffer (chans c k)))"
proof -
  obtain res c1 where c': "r = Inr (content m = ClientStop)"
      "c' = push h (ServerAck (ack_for (mid m) res)) c1" and g: "no_acks c c1"
    using process_msg_acks [OF assms] by blast
  have same: "acks_of (buffer (chans c1 k)) = acks_of (buffer (chans c k))" for k
    using g by (simp add: grows_def acks_of_no_acks)
  show ?thesis using c' by (auto simp: same)
qed

section \<open>Requests and responses\<close>

lemma core_request_sends:
  assumes "get_owner (req_topic p) (directory c) = Some s"
    and "protocol_server_senders c s = Some h" and "rx_alive (chans c h)"
  shows "core_request rt cid i p c = (Inr (),
     (push h (ServerReq p) c)\<lparr>
       pending_responses := (pending_responses c)(next_msg_id c \<mapsto>
         \<lparr>pr_request_id = i, pr_responder_id = s, pr_requester_id = cid\<rparr>),
       spawned_timers := spawned_timers c @ [next_msg_id c]\<rparr>)"
proof -
  have "reachable_client c s" using assms by (simp add: reachable_client_def)
  then have "deliver rt s (ServerReq p) c = (Inr (next_msg_id c), push h (ServerReq p) c)"
    using deliver_reachable [of c s rt "ServerReq p"] assms(2) by auto
  then show ?thesis using assms(1) by (simp add: core_request_def)
qed

lemma core_request_unserved:
  "get_owner (req_topic p) (directory c) = None \<Longrightarrow>
   core_request rt cid i p c = (Inl (ServiceNotFound (req_topic p)), c)"
  by (simp add: core_request_def)

lemma core_respond_sends:
  assumes "pending_responses c (rsp_req_id p) = Some pr"
    and "cid = 0 \<or> cid = pr_responder_id pr"
    and "protocol_server_senders c (pr_requester_id pr) = Some h" and "rx_alive (chans c h)"
  shows "core_respond rt cid p c = (Inr (),
     push h (ServerRsp \<lparr>rsp_req_id = pr_request_id pr, rsp_status = rsp_status p,
                         rsp_payload = rsp_payload p\<rparr>)
       (c\<lparr>pending_responses := (pending_responses c)(rsp_req_id p := None)\<rparr>))"
proof -
  let ?c = "c\<lparr>pending_responses := (pending_responses c)(rsp_req_id p := None)\<rparr>"
  have "reachable_client ?c (pr_requester_id pr)" using assms by (simp add: reachable_client_def)
  then show ?thesis
    using deliver_reachable [of ?c "pr_requester_id pr" rt] assms
    by (fastforce simp: core_respond_def Let_def)
qed

lemma core_respond_refused:
  assumes "\<forall>pr. pending_responses c (rsp_req_id p) = Some pr \<longrightarrow>
     cid \<noteq> 0 \<and> cid \<noteq> pr_responder_id pr"
  shows "core_respond rt cid p c = (Inl InvalidRequestId, c)"
  using assms by (auto simp: core_respond_def split: option.split)

end
