(* ===== verification/Server_Core_Run.thy ===== *)
theory Server_Core_Run
  imports Server_Core_Props
begin

text \<open>
  Whole runs of the server core's main loop: the invariant over \<open>core_run\<close>, what can stop
  the loop, and when it can panic. What a client holds, its
  subscriptions and services, changes by its own messages only; so the pseudo client 0 is
  only ever subscribed to \<open>bus:kill\<close>.
\<close>

section \<open>One task\<close>

lemma register_fields [simp]:
  "fst (register_client n c) = Inr ()"
  "protocol_server_senders (snd (register_client n c)) =
     (protocol_server_senders c)(next_client_id c \<mapsto> next_chan c)"
  "directory (snd (register_client n c)) = directory c"
  "next_client_id (snd (register_client n c)) = next_client_id c + 1"
  "next_msg_id (snd (register_client n c)) = next_msg_id c"
  "pending_responses (snd (register_client n c)) = pending_responses c"
  "next_chan (snd (register_client n c)) = next_chan c + 1"
  "spawned_stubs (snd (register_client n c)) = spawned_stubs c @
     [\<lparr>stub_id = next_client_id c, stub_transport = n, stub_receiver = next_chan c\<rparr>]"
  "spawned_timers (snd (register_client n c)) = spawned_timers c"
  "buffer (chans (snd (register_client n c)) h) =
     (if h = next_chan c then [] else buffer (chans c h))"
  "rx_alive (chans (snd (register_client n c)) h) \<longleftrightarrow> h = next_chan c \<or> rx_alive (chans c h)"
  by (auto simp: register_client_def drop_sender_def new_chan_def Let_def fun_eq_iff
      split: option.split)

lemma register_tx:
  assumes "core_inv c"
  shows "tx_alive (chans (snd (register_client n c)) h) \<longleftrightarrow>
     h = next_chan c \<or>
     (tx_alive (chans c h) \<and> protocol_server_senders c (next_client_id c) \<noteq> Some h)"
proof -
  have "protocol_server_senders c a \<noteq> Some (next_chan c)" for a
    using assms by (auto simp: core_inv_def)
  then show ?thesis
    by (auto simp: register_client_def drop_sender_def new_chan_def Let_def split: option.split)
qed

lemma register_inv [core_pres]:
  assumes "core_inv c"
  shows "core_inv (snd (register_client n c))"
proof -
  have fresh: "protocol_server_senders c a \<noteq> Some (next_chan c)" for a
    using assms by (auto simp: core_inv_def)
  show ?thesis
    using assms fresh unfolding core_inv_def
    by (auto simp: register_tx [OF assms] less_Suc_eq split: if_splits; metis)
qed

fun wf_event :: "core_event \<Rightarrow> bool" where
  \<comment> \<open>a message reaches the core with valid topics only\<close>
  "wf_event (Task (Message cid m)) = wf_client_msg m"
| "wf_event _ = True"

lemma process_task_inv [core_pres]:
  assumes "process_task rt t c = returns (r, c')" and "wf_event (Task t)" and "core_inv c"
  shows "core_inv c'"
proof (cases t)
  case (Register n)
  then show ?thesis using assms register_inv [of c n]
    by (auto simp: process_task_def split: prod.splits sum.splits)
next
  case (Deregister cid)
  then show ?thesis using assms deregister_inv [of c cid]
    by (auto simp: process_task_def split: prod.splits sum.splits)
next
  case (Message cid m)
  then show ?thesis using assms by (auto simp: process_task_def intro: process_msg_inv)
next
  case (RequestTimeout i)
  then show ?thesis using assms
    by (auto simp: process_task_def intro: core_respond_inv split: prod.splits sum.splits)
qed

lemma core_run_cases:
  obtains (panicked) "process_task rt t c = panic" "core_run rt (Task t # es) c = (Panicked, c)"
  | (failed) e c' where "process_task rt t c = returns (Inl e, c')"
      "core_run rt (Task t # es) c = (Stopped (Inl e), c')"
  | (stopped) c' where "process_task rt t c = returns (Inr True, c')"
      "core_run rt (Task t # es) c = (Stopped (Inr ()), c')"
  | (goes_on) c' where "process_task rt t c = returns (Inr False, c')"
      "core_run rt (Task t # es) c = core_run rt es c'"
proof (cases "process_task rt t c")
  case None
  then show ?thesis by (intro panicked) simp_all
next
  case (Some rc)
  obtain r c' where rc: "rc = (r, c')" by (cases rc)
  show ?thesis
  proof (cases r)
    case (Inl e)
    with Some rc show ?thesis by (intro failed) simp_all
  next
    case (Inr b)
    with Some rc stopped goes_on show ?thesis by (cases b) simp_all
  qed
qed

lemma core_run_inv_lemma:
  "\<forall>e \<in> set es. wf_event e \<Longrightarrow> core_inv c \<Longrightarrow> core_inv (snd (core_run rt es c))"
proof (induction es arbitrary: c)
  case (Cons e es)
  show ?case
  proof (cases e)
    case (Task t)
    then have wf: "wf_event (Task t)" using Cons.prems(1) by simp
    show ?thesis unfolding Task
      by (cases rule: core_run_cases [of rt t c es])
         (use Cons wf in \<open>auto intro: process_task_inv\<close>)
  qed (use Cons.prems in simp_all)
qed simp

text \<open>The core as a transition system: a new core, one task at a time.\<close>

inductive core_step :: "core \<Rightarrow> core \<Rightarrow> bool" where
  "process_task rt t c = returns (r, c') \<Longrightarrow> wf_event (Task t) \<Longrightarrow> core_step c c'"

inductive_cases core_stepE: "core_step c c'"

interpretation core_system: transition_system
  "\<lambda>c. core_new deriv_match = returns c" core_step core_inv
proof unfold_locales
  show "core_inv c" if "core_new deriv_match = returns c" for c
    using core_new_spec [OF deriv_engine.regex_engine_axioms] that core_inv_directory [OF core_inv_empty]
    by (metis option.inject)
  show "core_inv c'" if "core_step c c'" "core_inv c" for c c'
    using that by (auto elim!: core_stepE intro: process_task_inv)
qed

section \<open>What stops the loop\<close>

lemma process_msg_result:
  "process_msg rt cid m c = returns (r, c') \<Longrightarrow> r = Inr (content m = ClientStop)"
  by (auto simp: process_msg_eq split: option.splits)

lemma process_task_error:
  "process_task rt t c = returns (Inl e, c') \<Longrightarrow> \<exists>i. t = RequestTimeout i"
  by (cases t)
     (auto simp: process_task_def prod.case_eq_if dest: process_msg_result split: sum.splits
       dest!: arg_cong [where f = fst])

lemma process_task_stop:
  "process_task rt t c = returns (Inr True, c') \<Longrightarrow> \<exists>cid m. t = Message cid m \<and> content m = ClientStop"
  by (cases t)
     (auto simp: process_task_def dest: process_msg_result split: sum.splits prod.splits)

fun stops_loop :: "core_event \<Rightarrow> bool" where
  "stops_loop (Task (Message _ m)) = (content m = ClientStop)"
| "stops_loop (Task _) = False"
| "stops_loop _ = True"

definition stop_reason :: "core_event list \<Rightarrow> unit result \<Rightarrow> bool" where
  "stop_reason es r \<longleftrightarrow>
     (case r of
        Inl _ \<Rightarrow> \<exists>i. Task (RequestTimeout i) \<in> set es
      | Inr _ \<Rightarrow> \<exists>e \<in> set es. stops_loop e)"

lemma stop_reason_Cons: "stop_reason es r \<Longrightarrow> stop_reason (e # es) r"
  by (auto simp: stop_reason_def split: sum.splits)

lemma core_run_stop_reason: "core_run rt es c = (Stopped r, c') \<Longrightarrow> stop_reason es r"
proof (induction es arbitrary: c)
  case (Cons e es)
  show ?case
  proof (cases e)
    case (Task t)
    show ?thesis
    proof (cases rule: core_run_cases [of rt t c es])
      case (failed e' c1)
      then show ?thesis using Cons.prems Task process_task_error [of rt t c e' c1]
        by (auto simp: stop_reason_def)
    next
      case (stopped c1)
      then show ?thesis using Cons.prems Task process_task_stop [of rt t c c1]
        by (auto simp: stop_reason_def)
    qed (use Cons Task in \<open>auto intro: stop_reason_Cons\<close>)
  qed (use Cons.prems in \<open>auto simp: stop_reason_def\<close>)
qed simp

section \<open>What a client holds\<close>

definition holdings :: "u32 \<Rightarrow> core \<Rightarrow> topic set \<times> topic set" where
  \<comment> \<open>what a client is subscribed to and what it serves\<close>
  "holdings a c = ({u. a \<in> subs_of (directory c) u}, {u. owner_of (directory c) u = Some a})"

lemma holdings_irrelevant [simp]:
  "holdings a (c\<lparr>pending_responses := x\<rparr>) = holdings a c"
  "holdings a (c\<lparr>spawned_timers := ts\<rparr>) = holdings a c"
  "holdings a (c\<lparr>next_msg_id := i\<rparr>) = holdings a c"
  "holdings a (push h p c) = holdings a c"
  by (simp_all add: holdings_def)

lemma holdings_deregister:
  "core_inv c \<Longrightarrow> a \<noteq> cid \<Longrightarrow> holdings a (snd (deregister_client cid c)) = holdings a c"
  using tree.drop_frame(4,5) [of "directory c" cid "fst (drop_client cid (directory c))"
      "snd (drop_client cid (directory c))"]
  by (auto simp: holdings_def)

text \<open>
  An operation changes nothing of what a client holds as long as it does not lose the client.
\<close>

lemma deliver_holdings:
  assumes "deliver rt cid p c = (r, c')" and "core_inv c"
    and "protocol_server_senders c' a = protocol_server_senders c a"
  shows "holdings a c' = holdings a c"
proof (cases rule: deliver_cases [of c cid rt p])
  case (dead h)
  then have "a \<noteq> cid" using assms by auto
  then show ?thesis using dead assms holdings_deregister [of "bump c" a cid] by auto
qed (use assms in auto)

lemma grows_between:
  assumes "grows P a b" and "grows Q b c" and "protocol_server_senders c i = protocol_server_senders a i"
  shows "protocol_server_senders b i = protocol_server_senders a i"
    "protocol_server_senders c i = protocol_server_senders b i"
  using assms unfolding grows_def by metis+

lemma publish_to_holdings:
  "publish_to rt p ids c = returns (r, c') \<Longrightarrow> core_inv c \<Longrightarrow>
   protocol_server_senders c' a = protocol_server_senders c a \<Longrightarrow> holdings a c' = holdings a c"
proof (induction ids arbitrary: c)
  case (Cons cid ids)
  obtain r1 c1 where d: "deliver rt cid p c = (r1, c1)" by fastforce
  have g: "grows (\<lambda>_. True) c c1" using d by (rule deliver_grows) simp
  have "grows (\<lambda>_. True) c1 c'"
    using Cons.prems(1) d by (auto intro: publish_to_grows split: if_splits sum.splits)
  note s = grows_between [OF g this Cons.prems(3)]
  have "core_inv c1" using d Cons.prems(2) by (rule deliver_inv)
  then have "holdings a c' = holdings a c1" using Cons d s by (auto split: if_splits sum.splits)
  then show ?case using deliver_holdings [OF d Cons.prems(2) s(1)] by simp
qed simp

lemma core_request_holdings:
  "core_request rt cid i p c = (r, c') \<Longrightarrow> core_inv c \<Longrightarrow>
   protocol_server_senders c' a = protocol_server_senders c a \<Longrightarrow> holdings a c' = holdings a c"
  by (auto simp: core_request_def dest: deliver_holdings split: option.splits prod.splits sum.splits)

lemma core_respond_holdings:
  "core_respond rt cid p c = (r, c') \<Longrightarrow> core_inv c \<Longrightarrow>
   protocol_server_senders c' a = protocol_server_senders c a \<Longrightarrow> holdings a c' = holdings a c"
  by (auto simp: core_respond_def Let_def dest!: deliver_holdings
      split: option.splits prod.splits sum.splits if_splits)

fun obey :: "protocol_client \<Rightarrow> topic set \<times> topic set \<Rightarrow> topic set \<times> topic set" where
  \<comment> \<open>what a granted message makes of its sender's holdings; no service has a wildcard\<close>
  "obey (ClientSub p) (S, V) = (insert (sub_topic p) S, V)"
| "obey (ClientUnsub p) (S, V) = (S - {unsub_topic p}, V)"
| "obey (ClientSrv p) (S, V) = (S, if topic_wild (srv_topic p) then V else insert (srv_topic p) V)"
| "obey (ClientUnsrv p) (S, V) = (S, if topic_wild (unsrv_topic p) then V else V - {unsrv_topic p})"
| "obey _ v = v"

lemma obey_other [simp]:
  "obey (ClientPub p) v = v" "obey (ClientReq q) v = v" "obey (ClientRsp r) v = v"
  "obey ClientStop v = v" "obey ClientKeepAlive v = v"
  by (cases v; simp)+

lemma handled_holdings:
  assumes "handled rt cid m c = returns (r, c')" and "core_inv c" and "wf_client_msg m"
    and "protocol_server_senders c' a = protocol_server_senders c a"
  shows "holdings a c' =
    (if a = cid \<and> (\<exists>n. r = Inr n) then obey (content m) (holdings a c) else holdings a c)"
proof (cases "content m")
  case (ClientSub p)
  with assms(3) have "wf_topic (sub_topic p)" by (simp add: wf_client_msg_def)
  from tree.sub_frame(3,4) [OF core_inv_dir [OF assms(2)] this] ClientSub assms(1)
  show ?thesis
    by (auto simp: handled_def dispatch_def bus_simps core_subscribe_def holdings_def split: if_splits)
next
  case (ClientSrv p)
  with assms(3) have wf: "wf_topic (srv_topic p)" by (simp add: wf_client_msg_def)
  obtain d where d: "claim cid (srv_topic p) (directory c) = returns (claim_result cid (srv_topic p) (directory c), d)"
    "\<And>u. owner_of d u = (if u = srv_topic p \<and> claim_result cid (srv_topic p) (directory c) = Inr ()
      then Some cid else owner_of (directory c) u)" "\<And>u. subs_of d u = subs_of (directory c) u"
    by (rule claim_spec [OF core_inv_dir [OF assms(2)] wf]) (rule that)
  then show ?thesis
    using ClientSrv assms(1)
    by (auto simp: handled_def dispatch_def bus_simps core_serve_def holdings_def claim_result_def
        split: if_splits)
next
  case (ClientUnsub p)
  obtain d where "unsubscribe cid (unsub_topic p) (directory c) = (Inr (), d)"
    "\<And>u. subs_of d u = (if u = unsub_topic p then subs_of (directory c) (unsub_topic p) - {cid}
      else subs_of (directory c) u)" "\<And>u. owner_of d u = owner_of (directory c) u"
    by (rule unsubscribe_spec [OF core_inv_dir [OF assms(2)]]) (rule that)
  then show ?thesis
    using ClientUnsub assms(1)
    by (auto simp: handled_def dispatch_def bus_simps core_unsubscribe_def holdings_def split: if_splits)
next
  case (ClientUnsrv p)
  obtain q d where d: "unclaim cid (unsrv_topic p) (directory c) = (q, d)"
    "q = Inr () \<or> q = Inl ClaimWildcardNotSupported \<and> topic_wild (unsrv_topic p)"
    "\<And>u. owner_of d u = (if u = unsrv_topic p \<and> \<not> topic_wild (unsrv_topic p) \<and>
        owner_of (directory c) (unsrv_topic p) = Some cid then None else owner_of (directory c) u)"
    "\<And>u. subs_of d u = subs_of (directory c) u"
    by (rule unclaim_spec [OF core_inv_dir [OF assms(2)]]) (rule that)
  then show ?thesis
    using ClientUnsrv assms(1)
    by (auto simp: handled_def dispatch_def bus_simps core_unserve_def holdings_def split: if_splits)
next
  case (ClientPub p)
  then show ?thesis using assms
    by (auto simp: handled_def core_publish_def Let_def bus_simps dest: publish_to_holdings)
next
  case (ClientReq p)
  then show ?thesis using assms
    by (auto simp: handled_def dispatch_def bus_simps dest: core_request_holdings split: prod.splits)
next
  case (ClientRsp p)
  then show ?thesis using assms
    by (auto simp: handled_def dispatch_def bus_simps dest: core_respond_holdings split: prod.splits)
next
  case ClientStop
  then have "c' = c" using assms(1) by (simp add: handled_def dispatch_def bus_simps)
  then show ?thesis using ClientStop by simp
next
  case ClientKeepAlive
  then have "c' = c" using assms(1) by (simp add: handled_def dispatch_def bus_simps)
  then show ?thesis using ClientKeepAlive by simp
qed

lemma process_msg_holdings:
  assumes "process_msg rt cid m c = returns (r, c')" and "core_inv c" and "wf_client_msg m"
    and "protocol_server_senders c' a = protocol_server_senders c a"
  obtains res c1 where "handled rt cid m c = returns (res, c1)" and "no_acks c c1"
    and "c' = snd (deliver rt cid (ServerAck (ack_for (mid m) res)) c1)"
    and "protocol_server_senders c1 a = protocol_server_senders c a"
    and "holdings a c' =
      (if a = cid \<and> (\<exists>n. res = Inr n) then obey (content m) (holdings a c) else holdings a c)"
proof -
  obtain res c1 q where h: "handled rt cid m c = returns (res, c1)"
    and d: "deliver rt cid (ServerAck (ack_for (mid m) res)) c1 = (q, c')"
    using assms(1) by (auto simp: process_msg_eq prod_eq_iff split: option.splits)
  have g: "no_acks c c1" using h by (rule handled_no_acks)
  have "grows (\<lambda>_. True) c1 c'" using d by (rule deliver_grows) simp
  note s = grows_between [OF g this assms(4)]
  have "core_inv c1" using h assms(3,2) by (rule handled_inv)
  then have "holdings a c' = holdings a c1" by (rule deliver_holdings [OF d _ s(2)])
  then show ?thesis
    using that [OF h g _ s(1)] handled_holdings [OF h assms(2,3) s(1)] d by simp
qed

section \<open>The pseudo client 0 and the kill topic\<close>

definition kill_inv :: "core \<Rightarrow> bool" where
  "kill_inv c \<longleftrightarrow> (\<forall>u. 0 \<in> subs_of (directory c) u \<longleftrightarrow> u = kill_topic) \<and>
     protocol_server_senders c 0 = None"

lemma kill_inv_matching:
  "core_inv c \<Longrightarrow> kill_inv c \<Longrightarrow> 0 \<in> matching (directory c) t \<longleftrightarrow> topic_overlap kill_topic t"
  by (simp add: matching_eq kill_inv_def)

fun foreign :: "core_event \<Rightarrow> bool" where
  \<comment> \<open>the event does not act for the pseudo client 0\<close>
  "foreign (Task (Message cid _)) = (cid \<noteq> 0)"
| "foreign (Task (Deregister cid)) = (cid \<noteq> 0)"
| "foreign _ = True"

fun registrations :: "core_event list \<Rightarrow> nat" where
  "registrations [] = 0"
| "registrations (Task (Register _) # es) = Suc (registrations es)"
| "registrations (_ # es) = registrations es"

lemma kill_inv_same:
  "kill_inv c \<Longrightarrow> holdings 0 c' = holdings 0 c \<Longrightarrow> protocol_server_senders c' 0 = None \<Longrightarrow> kill_inv c'"
  unfolding kill_inv_def holdings_def prod.inject set_eq_iff mem_Collect_eq by blast

lemma grows_no_sender: "grows P c c' \<Longrightarrow> protocol_server_senders c a = None \<Longrightarrow> protocol_server_senders c' a = None"
  using grows_senders [of P c c' a] by (metis not_None_eq)

lemma core_respond_grows: "core_respond rt cid p c = (r, c') \<Longrightarrow> no_acks c c'"
  by (auto simp: core_respond_def Let_def dest!: deliver_grows [where P = "\<lambda>p. \<not> is_ack p"]
      split: option.splits prod.splits sum.splits if_splits)

lemma process_task_grows:
  assumes "process_task rt t c = returns (r, c')" and "\<forall>n. t \<noteq> Register n" and "\<forall>a. t \<noteq> Deregister a"
  shows "grows (\<lambda>_. True) c c'"
proof (cases t)
  case (Message cid m)
  then obtain q c1 where h: "handled rt cid m c = returns (q, c1)"
    and c': "c' = snd (deliver rt cid (ServerAck (ack_for (mid m) q)) c1)"
    using assms(1) by (auto simp: process_task_def process_msg_eq split: option.splits)
  have "grows (\<lambda>_. True) c c1" using handled_no_acks [OF h] by (rule grows_mono) simp
  moreover have "grows (\<lambda>_. True) c1 c'"
    using deliver_grows [of rt cid _ c1 _ c' "\<lambda>_. True"] c' by (metis prod.collapse)
  ultimately show ?thesis by (rule grows_trans)
next
  case (RequestTimeout i)
  then obtain q p where "core_respond rt 0 p c = (q, c')"
    using assms(1) by (auto simp: process_task_def split: prod.splits sum.splits)
  then have "no_acks c c'" by (rule core_respond_grows)
  then show ?thesis by (rule grows_mono) simp
qed (use assms(2,3) in simp_all)

lemma process_task_ids:
  assumes "process_task rt t c = returns (r, c')"
  shows "next_client_id c' =
     next_client_id c + of_nat (registrations [Task t])"
proof (cases "(\<exists>n. t = Register n) \<or> (\<exists>i. t = Deregister i)")
  case True
  then show ?thesis using assms by (auto simp: process_task_def prod.case_eq_if)
next
  case False
  then have "grows (\<lambda>_. True) c c'" using process_task_grows [OF assms] by blast
  then show ?thesis using False by (cases t) (simp_all add: grows_def)
qed

lemma process_task_kill:
  assumes "process_task rt t c = returns (r, c')" and "core_inv c" and "kill_inv c"
    and "wf_event (Task t)" and "foreign (Task t)" and "next_client_id c \<noteq> 0"
  shows "kill_inv c'"
proof (cases t)
  case (Register n)
  then have "c' = snd (register_client n c)"
    using assms(1) by (simp add: process_task_def prod.case_eq_if)
  then show ?thesis using assms(3,6) by (simp add: kill_inv_def)
next
  case (Deregister cid)
  then have "c' = snd (deregister_client cid c)" "cid \<noteq> 0"
    using assms(1,5) by (simp_all add: process_task_def prod.case_eq_if)
  then have "holdings 0 c' = holdings 0 c" "protocol_server_senders c' 0 = None"
    using assms(2,3) holdings_deregister [of c 0 cid] by (simp_all add: kill_inv_def)
  then show ?thesis by (rule kill_inv_same [OF assms(3)])
next
  case (Message cid m)
  then have p: "process_msg rt cid m c = returns (r, c')" and "cid \<noteq> 0" "wf_client_msg m"
    using assms(1,4,5) by (simp_all add: process_task_def)
  obtain res c1 where h: "handled rt cid m c = returns (res, c1)"
    and c': "c' = snd (deliver rt cid (ServerAck (ack_for (mid m) res)) c1)"
    using p by (auto simp: process_msg_eq split: option.splits)
  have "protocol_server_senders c1 0 = None"
    using assms(3) grows_no_sender [OF handled_no_acks [OF h]] by (simp add: kill_inv_def)
  then have none: "protocol_server_senders c' 0 = None"
    using grows_no_sender [OF deliver_grows [OF prod.collapse [symmetric], of "\<lambda>_. True"]] c' by simp
  then have "protocol_server_senders c' 0 = protocol_server_senders c 0"
    using assms(3) by (simp add: kill_inv_def)
  from process_msg_holdings [OF p assms(2) \<open>wf_client_msg m\<close> this] have "holdings 0 c' = holdings 0 c"
    using \<open>cid \<noteq> 0\<close> by metis
  then show ?thesis using kill_inv_same [OF assms(3)] none by blast
next
  case (RequestTimeout i)
  then obtain q p where q: "core_respond rt 0 p c = (q, c')"
    using assms(1) by (auto simp: process_task_def split: prod.splits sum.splits)
  have "protocol_server_senders c' 0 = None" "protocol_server_senders c 0 = None"
    using assms(3) grows_no_sender [OF core_respond_grows [OF q]] by (simp_all add: kill_inv_def)
  then show ?thesis
    using core_respond_holdings [OF q assms(2), of 0] kill_inv_same [OF assms(3)] by simp
qed

lemma process_task_panics:
  assumes "process_task rt t c = panic" and "core_inv c" and "wf_event (Task t)"
    and "hash_iteration (hash_order rt)"
  obtains cid m pm where "t = Message cid m" and "content m = ClientPub pm"
    and "0 \<in> matching (directory c) (pub_topic pm)"
proof (cases t)
  case (Message cid m)
  then show ?thesis using assms process_msg_panics [of c m rt cid] that
    by (auto simp: process_task_def)
qed (use assms in \<open>auto simp: process_task_def prod.case_eq_if split: sum.splits\<close>)

fun pub_topic_of :: "core_event \<Rightarrow> topic option" where
  "pub_topic_of (Task (Message _ m)) =
     (case content m of ClientPub pm \<Rightarrow> Some (pub_topic pm) | _ \<Rightarrow> None)"
| "pub_topic_of _ = None"

definition kills :: "core_event \<Rightarrow> bool" where
  \<comment> \<open>a publication whose topic overlaps the kill topic\<close>
  "kills e \<longleftrightarrow> (\<exists>t. pub_topic_of e = Some t \<and> topic_overlap kill_topic t)"

lemma core_run_panics_kill:
  assumes "core_run rt es c = (Panicked, c')" and "hash_iteration (hash_order rt)"
    and "core_inv c" and "kill_inv c" and "\<forall>e \<in> set es. wf_event e \<and> foreign e"
    and "next_client_id c = of_nat n" and "0 < n" and "n + registrations es < 2 ^ 32"
  shows "\<exists>e \<in> set es. kills e"
  using assms(1,3-)
proof (induction es arbitrary: c n)
  case (Cons e es)
  show ?case
  proof (cases e)
    case (Task t)
    have nz: "next_client_id c \<noteq> 0"
      using Cons.prems(5-7) by (simp add: word_of_nat_eq_0_iff nat_dvd_not_less)
    have wf: "wf_event (Task t)" "foreign (Task t)" using Cons.prems(4) Task by auto
    show ?thesis
    proof (cases rule: core_run_cases [of rt t c es])
      case panicked
      then obtain cid m pm where "t = Message cid m" "content m = ClientPub pm"
        "0 \<in> matching (directory c) (pub_topic pm)"
        using process_task_panics [OF _ Cons.prems(2) wf(1) assms(2)] by metis
      then show ?thesis
        using Task kill_inv_matching [OF Cons.prems(2,3)] by (auto simp: kills_def)
    next
      case (goes_on c1)
      have "core_inv c1" using goes_on(1) wf(1) Cons.prems(2) by (rule process_task_inv)
      moreover have "kill_inv c1"
        by (rule process_task_kill [OF goes_on(1) Cons.prems(2,3) wf nz])
      moreover have "next_client_id c1 = of_nat (n + registrations [e])"
        using process_task_ids [OF goes_on(1)] Cons.prems(5) Task by simp
      moreover have "registrations (e # es) = registrations [e] + registrations es"
        by (cases t) (auto simp: Task)
      ultimately show ?thesis
        using Cons.IH [of c1 "n + registrations [e]"] Cons.prems Task goes_on(2) by auto
    qed (use Cons.prems Task in auto)
  qed (use Cons.prems in auto)
qed simp

end
