(* ===== verification/Server_Properties.thy ===== *)
theory Server_Properties
  imports Server_Core_Run Directory_Registry
begin

text \<open>
  The properties of the server core, each over the model's own operations from states
  that satisfy the core's invariant. Every theorem with a hypothesis is followed by a
  witness that applies it at a concrete state.
\<close>

section \<open>A concrete core for the witnesses\<close>

definition demo_runtime :: runtime where
  "demo_runtime = \<lparr>hash_order = ascending, send_error_text = ''channel closed'',
     gzip_encode = (\<lambda>d. d)\<rparr>"

definition demo_topic :: topic where
  "demo_topic = \<lparr>protocol = ''p'', path_of = Path ''a''\<rparr>"

definition demo_any :: topic where
  "demo_any = \<lparr>protocol = ''*'', path_of = Path ''**''\<rparr>"

definition demo_payload :: payload where
  "demo_payload = \<lparr>data = [1, 2, 3], is_compressed = False\<rparr>"

definition demo_directory :: directory where
  \<comment> \<open>client 1 subscribes to \<open>p:a\<close>, client 2 serves it\<close>
  "demo_directory =
     (case tree_run [Subscribe 1 demo_topic, Claim 2 demo_topic, Subscribe 0 kill_topic]
        directory_new of Some (_, d) \<Rightarrow> d | None \<Rightarrow> directory_new)"

definition demo_core :: core where
  \<comment> \<open>clients 1 and 2 registered, on channels 0 and 1\<close>
  "demo_core =
     snd (register_client 1 (snd (register_client 0 (empty_core\<lparr>directory := demo_directory\<rparr>))))"

lemma demo_hash: "hash_iteration (hash_order demo_runtime)"
  by (simp add: demo_runtime_def ascending_order.hash_iteration_axioms)

lemma wf_demo_topic: "wf_topic demo_topic"
  by (auto simp: demo_topic_def wf_topic_def valid_protocol_def wf_path_def path_segments_def
      is_root_def is_word_def word_class_def valid_segment_def PATH_SEPARATOR_def)

lemma demo_topic_not_wild: "\<not> topic_wild demo_topic" "demo_topic \<noteq> kill_topic"
  by (auto simp: demo_topic_def kill_topic_def topic_wild_def topic_segments_def
      path_segments_def is_root_def PATH_SEPARATOR_def WILDCARD_def DOUBLE_WILDCARD_def)

lemma demo_registry:
  "registry_of demo_directory =
     \<lparr>reg_subs = (\<lambda>t. if t = demo_topic then {1} else if t = kill_topic then {0} else {}),
      reg_owner = (\<lambda>t. if t = demo_topic then Some 2 else None)\<rparr> \<and> dir_inv demo_directory"
proof -
  let ?cmds = "[Subscribe 1 demo_topic, Claim 2 demo_topic, Subscribe 0 kill_topic]"
  have wf: "\<forall>x \<in> set ?cmds. wf_cmd x"
    by (simp add: wf_cmd_def wf_demo_topic wf_kill_topic)
  obtain bs d where d: "tree_run ?cmds directory_new = returns (bs, d)" "dir_inv d"
    "registry_of d = snd (registry_run ?cmds empty_registry)"
    using tree_run_refines [OF dir_inv_new(1) wf] by (auto simp: registry_of_new)
  then have "demo_directory = d" by (simp add: demo_directory_def)
  with d demo_topic_not_wild show ?thesis
    by (simp add: empty_registry_def Let_def fun_eq_iff)
qed

lemma demo_facts:
  "subs_of demo_directory = (\<lambda>t. if t = demo_topic then {1} else if t = kill_topic then {0} else {})"
  "owner_of demo_directory = (\<lambda>t. if t = demo_topic then Some 2 else None)"
  "dir_inv demo_directory"
  using demo_registry by (auto simp: registry_of_def)

lemma demo_core_facts:
  "core_inv demo_core"
  "directory demo_core = demo_directory"
  "protocol_server_senders demo_core = [1 \<mapsto> 0, 2 \<mapsto> 1]"
  "pending_responses demo_core = Map.empty"
  "next_msg_id demo_core = 0" "next_client_id demo_core = 3"
  "rx_alive (chans demo_core 0)" "rx_alive (chans demo_core (Suc 0))"
proof -
  have "core_inv (empty_core\<lparr>directory := demo_directory\<rparr>)"
    using core_inv_empty demo_facts(3) by (rule core_inv_directory)
  then show "core_inv demo_core" by (simp add: demo_core_def register_inv)
qed (auto simp: demo_core_def empty_core_def)

lemma demo_segments [simp]:
  "topic_segments demo_topic = [''p'', ''a'']" "topic_segments kill_topic = [''bus'', ''kill'']"
  "topic_segments demo_any = [''*'', ''**'']"
  by (simp_all add: demo_topic_def kill_topic_def demo_any_def topic_segments_def
      path_segments_def is_root_def PATH_SEPARATOR_def)

lemma demo_overlap:
  "topic_overlap demo_topic demo_topic" "\<not> topic_overlap kill_topic demo_topic"
  "topic_overlap kill_topic demo_any"
  by (simp_all add: topic_overlap_def WILDCARD_def DOUBLE_WILDCARD_def)

lemma demo_matching: "matching demo_directory demo_topic = {1}"
  using demo_overlap demo_topic_not_wild(2) by (auto simp: matching_eq demo_facts split: if_splits)

lemma demo_audience: "audience (registry_of demo_directory) demo_topic = {1}"
  using matching_audience [OF demo_facts(3) wf_demo_topic] by (simp add: demo_matching)

section \<open>Publication\<close>

lemma handled_pub:
  "handled rt cid (Msg i (ClientPub p)) c =
     (case core_publish rt p c of
        None \<Rightarrow> None
      | Some (r, c') \<Rightarrow> Some (case r of Inl e \<Rightarrow> Inl e | Inr n \<Rightarrow> Inr (Some n), c'))"
  by (simp add: handled_def split: option.split)

lemma process_msg_push:
  assumes "handled rt cid m c = returns (res, c1)" and "protocol_server_senders c cid = Some h"
    and "rx_alive (chans c h)"
  shows "process_msg rt cid m c = returns (Inr (content m = ClientStop),
     push h (ServerAck (ack_for (mid m) res)) c1)"
proof -
  obtain r c' where "process_msg rt cid m c = returns (r, c')"
    using assms(1) by (simp add: process_msg_eq)
  with process_msg_acks [OF this assms(2,3)] assms(1) show ?thesis by auto
qed

text \<open>
  C1: a publication reaches exactly the clients that hold a subscription sharing a
  concrete topic with the published topic (wildcards on either side), once each, and
  the publisher then gets one acknowledgement with their number; no other message is
  sent, provided the recipients are connected and the topic does not reach \<open>bus:kill\<close>.
\<close>

theorem publish_reaches_exactly_the_audience:
  fixes c :: core and p :: pub_msg
  defines "S \<equiv> audience (registry_of (directory c)) (pub_topic p)"
  assumes "core_inv c" and "wf_topic (pub_topic p)" and "hash_iteration (hash_order rt)"
    and "\<forall>cid \<in> S. cid \<noteq> 0 \<and> reachable_client c cid"
    and "protocol_server_senders c cid = Some hs" and "rx_alive (chans c hs)"
  shows "\<exists>c'. process_msg rt cid (Msg i (ClientPub p)) c = returns (Inr False, c') \<and>
     (\<forall>h. map content (buffer (chans c' h)) = map content (buffer (chans c h)) @
        (if \<exists>a \<in> S. protocol_server_senders c a = Some h then [ServerPub p] else []) @
        (if h = hs
         then [ServerAck \<lparr>ack_msg_id = i, ack_err = None, num_recipients = Some (card S)\<rparr>]
         else [])) \<and>
     registry_of (directory c') = registry_of (directory c) \<and>
     pending_responses c' = pending_responses c"
proof -
  have S: "matching (directory c) (pub_topic p) = S"
    using assms(2,3) by (simp add: S_def matching_audience)
  obtain c1 where c1: "core_publish rt p c = returns (Inr (card S), c1)"
    "\<forall>h. map content (buffer (chans c1 h)) = map content (buffer (chans c h)) @
       (if gets c S h then [ServerPub p] else [])"
    "directory c1 = directory c" "pending_responses c1 = pending_responses c"
    using publish_delivers_lemma [OF assms(2,4), of p] assms(5) by (auto simp: S)
  have "handled rt cid (Msg i (ClientPub p)) c = returns (Inr (Some (card S)), c1)"
    using c1(1) by (simp add: handled_pub)
  from process_msg_push [OF this assms(6,7)] c1 show ?thesis
    by (auto simp: gets_def ack_for_def)
qed

definition demo_pub :: pub_msg where
  "demo_pub = \<lparr>pub_topic = demo_topic, pub_payload = demo_payload\<rparr>"

lemma demo_pub_topic [simp]: "pub_topic demo_pub = demo_topic"
  by (simp add: demo_pub_def)

theorem publish_reaches_exactly_the_audience_witness:
  "\<exists>c'. process_msg demo_runtime 2 (Msg 7 (ClientPub demo_pub)) demo_core =
       returns (Inr False, c') \<and>
     map content (buffer (chans c' 0)) =
       map content (buffer (chans demo_core 0)) @ [ServerPub demo_pub] \<and>
     map content (buffer (chans c' 1)) =
       map content (buffer (chans demo_core 1)) @
         [ServerAck \<lparr>ack_msg_id = 7, ack_err = None, num_recipients = Some 1\<rparr>]"
proof -
  have "audience (registry_of (directory demo_core)) (pub_topic demo_pub) = {1}"
    by (simp add: demo_core_facts demo_audience)
  then show ?thesis
    using publish_reaches_exactly_the_audience [of demo_core demo_pub demo_runtime 2 1 7]
    by (auto simp: demo_core_facts demo_hash wf_demo_topic reachable_client_def)
qed

section \<open>Acknowledgement\<close>

text \<open>
  C15: every message of a connected client is acknowledged exactly once, on its own
  channel and after everything else the message caused there, with the message's id; no
  other channel sees an acknowledgement, and the loop is told to stop exactly for \<open>Stop\<close>.
\<close>

theorem every_message_acknowledged_once:
  assumes "process_msg rt cid m c = returns (r, c')" and "protocol_server_senders c cid = Some h"
    and "rx_alive (chans c h)"
  shows "r = Inr (content m = ClientStop) \<and> (\<exists>a. ack_msg_id a = mid m \<and>
      acks_of (buffer (chans c' h)) = acks_of (buffer (chans c h)) @ [a] \<and>
      content (last (buffer (chans c' h))) = ServerAck a) \<and>
    (\<forall>k. k \<noteq> h \<longrightarrow> acks_of (buffer (chans c' k)) = acks_of (buffer (chans c k)))"
  by (rule process_msg_acks_buffers [OF assms])

lemma demo_keepalive:
  "process_msg demo_runtime 2 (Msg 9 ClientKeepAlive) demo_core =
   returns (Inr False, push 1 (ServerAck (ack_for 9 (Inr None))) demo_core)"
  by (subst process_msg_push [of _ _ _ _ "Inr None" demo_core 1])
     (simp_all add: handled_def dispatch_def demo_core_facts)

theorem every_message_acknowledged_once_witness:
  "\<exists>a. ack_msg_id a = 9 \<and>
     acks_of (buffer (chans (push 1 (ServerAck (ack_for 9 (Inr None))) demo_core) 1)) =
     acks_of (buffer (chans demo_core 1)) @ [a]"
  using every_message_acknowledged_once [OF demo_keepalive, of 1] by (auto simp: demo_core_facts)

section \<open>Requests and responses\<close>

lemma handled_req:
  "handled rt cid (Msg i (ClientReq p)) c =
     (case core_request rt cid i p c of
        (r, c') \<Rightarrow> returns (case r of Inl e \<Rightarrow> Inl e | Inr _ \<Rightarrow> Inr None, c'))"
  by (simp add: handled_def dispatch_def)

lemma handled_rsp:
  "handled rt cid (Msg i (ClientRsp p)) c =
     (case core_respond rt cid p c of
        (r, c') \<Rightarrow> returns (case r of Inl e \<Rightarrow> Inl e | Inr _ \<Rightarrow> Inr None, c'))"
  by (simp add: handled_def dispatch_def)

lemma request_step:
  assumes "get_owner (req_topic q) (directory c) = Some b"
    and "protocol_server_senders c a = Some ha" and "rx_alive (chans c ha)"
    and "protocol_server_senders c b = Some hb" and "rx_alive (chans c hb)"
  shows "process_msg rt a (Msg i (ClientReq q)) c = returns (Inr False,
    push ha (ServerAck (ack_for i (Inr None)))
      ((push hb (ServerReq q) c)\<lparr>
       pending_responses := (pending_responses c)(next_msg_id c \<mapsto>
         \<lparr>pr_request_id = i, pr_responder_id = b, pr_requester_id = a\<rparr>),
       spawned_timers := spawned_timers c @ [next_msg_id c]\<rparr>))"
  using process_msg_push [of rt a "Msg i (ClientReq q)" c "Inr None" _ ha] assms
  by (simp add: handled_req core_request_sends)

lemma respond_step:
  assumes "pending_responses c k = Some \<lparr>pr_request_id = i, pr_responder_id = b, pr_requester_id = a\<rparr>"
    and "protocol_server_senders c a = Some ha" and "rx_alive (chans c ha)"
    and "protocol_server_senders c b = Some hb" and "rx_alive (chans c hb)"
  shows "process_msg rt b (Msg j (ClientRsp \<lparr>rsp_req_id = k, rsp_status = st, rsp_payload = x\<rparr>)) c =
    returns (Inr False, push hb (ServerAck (ack_for j (Inr None)))
      (push ha (ServerRsp \<lparr>rsp_req_id = i, rsp_status = st, rsp_payload = x\<rparr>)
        (c\<lparr>pending_responses := (pending_responses c)(k := None)\<rparr>)))"
proof -
  let ?p = "\<lparr>rsp_req_id = k, rsp_status = st, rsp_payload = x\<rparr>"
  let ?c = "push ha (ServerRsp \<lparr>rsp_req_id = i, rsp_status = st, rsp_payload = x\<rparr>)
    (c\<lparr>pending_responses := (pending_responses c)(k := None)\<rparr>)"
  have "core_respond rt b ?p c = (Inr (), ?c)"
    using core_respond_sends [of c ?p _ b ha rt] assms(1-3) by simp
  then have "handled rt b (Msg j (ClientRsp ?p)) c = returns (Inr None, ?c)"
    by (simp add: handled_rsp)
  from process_msg_push [OF this assms(4,5)] show ?thesis by simp
qed

text \<open>
  C3: a request on a claimed topic and the owner's answer, whatever else is in the
  channels: the owner gets the request under a fresh message id, the requester gets the
  acknowledgement and then the response under the id of its own request, the responder
  gets its acknowledgement, and no trace of the exchange is left in the pending table.
\<close>

theorem request_response_round_trip:
  assumes "owner_of (directory c) (req_topic q) = Some b" and "\<not> topic_wild (req_topic q)"
    and "protocol_server_senders c a = Some ha" and "rx_alive (chans c ha)"
    and "protocol_server_senders c b = Some hb" and "rx_alive (chans c hb)" and "ha \<noteq> hb"
    and "pending_responses c (next_msg_id c) = None"
  shows "\<exists>c1 c2. process_msg rt a (Msg i (ClientReq q)) c = returns (Inr False, c1) \<and>
     process_msg rt b (Msg j (ClientRsp
       \<lparr>rsp_req_id = next_msg_id c, rsp_status = st, rsp_payload = x\<rparr>)) c1 =
       returns (Inr False, c2) \<and>
     map content (buffer (chans c2 hb)) = map content (buffer (chans c hb)) @
       [ServerReq q, ServerAck \<lparr>ack_msg_id = j, ack_err = None, num_recipients = None\<rparr>] \<and>
     mid (buffer (chans c2 hb) ! length (buffer (chans c hb))) = next_msg_id c \<and>
     map content (buffer (chans c2 ha)) = map content (buffer (chans c ha)) @
       [ServerAck \<lparr>ack_msg_id = i, ack_err = None, num_recipients = None\<rparr>,
        ServerRsp \<lparr>rsp_req_id = i, rsp_status = st, rsp_payload = x\<rparr>] \<and>
     pending_responses c2 = pending_responses c \<and> directory c2 = directory c"
proof -
  let ?pr = "\<lparr>pr_request_id = i, pr_responder_id = b, pr_requester_id = a\<rparr>"
  let ?c1 = "push ha (ServerAck (ack_for i (Inr None))) ((push hb (ServerReq q) c)\<lparr>
       pending_responses := (pending_responses c)(next_msg_id c \<mapsto> ?pr),
       spawned_timers := spawned_timers c @ [next_msg_id c]\<rparr>)"
  have "get_owner (req_topic q) (directory c) = Some b"
    using assms(1,2) by (simp add: get_owner_eq)
  note c1 = request_step [OF this assms(3-6), of rt i]
  have "pending_responses ?c1 (next_msg_id c) = Some ?pr" by simp
  note c2 = respond_step [OF this, of ha hb rt j st x]
  show ?thesis
    using assms(3-8) c1 c2 by (auto simp: ack_for_def nth_append fun_upd_idem)
qed

theorem request_response_round_trip_witness:
  "\<exists>c1 c2. process_msg demo_runtime 1 (Msg 4 (ClientReq \<lparr>req_topic = demo_topic, req_payload = demo_payload\<rparr>))
       demo_core = returns (Inr False, c1) \<and>
     process_msg demo_runtime 2 (Msg 8 (ClientRsp
       \<lparr>rsp_req_id = 0, rsp_status = StatusOk, rsp_payload = demo_payload\<rparr>)) c1 =
       returns (Inr False, c2) \<and> pending_responses c2 = Map.empty"
  using request_response_round_trip
    [of demo_core "\<lparr>req_topic = demo_topic, req_payload = demo_payload\<rparr>" 2 1 0 1
      demo_runtime 4 8 StatusOk demo_payload]
  by (auto simp: demo_core_facts demo_facts demo_topic_not_wild)

text \<open>
  C23: a response is accepted from its responder only, and only once. A message that names
  an id with no pending request, or one pending for another client, changes nothing but
  the sender's channel, which gets the acknowledgement \<open>InvalidRequestId\<close>.
\<close>

theorem foreign_or_repeated_response_refused:
  assumes "\<forall>pr. pending_responses c (rsp_req_id p) = Some pr \<longrightarrow> pr_responder_id pr \<noteq> cid"
    and "cid \<noteq> 0" and "protocol_server_senders c cid = Some h" and "rx_alive (chans c h)"
  shows "\<exists>c'. process_msg rt cid (Msg j (ClientRsp p)) c = returns (Inr False, c') \<and>
     (\<forall>k. map content (buffer (chans c' k)) = map content (buffer (chans c k)) @
        (if k = h then [ServerAck \<lparr>ack_msg_id = j, ack_err = Some InvalidRequestId,
                                   num_recipients = None\<rparr>] else [])) \<and>
     pending_responses c' = pending_responses c \<and> directory c' = directory c"
proof -
  have "core_respond rt cid p c = (Inl InvalidRequestId, c)"
    by (rule core_respond_refused) (use assms(1,2) in auto)
  then have "handled rt cid (Msg j (ClientRsp p)) c = returns (Inl InvalidRequestId, c)"
    by (simp add: handled_rsp)
  from process_msg_push [OF this assms(3,4)] show ?thesis by (auto simp: ack_for_def)
qed

theorem foreign_or_repeated_response_refused_witness:
  "\<exists>c'. process_msg demo_runtime 2 (Msg 8 (ClientRsp
       \<lparr>rsp_req_id = 5, rsp_status = StatusOk, rsp_payload = demo_payload\<rparr>)) demo_core =
       returns (Inr False, c') \<and> directory c' = demo_directory"
  using foreign_or_repeated_response_refused
    [of demo_core "\<lparr>rsp_req_id = 5, rsp_status = StatusOk, rsp_payload = demo_payload\<rparr>" 2 1
      demo_runtime 8]
  by (auto simp: demo_core_facts)

text \<open>
  A request on a topic nobody serves (or on a wildcard topic) is answered with
  \<open>ServiceNotFound\<close> in the acknowledgement; nothing is recorded and nobody else hears of it.
\<close>

theorem unserved_request_refused:
  assumes "get_owner (req_topic q) (directory c) = None"
    and "protocol_server_senders c cid = Some h" and "rx_alive (chans c h)"
  shows "\<exists>c'. process_msg rt cid (Msg i (ClientReq q)) c = returns (Inr False, c') \<and>
     (\<forall>k. map content (buffer (chans c' k)) = map content (buffer (chans c k)) @
        (if k = h then [ServerAck \<lparr>ack_msg_id = i,
           ack_err = Some (ServiceNotFound (req_topic q)), num_recipients = None\<rparr>] else [])) \<and>
     pending_responses c' = pending_responses c \<and> spawned_timers c' = spawned_timers c \<and>
     directory c' = directory c"
proof -
  have "handled rt cid (Msg i (ClientReq q)) c = returns (Inl (ServiceNotFound (req_topic q)), c)"
    using core_request_unserved [OF assms(1)] by (simp add: handled_req)
  from process_msg_push [OF this assms(2,3)] show ?thesis by (auto simp: ack_for_def)
qed

theorem unserved_request_refused_witness:
  "\<exists>c'. process_msg demo_runtime 1 (Msg 4 (ClientReq \<lparr>req_topic = demo_any, req_payload = demo_payload\<rparr>))
       demo_core = returns (Inr False, c') \<and> pending_responses c' = Map.empty"
  using unserved_request_refused
    [of "\<lparr>req_topic = demo_any, req_payload = demo_payload\<rparr>" demo_core 1 0 demo_runtime 4]
  by (auto simp: demo_core_facts get_owner_eq topic_wild_def WILDCARD_def)

text \<open>
  When the timer of a request that is still pending fires, the requester (and nobody
  else) gets the response \<open>Timeout\<close> with an empty payload, and the request is no longer
  pending.
\<close>

theorem pending_request_times_out:
  assumes "pending_responses c i = Some pr"
    and "protocol_server_senders c (pr_requester_id pr) = Some h" and "rx_alive (chans c h)"
  shows "\<exists>c'. process_task rt (RequestTimeout i) c = returns (Inr False, c') \<and>
     (\<forall>k. map content (buffer (chans c' k)) = map content (buffer (chans c k)) @
        (if k = h then [ServerRsp \<lparr>rsp_req_id = pr_request_id pr, rsp_status = StatusTimeout,
           rsp_payload = \<lparr>data = [], is_compressed = False\<rparr>\<rparr>] else [])) \<and>
     pending_responses c' = (pending_responses c)(i := None) \<and> directory c' = directory c"
proof -
  let ?p = "\<lparr>rsp_req_id = i, rsp_status = StatusTimeout,
    rsp_payload = \<lparr>data = [], is_compressed = False\<rparr>\<rparr>"
  have "payload_from_bytes (gzip_encode rt) [] = \<lparr>data = [], is_compressed = False\<rparr>"
    by (simp add: payload_from_bytes_def)
  then show ?thesis
    using core_respond_sends [of c ?p pr 0 h rt] assms by (auto simp: process_task_def)
qed

definition demo_waiting :: core where
  \<comment> \<open>client 1 waits for an answer of client 2\<close>
  "demo_waiting = demo_core\<lparr>pending_responses :=
     [3 \<mapsto> \<lparr>pr_request_id = 4, pr_responder_id = 2, pr_requester_id = 1\<rparr>]\<rparr>"

theorem pending_request_times_out_witness:
  "\<exists>c'. process_task demo_runtime (RequestTimeout 3) demo_waiting = returns (Inr False, c') \<and>
     pending_responses c' = Map.empty"
  using pending_request_times_out
    [of demo_waiting 3 "\<lparr>pr_request_id = 4, pr_responder_id = 2, pr_requester_id = 1\<rparr>" 0
      demo_runtime]
  by (auto simp: demo_waiting_def demo_core_facts fun_eq_iff)

text \<open>
  C20: the timer of a request is not cancelled by its answer, and when it fires the main
  loop ends with the error \<open>InvalidRequestId\<close>: after one completed request the server stops
  at that request's deadline, whatever is still queued.
\<close>

theorem answered_request_stops_server_at_its_deadline:
  assumes "owner_of (directory c) (req_topic q) = Some b" and "\<not> topic_wild (req_topic q)"
    and "protocol_server_senders c a = Some ha" and "rx_alive (chans c ha)"
    and "protocol_server_senders c b = Some hb" and "rx_alive (chans c hb)"
  shows "\<exists>c'. core_run rt ([Task (Message a (Msg i (ClientReq q))),
      Task (Message b (Msg j (ClientRsp
        \<lparr>rsp_req_id = next_msg_id c, rsp_status = st, rsp_payload = x\<rparr>))),
      Task (RequestTimeout (next_msg_id c))] @ es) c = (Stopped (Inl InvalidRequestId), c') \<and>
    next_msg_id c \<in> set (spawned_timers c')"
proof -
  let ?pr = "\<lparr>pr_request_id = i, pr_responder_id = b, pr_requester_id = a\<rparr>"
  let ?c1 = "push ha (ServerAck (ack_for i (Inr None))) ((push hb (ServerReq q) c)\<lparr>
       pending_responses := (pending_responses c)(next_msg_id c \<mapsto> ?pr),
       spawned_timers := spawned_timers c @ [next_msg_id c]\<rparr>)"
  have "get_owner (req_topic q) (directory c) = Some b"
    using assms(1,2) by (simp add: get_owner_eq)
  note c1 = request_step [OF this assms(3-6), of rt i]
  have "pending_responses ?c1 (next_msg_id c) = Some ?pr" by simp
  note c2 = respond_step [OF this, of ha hb rt j st x]
  show ?thesis
    using assms(3-6) c1 c2 by (simp add: process_task_def core_respond_def)
qed

theorem answered_request_stops_server_at_its_deadline_witness:
  "\<exists>c'. core_run demo_runtime ([Task (Message 1 (Msg 4 (ClientReq
        \<lparr>req_topic = demo_topic, req_payload = demo_payload\<rparr>))),
      Task (Message 2 (Msg 8 (ClientRsp
        \<lparr>rsp_req_id = 0, rsp_status = StatusOk, rsp_payload = demo_payload\<rparr>))),
      Task (RequestTimeout 0)] @ []) demo_core = (Stopped (Inl InvalidRequestId), c')"
  using answered_request_stops_server_at_its_deadline
    [of demo_core "\<lparr>req_topic = demo_topic, req_payload = demo_payload\<rparr>" 2 1 0 1
      demo_runtime 4 8 StatusOk demo_payload "[]"]
  by (simp add: demo_core_facts demo_facts demo_topic_not_wild) blast

section \<open>Deregistration\<close>

text \<open>
  C16: deregistering a client removes every trace of it (its channel's sending half, its
  subscriptions, its claims, the requests it made or was to answer) and touches nothing
  that belongs to another client.
\<close>

theorem deregister_erases_the_client_only:
  assumes "core_inv c"
  shows "\<exists>c'. process_task rt (Deregister cid) c = returns (Inr False, c') \<and> core_inv c' \<and>
     protocol_server_senders c' = (protocol_server_senders c)(cid := None) \<and>
     (\<forall>t. reg_subs (registry_of (directory c')) t =
        reg_subs (registry_of (directory c)) t - {cid}) \<and>
     (\<forall>t. reg_owner (registry_of (directory c')) t =
        (if reg_owner (registry_of (directory c)) t = Some cid then None
         else reg_owner (registry_of (directory c)) t)) \<and>
     (\<forall>i pr. pending_responses c' i = Some pr \<longleftrightarrow> pending_responses c i = Some pr \<and>
        pr_requester_id pr \<noteq> cid \<and> pr_responder_id pr \<noteq> cid) \<and>
     (\<forall>h. buffer (chans c' h) = buffer (chans c h) \<and>
        (tx_alive (chans c' h) \<longleftrightarrow>
           tx_alive (chans c h) \<and> protocol_server_senders c cid \<noteq> Some h))"
proof -
  let ?c = "snd (deregister_client cid c)"
  have "process_task rt (Deregister cid) c = returns (Inr False, ?c)"
    by (simp add: process_task_def prod.case_eq_if)
  moreover have "core_inv ?c" by (rule deregister_inv [OF assms])
  moreover have "subs_of (directory ?c) t = subs_of (directory c) t - {cid}"
    "owner_of (directory ?c) t = (if owner_of (directory c) t = Some cid then None
       else owner_of (directory c) t)" for t
    using tree.drop_frame(4,5) [OF core_inv_dir [OF assms]] by (metis deregister_fields(3) prod.collapse)+
  ultimately show ?thesis by auto
qed

theorem deregister_erases_the_client_only_witness:
  "\<exists>c'. process_task demo_runtime (Deregister 2) demo_core = returns (Inr False, c') \<and>
     protocol_server_senders c' = [1 \<mapsto> 0] \<and>
     reg_owner (registry_of (directory c')) demo_topic = None"
  using deregister_erases_the_client_only [OF demo_core_facts(1), of demo_runtime 2]
  by (auto simp: demo_core_facts demo_facts fun_eq_iff)

section \<open>Whole runs\<close>

text \<open>
  A new core starts with an empty directory but for its own subscription to
  \<open>bus:kill\<close>, and its invariant (tree well formed, one private channel per client, the
  core holding exactly the sending halves of its clients) survives every sequence of
  tasks.
\<close>

theorem core_starts_and_stays_consistent:
  assumes "regex_engine rx" and "\<forall>e \<in> set es. wf_event e"
  shows "\<exists>c. core_new rx = returns c \<and> core_inv c \<and> kill_inv c \<and>
     reg_owner (registry_of (directory c)) = (\<lambda>t. None) \<and>
     core_inv (snd (core_run rt es c))"
proof -
  obtain d where d: "core_new rx = returns (empty_core\<lparr>directory := d\<rparr>)" "dir_inv d"
    "subs_of d = (\<lambda>u. if u = kill_topic then {0} else {})" "owner_of d = (\<lambda>u. None)"
    by (rule core_new_spec [OF assms(1)]) (rule that)
  have "core_inv (empty_core\<lparr>directory := d\<rparr>)"
    by (rule core_inv_directory [OF core_inv_empty d(2)])
  moreover have "kill_inv (empty_core\<lparr>directory := d\<rparr>)"
    using d(3) by (simp add: kill_inv_def empty_core_def)
  ultimately show ?thesis
    using d core_run_inv_lemma [OF assms(2), of "empty_core\<lparr>directory := d\<rparr>" rt]
    by (auto simp: registry_of_def)
qed

theorem core_starts_and_stays_consistent_witness:
  "\<exists>c. core_new deriv_match = returns c \<and>
     core_inv (snd (core_run demo_runtime [Task (Register 5), Task (Deregister 1), StopSignal] c))"
  using core_starts_and_stays_consistent
    [OF deriv_engine.regex_engine_axioms, of "[Task (Register 5), Task (Deregister 1), StopSignal]"
      demo_runtime]
  by auto

text \<open>
  Starting from a new core, no sequence of tasks panics the main loop unless a client
  publishes on a topic that overlaps \<open>bus:kill\<close> (fewer than \<open>2 ^ 32\<close> clients registered, no
  task in the name of the reserved id 0).
\<close>

theorem server_panics_only_on_kill:
  assumes "regex_engine rx" and "hash_iteration (hash_order rt)" and "core_new rx = returns c"
    and "\<forall>e \<in> set es. wf_event e \<and> foreign e" and "1 + registrations es < 2 ^ 32"
    and "\<forall>e \<in> set es. \<not> kills e"
  shows "fst (core_run rt es c) \<noteq> Panicked"
proof
  assume "fst (core_run rt es c) = Panicked"
  then obtain c' where run: "core_run rt es c = (Panicked, c')" by (metis prod.collapse)
  obtain d where d: "core_new rx = returns (empty_core\<lparr>directory := d\<rparr>)" "dir_inv d"
    "subs_of d = (\<lambda>u. if u = kill_topic then {0} else {})"
    by (rule core_new_spec [OF assms(1)]) (rule that)
  have c: "c = empty_core\<lparr>directory := d\<rparr>" using d(1) assms(3) by simp
  have inv: "core_inv c" "kill_inv c" "next_client_id c = of_nat 1"
    using d(3) core_inv_directory [OF core_inv_empty d(2)]
    by (simp_all add: c kill_inv_def empty_core_def)
  show False
    using core_run_panics_kill [OF run assms(2) inv(1,2) assms(4) inv(3) _ assms(5)] assms(6)
    by simp
qed

theorem server_panics_only_on_kill_witness:
  "\<exists>c. core_new deriv_match = returns c \<and>
     fst (core_run demo_runtime [Task (Register 5), Task (Message 1 (Msg 0 (ClientPub demo_pub)))] c)
       \<noteq> Panicked"
proof -
  obtain c where c: "core_new deriv_match = returns c"
    using core_new_spec [OF deriv_engine.regex_engine_axioms] by metis
  have "\<not> topic_overlap kill_topic demo_topic" by (rule demo_overlap)
  with c server_panics_only_on_kill [OF deriv_engine.regex_engine_axioms demo_hash c,
      of "[Task (Register 5), Task (Message 1 (Msg 0 (ClientPub demo_pub)))]"]
  show ?thesis by (simp add: kills_def wf_client_msg_def wf_demo_topic)
qed

text \<open>
  C21: any connected client can panic the server: a publication on a topic that overlaps
  \<open>bus:kill\<close>, such as \<open>*:**\<close>, panics when every other subscriber it reaches is connected.
\<close>

theorem publication_on_kill_topic_panics:
  assumes "core_inv c" and "kill_inv c" and "hash_iteration (hash_order rt)"
    and "topic_overlap kill_topic (pub_topic p)"
    and "\<forall>a \<in> matching (directory c) (pub_topic p). a \<noteq> 0 \<longrightarrow> reachable_client c a"
  shows "process_msg rt cid (Msg i (ClientPub p)) c = panic"
proof -
  let ?S = "matching (directory c) (pub_topic p)"
  have fin: "finite ?S" using assms(1) by (auto intro: finite_matching)
  have ids: "set (hash_order rt ?S) = ?S" by (rule hash_iteration.set_ord [OF assms(3) fin])
  have "0 \<in> ?S" using kill_inv_matching [OF assms(1,2)] assms(4) by blast
  then have "publish_to rt (ServerPub p) (hash_order rt ?S) c = panic"
    using assms(5) by (intro publish_to_kill) (simp_all add: ids)
  then have "core_publish rt p c = panic"
    by (simp add: core_publish_def get_subscribers_eq)
  then show ?thesis by (simp add: process_msg_eq handled_pub)
qed

theorem publication_on_kill_topic_panics_witness:
  "process_msg demo_runtime 1 (Msg 0 (ClientPub
     \<lparr>pub_topic = demo_any, pub_payload = demo_payload\<rparr>)) demo_core = panic"
proof (rule publication_on_kill_topic_panics)
  show "kill_inv demo_core"
    using demo_topic_not_wild(2) by (simp add: kill_inv_def demo_core_facts demo_facts)
qed (auto simp: demo_core_facts demo_hash demo_overlap matching_eq demo_facts reachable_client_def
    split: if_splits)

text \<open>
  The main loop ends for a reason: with an error only after a request timer fired,
  and normally only after the stop signal, a client's \<open>Stop\<close> or the loss of every task
  sender. Nothing else a client sends, valid or not, ends it.
\<close>

theorem server_stops_for_a_reason:
  assumes "core_run rt es c = (Stopped r, c')"
  shows "case r of
       Inl _ \<Rightarrow> \<exists>i. Task (RequestTimeout i) \<in> set es
     | Inr _ \<Rightarrow> \<exists>e \<in> set es. stops_loop e"
  using core_run_stop_reason [OF assms] by (simp add: stop_reason_def)

theorem server_stops_for_a_reason_witness:
  "core_run demo_runtime [StopSignal] demo_core = (Stopped (Inr ()), demo_core) \<and>
   (\<exists>e \<in> set [StopSignal]. stops_loop e)"
  using server_stops_for_a_reason [of demo_runtime "[StopSignal]" demo_core "Inr ()" demo_core]
  by simp

text \<open>
  \<open>publish\<close> gives up at the first recipient whose connection is gone: when the
  iteration order of the subscriber set starts with such a client, no other subscriber
  gets the message, however many are connected, and the publisher is told of an error.
\<close>

theorem publish_aborts_at_dead_recipient:
  assumes "hash_order rt (matching (directory c) (pub_topic p)) = a # rest" and "a \<noteq> 0"
    and "\<not> reachable_client c a"
  shows "\<exists>e c'. core_publish rt p c = returns (Inl e, c') \<and>
     (\<forall>h. buffer (chans c' h) = buffer (chans c h)) \<and> protocol_server_senders c' a = None"
proof (cases rule: deliver_cases [of c a rt "ServerPub p"])
  case (sent h)
  then show ?thesis using assms(3) by (simp add: reachable_client_def)
qed (use assms in \<open>auto simp: core_publish_def get_subscribers_eq\<close>)

theorem publish_aborts_at_dead_recipient_witness:
  "\<exists>e c'. core_publish demo_runtime demo_pub
       (demo_core\<lparr>chans := (chans demo_core)(0 := (chans demo_core 0)\<lparr>rx_alive := False\<rparr>)\<rparr>) =
       returns (Inl e, c') \<and> protocol_server_senders c' 1 = None"
  using publish_aborts_at_dead_recipient
    [of demo_runtime "demo_core\<lparr>chans := (chans demo_core)(0 := (chans demo_core 0)\<lparr>rx_alive := False\<rparr>)\<rparr>"
      demo_pub 1 "[]"]
  by (auto simp: demo_core_facts demo_matching demo_runtime_def ascending_def reachable_client_def)

end
