(* ===== verification/Client_Core.thy ===== *)
theory Client_Core
  imports Directory_Spec Protocol
begin

text \<open>
  \<open>client/core.rs\<close>: the task behind a client. It numbers the outgoing messages, keeps for
  every message that expects an answer the channel on which the caller waits, and keeps a
  directory of its own with the callbacks of the client's subscriptions and services
  (the "client id" in that directory is the id of the message that created the entry).

  The channels live in heaps indexed by handles: oneshot channels for acknowledgements
  and responses, unbounded channels for published messages and requests. The transport
  is the list of messages handed to it, with the error its sink reports once it is broken.
\<close>

section \<open>Oneshot channels\<close>

record 'a oneshot =
  slot :: "'a option"
  os_rx :: bool \<comment> \<open>the receiver still exists\<close>
  os_tx :: bool \<comment> \<open>the sender still exists\<close>

definition new_oneshot :: "'a oneshot" where
  "new_oneshot = \<lparr>slot = None, os_rx = True, os_tx = True\<rparr>"

definition os_send :: "'a \<Rightarrow> 'a oneshot \<Rightarrow> 'a oneshot" where
  \<comment> \<open>sending consumes the sender; without a receiver the value is lost\<close>
  "os_send v c = c\<lparr>slot := (if os_rx c then Some v else slot c), os_tx := False\<rparr>"

definition os_drop :: "'a oneshot \<Rightarrow> 'a oneshot" where
  "os_drop c = c\<lparr>os_tx := False\<rparr>"

section \<open>State\<close>

datatype client_task =
    TaskPub pub_msg nat
  | TaskSub sub_msg nat nat
  | TaskReq req_msg nat nat
  | TaskRsp rsp_msg nat
  | TaskSrv srv_msg nat nat
  | TaskUnsub unsub_msg
  | TaskUnsrv unsrv_msg
  | TaskStop
  | TaskStopBus nat
  | TaskKeepAlive

record client_core =
  cl_next_msg_id :: u32
  sent :: "protocol_client msg list"
  sink_error :: "bus_error option"
  callbacks_ack :: "u32 \<rightharpoonup> nat"
  callbacks_rsp :: "u32 \<rightharpoonup> nat"
  callbacks_pub :: "u32 \<rightharpoonup> nat"
  callbacks_req :: "u32 \<rightharpoonup> nat"
  subscriptions :: directory
  ack_cells :: "nat \<Rightarrow> ack_msg oneshot"
  rsp_cells :: "nat \<Rightarrow> rsp_msg oneshot"
  pub_chans :: "nat \<Rightarrow> pub_msg chan"
  req_chans :: "nat \<Rightarrow> (u32 \<times> req_msg) chan"

definition client_start ::
    "(nat \<Rightarrow> ack_msg oneshot) \<Rightarrow> (nat \<Rightarrow> rsp_msg oneshot) \<Rightarrow> (nat \<Rightarrow> pub_msg chan) \<Rightarrow>
     (nat \<Rightarrow> (u32 \<times> req_msg) chan) \<Rightarrow> client_core" where
  \<comment> \<open>the state \<open>start\<close> builds, over the heaps as they are\<close>
  "client_start acks rsps pubs reqs =
     \<lparr>cl_next_msg_id = 0, sent = [], sink_error = None,
      callbacks_ack = Map.empty, callbacks_rsp = Map.empty, callbacks_pub = Map.empty,
      callbacks_req = Map.empty, subscriptions = directory_new,
      ack_cells = acks, rsp_cells = rsps, pub_chans = pubs, req_chans = reqs\<rparr>"

text \<open>
  \<open>HashMap::insert\<close> of a sender: a sender already stored under the key is dropped.
\<close>

definition drop_replaced :: "(u32 \<rightharpoonup> nat) \<Rightarrow> u32 \<Rightarrow> (nat \<Rightarrow> 'a oneshot) \<Rightarrow> nat \<Rightarrow> 'a oneshot" where
  "drop_replaced m i cells =
     (case m i of Some h \<Rightarrow> cells(h := os_drop (cells h)) | None \<Rightarrow> cells)"

definition insert_ack :: "u32 \<Rightarrow> nat \<Rightarrow> client_core \<Rightarrow> client_core" where
  "insert_ack i h c =
     c\<lparr>callbacks_ack := (callbacks_ack c)(i \<mapsto> h),
       ack_cells := drop_replaced (callbacks_ack c) i (ack_cells c)\<rparr>"

definition insert_rsp :: "u32 \<Rightarrow> nat \<Rightarrow> client_core \<Rightarrow> client_core" where
  "insert_rsp i h c =
     c\<lparr>callbacks_rsp := (callbacks_rsp c)(i \<mapsto> h),
       rsp_cells := drop_replaced (callbacks_rsp c) i (rsp_cells c)\<rparr>"

section \<open>Sending\<close>

definition before_send ::
    "client_task \<Rightarrow> client_core \<Rightarrow> (protocol_client msg result \<times> client_core) run" where
  "before_send task c =
     (let c = c\<lparr>cl_next_msg_id := cl_next_msg_id c + 1\<rparr>;
          i = cl_next_msg_id c
      in case task of
          TaskPub m ack \<Rightarrow> returns (Inr (Msg i (ClientPub m)), insert_ack i ack c)
        | TaskSub m ack pub \<Rightarrow>
            (let c = insert_ack i ack c;
                 c = c\<lparr>callbacks_pub := (callbacks_pub c)(i \<mapsto> pub)\<rparr>
             in do {
               d \<leftarrow> subscribe i (sub_topic m) (subscriptions c);
               returns (Inr (Msg i (ClientSub m)), c\<lparr>subscriptions := d\<rparr>)
             })
        | TaskReq m ack rsp \<Rightarrow>
            returns (Inr (Msg i (ClientReq m)), insert_rsp i rsp (insert_ack i ack c))
        | TaskRsp m ack \<Rightarrow> returns (Inr (Msg i (ClientRsp m)), insert_ack i ack c)
        | TaskUnsub m \<Rightarrow> returns (Inr (Msg i (ClientUnsub m)), c)
        | TaskUnsrv m \<Rightarrow>
            (case get_owner (unsrv_topic m) (subscriptions c) of
               None \<Rightarrow> panic
             | Some callback_id \<Rightarrow>
                 (case unclaim callback_id (unsrv_topic m) (subscriptions c) of
                    (Inl e, d) \<Rightarrow> returns (Inl e, c\<lparr>subscriptions := d\<rparr>)
                  | (Inr _, d) \<Rightarrow>
                      returns (Inr (Msg i (ClientUnsrv m)), c\<lparr>subscriptions := d\<rparr>)))
        | TaskSrv m ack req \<Rightarrow>
            (let c = insert_ack i ack c;
                 c = c\<lparr>callbacks_req := (callbacks_req c)(i \<mapsto> req)\<rparr>
             in do {
               (r, d) \<leftarrow> claim i (srv_topic m) (subscriptions c);
               let c = c\<lparr>subscriptions := d\<rparr>;
               returns (case r of Inl e \<Rightarrow> (Inl e, c) | Inr _ \<Rightarrow> (Inr (Msg i (ClientSrv m)), c))
             })
        | TaskStop \<Rightarrow> panic
        | TaskStopBus ack \<Rightarrow> returns (Inr (Msg i ClientStop), insert_ack i ack c)
        | TaskKeepAlive \<Rightarrow> returns (Inr (Msg i ClientKeepAlive), c))"

definition transport_send :: "protocol_client msg \<Rightarrow> client_core \<Rightarrow> unit result \<times> client_core" where
  "transport_send m c =
     (case sink_error c of Some e \<Rightarrow> (Inl e, c) | None \<Rightarrow> (Inr (), c\<lparr>sent := sent c @ [m]\<rparr>))"

definition client_send :: "client_task \<Rightarrow> client_core \<Rightarrow> (unit result \<times> client_core) run" where
  "client_send task c = do {
     (r, c) \<leftarrow> before_send task c;
     returns (case r of Inl e \<Rightarrow> (Inl e, c) | Inr m \<Rightarrow> transport_send m c)
   }"

section \<open>Receiving\<close>

fun send_unsubs :: "topic list \<Rightarrow> client_core \<Rightarrow> (unit result \<times> client_core) run" where
  "send_unsubs [] c = returns (Inr (), c)"
| "send_unsubs (t # ts) c = do {
     (r, c) \<leftarrow> client_send (TaskUnsub (UnsubMsg t)) c;
     case r of Inl e \<Rightarrow> returns (Inl e, c) | Inr _ \<Rightarrow> send_unsubs ts c
   }"

fun notify :: "pub_msg \<Rightarrow> u32 list \<Rightarrow> client_core \<Rightarrow> (unit result \<times> client_core) run" where
  \<comment> \<open>the loop over the callbacks of a published message\<close>
  "notify p [] c = returns (Inr (), c)"
| "notify p (callback_id # ids) c =
     (case callbacks_pub c callback_id of
        None \<Rightarrow> panic
      | Some h \<Rightarrow>
          (case chan_send p (pub_chans c h) of
             Some ch \<Rightarrow> notify p ids (c\<lparr>pub_chans := (pub_chans c)(h := ch)\<rparr>)
           | None \<Rightarrow>
               (let c = c\<lparr>callbacks_pub := (callbacks_pub c)(callback_id := None)\<rparr>;
                    (d, topics) = drop_client callback_id (subscriptions c);
                    c = c\<lparr>subscriptions := d\<rparr>
                in do {
                  (r, c) \<leftarrow> send_unsubs topics c;
                  case r of Inl e \<Rightarrow> returns (Inl e, c) | Inr _ \<Rightarrow> notify p ids c
                })))"

definition after_receive ::
    "(u32 set \<Rightarrow> u32 list) \<Rightarrow> protocol_server msg \<Rightarrow> client_core \<Rightarrow>
     (unit result \<times> client_core) run" where
  "after_receive ord m c =
     (case content m of
        ServerAck a \<Rightarrow>
          returns (Inr (), case callbacks_ack c (ack_msg_id a) of
              Some h \<Rightarrow> c\<lparr>callbacks_ack := (callbacks_ack c)(ack_msg_id a := None),
                            ack_cells := (ack_cells c)(h := os_send a (ack_cells c h))\<rparr>
            | None \<Rightarrow> c)
      | ServerRsp r \<Rightarrow>
          (case callbacks_rsp c (rsp_req_id r) of
             None \<Rightarrow> panic
           | Some h \<Rightarrow>
               returns (Inr (),
                 c\<lparr>callbacks_rsp := (callbacks_rsp c)(rsp_req_id r := None),
                   rsp_cells := (rsp_cells c)(h := os_send r (rsp_cells c h))\<rparr>))
      | ServerPub p \<Rightarrow> notify p (get_subscribers ord (pub_topic p) (subscriptions c)) c
      | ServerReq q \<Rightarrow>
          (case get_owner (req_topic q) (subscriptions c) of
             Some callback_id \<Rightarrow>
               (case callbacks_req c callback_id of
                  None \<Rightarrow> panic
                | Some h \<Rightarrow>
                    (case chan_send (mid m, q) (req_chans c h) of
                       Some ch \<Rightarrow> returns (Inr (), c\<lparr>req_chans := (req_chans c)(h := ch)\<rparr>)
                     | None \<Rightarrow> returns (Inl from_send_error, c)))
           | None \<Rightarrow> returns (Inr (), c)))"

section \<open>The main loop\<close>

datatype client_event =
    FromServer "protocol_server msg result"
  | TransportClosed
  | FromClient client_task
  | ClientDropped \<comment> \<open>every task sender is gone\<close>
  | KeepAliveTick

datatype client_outcome =
    ClientRunning
  | ClientStopped "unit result"
  | ClientPanicked

definition client_step ::
    "(u32 set \<Rightarrow> u32 list) \<Rightarrow> client_event \<Rightarrow> client_core \<Rightarrow> client_outcome \<times> client_core" where
  \<comment> \<open>one iteration of \<open>main_loop\<close> on what \<open>select!\<close> yields\<close>
  "client_step ord e c =
     (let finish = (\<lambda>out. case out of
            None \<Rightarrow> (ClientPanicked, c)
          | Some (Inl err, c) \<Rightarrow> (ClientStopped (Inl err), c)
          | Some (Inr _, c) \<Rightarrow> (ClientRunning, c))
      in case e of
          FromServer (Inl err) \<Rightarrow> (ClientStopped (Inl err), c)
        | FromServer (Inr m) \<Rightarrow> finish (after_receive ord m c)
        | TransportClosed \<Rightarrow> (ClientStopped (Inl ChannelClosed), c)
        | FromClient task \<Rightarrow>
            (if task = TaskStop then (ClientStopped (Inr ()), c) else finish (client_send task c))
        | ClientDropped \<Rightarrow> (ClientStopped (Inr ()), c)
        | KeepAliveTick \<Rightarrow> finish (client_send TaskKeepAlive c))"

fun client_run ::
    "(u32 set \<Rightarrow> u32 list) \<Rightarrow> client_event list \<Rightarrow> client_core \<Rightarrow> client_outcome \<times> client_core" where
  "client_run ord [] c = (ClientRunning, c)"
| "client_run ord (e # es) c =
     (case client_step ord e c of
        (ClientRunning, c) \<Rightarrow> client_run ord es c
      | stopped \<Rightarrow> stopped)"

end
