(* ===== verification/Client_Core_Inv.thy ===== *)
theory Client_Core_Inv
  imports Client_Core
begin

text \<open>
  The client core's invariant: every entry of the local directory has its callback, which
  is what the code's \<open>unwrap\<close> calls rely on. It is preserved by every operation, and under
  it the only panics left are a response to an unknown request, giving up a service the
  client does not hold, and the task \<open>Stop\<close> reaching \<open>before_send\<close>.
\<close>

definition client_inv :: "client_core \<Rightarrow> bool" where
  "client_inv c \<longleftrightarrow> dir_inv (subscriptions c) \<and>
     (\<forall>u i. i \<in> subs_of (subscriptions c) u \<longrightarrow> i \<in> dom (callbacks_pub c)) \<and>
     (\<forall>u i. owner_of (subscriptions c) u = Some i \<longrightarrow> i \<in> dom (callbacks_req c))"

fun task_topic :: "client_task \<Rightarrow> topic option" where
  "task_topic (TaskPub m _) = Some (pub_topic m)"
| "task_topic (TaskSub m _ _) = Some (sub_topic m)"
| "task_topic (TaskReq m _ _) = Some (req_topic m)"
| "task_topic (TaskSrv m _ _) = Some (srv_topic m)"
| "task_topic (TaskUnsub m) = Some (unsub_topic m)"
| "task_topic (TaskUnsrv m) = Some (unsrv_topic m)"
| "task_topic _ = None"

definition wf_task :: "client_task \<Rightarrow> bool" where
  "wf_task t \<longleftrightarrow> (case task_topic t of Some u \<Rightarrow> wf_topic u | None \<Rightarrow> True)"

lemma client_inv_start: "client_inv (client_start acks rsps pubs reqs)"
  by (simp add: client_inv_def client_start_def dir_inv_new)

lemma client_inv_dir [dest]: "client_inv c \<Longrightarrow> dir_inv (subscriptions c)"
  by (simp add: client_inv_def)

lemma insert_fields [simp]:
  "subscriptions (insert_ack i h c) = subscriptions c"
  "callbacks_pub (insert_ack i h c) = callbacks_pub c"
  "callbacks_req (insert_ack i h c) = callbacks_req c"
  "callbacks_rsp (insert_ack i h c) = callbacks_rsp c"
  "callbacks_ack (insert_ack i h c) = (callbacks_ack c)(i \<mapsto> h)"
  "sent (insert_ack i h c) = sent c" "sink_error (insert_ack i h c) = sink_error c"
  "cl_next_msg_id (insert_ack i h c) = cl_next_msg_id c"
  "subscriptions (insert_rsp i h c) = subscriptions c"
  "callbacks_pub (insert_rsp i h c) = callbacks_pub c"
  "callbacks_req (insert_rsp i h c) = callbacks_req c"
  "callbacks_ack (insert_rsp i h c) = callbacks_ack c"
  "callbacks_rsp (insert_rsp i h c) = (callbacks_rsp c)(i \<mapsto> h)"
  "sent (insert_rsp i h c) = sent c" "sink_error (insert_rsp i h c) = sink_error c"
  "cl_next_msg_id (insert_rsp i h c) = cl_next_msg_id c"
  by (simp_all add: insert_ack_def insert_rsp_def)

lemma client_inv_cong:
  "client_inv c \<Longrightarrow> subscriptions c' = subscriptions c \<Longrightarrow> callbacks_pub c' = callbacks_pub c \<Longrightarrow>
   callbacks_req c' = callbacks_req c \<Longrightarrow> client_inv c'"
  by (simp add: client_inv_def)

section \<open>Sending\<close>

lemma before_send_srv:
  "before_send (TaskSrv m ack req) c =
     (case claim (cl_next_msg_id c + 1) (srv_topic m) (subscriptions c) of
        None \<Rightarrow> None
      | Some (q, d) \<Rightarrow> Some (case q of Inl e \<Rightarrow> Inl e | Inr _ \<Rightarrow> Inr (Msg (cl_next_msg_id c + 1) (ClientSrv m)),
          (insert_ack (cl_next_msg_id c + 1) ack (c\<lparr>cl_next_msg_id := cl_next_msg_id c + 1\<rparr>))
            \<lparr>callbacks_req := (callbacks_req c)(cl_next_msg_id c + 1 \<mapsto> req), subscriptions := d\<rparr>))"
  by (simp add: before_send_def Let_def split: option.split sum.split)

lemma before_send_inv:
  assumes "before_send task c = returns (r, c')" and "client_inv c" and "wf_task task"
  shows "client_inv c'"
proof (cases task)
  case (TaskSub m ack pub)
  then have wf: "wf_topic (sub_topic m)" using assms(3) by (simp add: wf_task_def)
  from TaskSub assms(1) obtain d where d: "subscribe (cl_next_msg_id c + 1) (sub_topic m)
      (subscriptions c) = returns d"
    and c': "subscriptions c' = d" "callbacks_req c' = callbacks_req c"
      "callbacks_pub c' = (callbacks_pub c)(cl_next_msg_id c + 1 \<mapsto> pub)"
    by (auto simp: before_send_def Let_def bus_simps)
  show ?thesis
    using tree.sub_frame [OF client_inv_dir [OF assms(2)] wf d] assms(2) c'
    by (auto simp: client_inv_def split: if_splits)
next
  case (TaskSrv m ack req)
  then have wf: "wf_topic (srv_topic m)" using assms(3) by (simp add: wf_task_def)
  from TaskSrv assms(1) obtain q d where d: "claim (cl_next_msg_id c + 1) (srv_topic m)
      (subscriptions c) = returns (q, d)"
    and c': "subscriptions c' = d" "callbacks_pub c' = callbacks_pub c"
      "callbacks_req c' = (callbacks_req c)(cl_next_msg_id c + 1 \<mapsto> req)"
    by (auto simp: before_send_srv split: option.splits)
  show ?thesis
    using tree.clm_frame [OF client_inv_dir [OF assms(2)] wf d] assms(2) c'
    by (auto simp: client_inv_def split: if_splits)
next
  case (TaskUnsrv m)
  then obtain k q d where d: "unclaim k (unsrv_topic m) (subscriptions c) = (q, d)"
    and c': "subscriptions c' = d" "callbacks_pub c' = callbacks_pub c"
      "callbacks_req c' = callbacks_req c"
    using assms(1)
    by (auto simp: before_send_def Let_def split: option.splits prod.splits sum.splits)
  note f = tree.uncl_frame [OF client_inv_dir [OF assms(2)] d]
  show ?thesis
    using f(1,3) f(4) assms(2) c' unfolding client_inv_def by (metis option.distinct(1))
qed (use assms in \<open>auto simp: before_send_def Let_def elim!: client_inv_cong\<close>)

lemma before_send_id:
  "before_send task c = returns (r, c') \<Longrightarrow>
   cl_next_msg_id c' = cl_next_msg_id c + 1 \<and> sent c' = sent c \<and> sink_error c' = sink_error c \<and>
   pub_chans c' = pub_chans c \<and> req_chans c' = req_chans c \<and>
   (\<forall>m. r = Inr m \<longrightarrow> mid m = cl_next_msg_id c + 1)"
  by (cases task)
     (auto simp: before_send_srv split: option.splits sum.splits,
      auto simp: before_send_def Let_def bus_simps insert_ack_def insert_rsp_def
      split: option.splits sum.splits prod.splits)

lemma before_send_panics:
  assumes "before_send task c = panic" and "client_inv c" and "wf_task task"
  shows "task = TaskStop \<or>
    (\<exists>m. task = TaskUnsrv m \<and> get_owner (unsrv_topic m) (subscriptions c) = None)"
proof (cases task)
  case (TaskSub m ack pub)
  then have wf: "wf_topic (sub_topic m)" using assms(3) by (simp add: wf_task_def)
  then show ?thesis
    using tree.sub_law [OF client_inv_dir [OF assms(2)] wf, of "cl_next_msg_id c + 1"] TaskSub assms(1)
    by (auto simp: before_send_def Let_def bind_run_eq_panic)
next
  case (TaskSrv m ack req)
  then have wf: "wf_topic (srv_topic m)" using assms(3) by (simp add: wf_task_def)
  then show ?thesis
    using tree.clm_law [OF client_inv_dir [OF assms(2)] wf, of "cl_next_msg_id c + 1"] TaskSrv assms(1)
    by (auto simp: before_send_srv)
next
  case (TaskUnsrv m)
  then show ?thesis using assms(1)
    by (auto simp: before_send_def Let_def split: option.splits prod.splits sum.splits)
qed (use assms(1) in \<open>auto simp: before_send_def Let_def\<close>)

lemma transport_send_fields [simp]:
  "subscriptions (snd (transport_send m c)) = subscriptions c"
  "callbacks_pub (snd (transport_send m c)) = callbacks_pub c"
  "callbacks_req (snd (transport_send m c)) = callbacks_req c"
  "cl_next_msg_id (snd (transport_send m c)) = cl_next_msg_id c"
  by (simp_all add: transport_send_def split: option.split)

lemma client_send_inv:
  assumes "client_send task c = returns (r, c')" and "client_inv c" and "wf_task task"
  shows "client_inv c'"
proof -
  obtain q c1 where b: "before_send task c = returns (q, c1)"
    and c': "(r, c') = (case q of Inl e \<Rightarrow> (Inl e, c1) | Inr m \<Rightarrow> transport_send m c1)"
    using assms(1) by (auto simp: client_send_def bus_simps)
  have i: "client_inv c1" using b assms(2,3) by (rule before_send_inv)
  show ?thesis
  proof (cases q)
    case (Inr m)
    then have "c' = snd (transport_send m c1)" using c' by (metis snd_conv sum.case(2))
    then show ?thesis using i by (auto elim!: client_inv_cong)
  qed (use c' i in simp)
qed

lemma client_send_unsub:
  "client_send (TaskUnsub (UnsubMsg t)) c =
   returns (transport_send (Msg (cl_next_msg_id c + 1) (ClientUnsub (UnsubMsg t)))
     (c\<lparr>cl_next_msg_id := cl_next_msg_id c + 1\<rparr>))"
  by (simp add: client_send_def before_send_def Let_def)

lemma send_unsubs_total:
  "\<exists>r c'. send_unsubs ts c = returns (r, c') \<and> subscriptions c' = subscriptions c \<and>
     callbacks_pub c' = callbacks_pub c \<and> callbacks_req c' = callbacks_req c \<and>
     pub_chans c' = pub_chans c \<and> sink_error c' = sink_error c \<and>
     (sink_error c = None \<longrightarrow> r = Inr () \<and>
        map content (sent c') = map content (sent c) @ map (\<lambda>t. ClientUnsub (UnsubMsg t)) ts)"
proof (induction ts arbitrary: c)
  case (Cons t ts)
  let ?c = "c\<lparr>cl_next_msg_id := cl_next_msg_id c + 1,
    sent := sent c @ [Msg (cl_next_msg_id c + 1) (ClientUnsub (UnsubMsg t))]\<rparr>"
  show ?case
    using Cons.IH [of ?c]
    by (cases "sink_error c") (auto simp: client_send_unsub transport_send_def)
qed simp

section \<open>Receiving\<close>

definition live :: "client_core \<Rightarrow> u32 \<Rightarrow> bool" where
  \<comment> \<open>the callback's receiver still exists\<close>
  "live c k \<longleftrightarrow> (\<exists>h. callbacks_pub c k = Some h \<and> rx_alive (pub_chans c h))"

lemma client_inv_drop:
  assumes "client_inv c" and "drop_client k (subscriptions c) = (d, ts)"
  shows "client_inv (c\<lparr>callbacks_pub := (callbacks_pub c)(k := None), subscriptions := d\<rparr>)"
  using tree.drop_frame [OF client_inv_dir [OF assms(1)] assms(2)] assms(1)
  unfolding client_inv_def by (auto split: if_splits)

lemma client_inv_drop_frame:
  "client_inv c \<Longrightarrow> drop_client k (subscriptions c) = (d, ts) \<Longrightarrow>
   subs_of d u = subs_of (subscriptions c) u - {k}"
  using tree.drop_frame(4) by blast

lemma notify_step_live:
  "callbacks_pub c k = Some h \<Longrightarrow> rx_alive (pub_chans c h) \<Longrightarrow>
   notify p (k # ids) c =
   notify p ids (c\<lparr>pub_chans := (pub_chans c)(h := (pub_chans c h)
     \<lparr>buffer := buffer (pub_chans c h) @ [p]\<rparr>)\<rparr>)"
  by simp

lemma notify_step_dead:
  assumes "client_inv c" and "callbacks_pub c k = Some h" and "\<not> rx_alive (pub_chans c h)"
  obtains c1 r d ts where "notify p (k # ids) c =
      (case r of Inl e \<Rightarrow> returns (Inl e, c1) | Inr _ \<Rightarrow> notify p ids c1)"
    and "drop_client k (subscriptions c) = (d, ts)" and "client_inv c1"
    and "subscriptions c1 = d" and "callbacks_pub c1 = (callbacks_pub c)(k := None)"
    and "pub_chans c1 = pub_chans c" and "sink_error c1 = sink_error c"
    and "sink_error c = None \<Longrightarrow> r = Inr () \<and>
      map content (sent c1) = map content (sent c) @ map (\<lambda>t. ClientUnsub (UnsubMsg t)) ts"
proof -
  obtain d ts where d: "drop_client k (subscriptions c) = (d, ts)" by fastforce
  let ?c = "c\<lparr>callbacks_pub := (callbacks_pub c)(k := None), subscriptions := d\<rparr>"
  obtain r c1 where s: "send_unsubs ts ?c = returns (r, c1)"
    and f: "subscriptions c1 = subscriptions ?c" "callbacks_pub c1 = callbacks_pub ?c"
      "callbacks_req c1 = callbacks_req ?c"
      "pub_chans c1 = pub_chans ?c" "sink_error c1 = sink_error ?c"
      "sink_error ?c = None \<longrightarrow> r = Inr () \<and>
        map content (sent c1) = map content (sent ?c) @ map (\<lambda>t. ClientUnsub (UnsubMsg t)) ts"
    using send_unsubs_total [of ts ?c] by (elim exE conjE) (rule that)
  have "client_inv c1"
    using client_inv_drop [OF assms(1) d] f(1,2,3) by (rule client_inv_cong)
  moreover have "notify p (k # ids) c =
      (case r of Inl e \<Rightarrow> returns (Inl e, c1) | Inr _ \<Rightarrow> notify p ids c1)"
    using assms(2,3) d s by simp
  ultimately show ?thesis using that d f by simp
qed

lemma notify_inv:
  assumes "client_inv c" and "distinct ids" and "set ids \<subseteq> dom (callbacks_pub c)"
  shows "\<exists>r c'. notify p ids c = returns (r, c') \<and> client_inv c'"
  using assms
proof (induction ids arbitrary: c)
  case (Cons k ids)
  then obtain h where h: "callbacks_pub c k = Some h" by auto
  show ?case
  proof (cases "rx_alive (pub_chans c h)")
    case True
    let ?c = "c\<lparr>pub_chans := (pub_chans c)(h := (pub_chans c h)
      \<lparr>buffer := buffer (pub_chans c h) @ [p]\<rparr>)\<rparr>"
    have "client_inv ?c" using Cons.prems(1) by (auto elim: client_inv_cong)
    then show ?thesis
      using Cons.IH [of ?c] Cons.prems(2,3) notify_step_live [OF h True] by simp
  next
    case False
    obtain c1 and r :: "unit result" where c1: "notify p (k # ids) c =
        (case r of Inl e \<Rightarrow> returns (Inl e, c1) | Inr _ \<Rightarrow> notify p ids c1)"
      "client_inv c1" "callbacks_pub c1 = (callbacks_pub c)(k := None)"
        by (rule notify_step_dead [OF Cons.prems(1) h False, of p ids]) (rule that)
    moreover have "set ids \<subseteq> dom (callbacks_pub c1)"
      using c1(3) Cons.prems(2,3) by auto
    then have "\<exists>r c'. notify p ids c1 = returns (r, c') \<and> client_inv c'"
      using Cons.IH [OF c1(2)] Cons.prems(2) by simp
    ultimately show ?thesis by (cases r) (simp_all del: notify.simps)
  qed
qed simp

lemma after_receive_inv:
  assumes "client_inv c" and "hash_iteration ord"
  shows "case after_receive ord m c of
      None \<Rightarrow> \<exists>r. content m = ServerRsp r \<and> rsp_req_id r \<notin> dom (callbacks_rsp c)
    | Some (r, c') \<Rightarrow> client_inv c'"
proof (cases "content m")
  case (ServerPub p)
  let ?S = "matching (subscriptions c) (pub_topic p)"
  have fin: "finite ?S" using assms(1) by (auto intro: finite_matching)
  have "?S \<subseteq> dom (callbacks_pub c)"
    using assms(1) by (auto simp: client_inv_def matching_eq)
  then have "\<exists>r c'. notify p (ord ?S) c = returns (r, c') \<and> client_inv c'"
    using notify_inv [OF assms(1) hash_iteration.distinct_ord [OF assms(2) fin]]
    by (simp add: hash_iteration.set_ord [OF assms(2) fin])
  then show ?thesis
    using ServerPub by (auto simp: after_receive_def get_subscribers_eq)
next
  case (ServerReq q)
  have "owner_of (subscriptions c) (req_topic q) = Some i \<Longrightarrow> i \<in> dom (callbacks_req c)" for i
    using assms(1) by (simp add: client_inv_def)
  then show ?thesis using ServerReq assms(1)
    by (auto simp: after_receive_def get_owner_eq chan_send_def elim!: client_inv_cong
        split: option.split if_splits)
next
  case (ServerRsp r)
  then show ?thesis using assms(1)
    by (auto simp: after_receive_def elim!: client_inv_cong split: option.split)
next
  case (ServerAck a)
  then show ?thesis using assms(1)
    by (auto simp: after_receive_def elim!: client_inv_cong split: option.split)
qed

text \<open>
  What the loop over the callbacks does: every live callback gets the message, every dead
  one leaves the directory, and the server is told of the topics that lost their last
  subscription.
\<close>

definition orphaned :: "client_core \<Rightarrow> client_core \<Rightarrow> topic set" where
  "orphaned c c' = {u. subs_of (subscriptions c) u \<noteq> {} \<and> subs_of (subscriptions c') u = {}}"

definition copies :: "client_core \<Rightarrow> u32 list \<Rightarrow> nat \<Rightarrow> nat" where
  \<comment> \<open>how many of the callbacks send into channel \<open>h\<close> and have a receiver\<close>
  "copies c ids h = length (filter (\<lambda>k. callbacks_pub c k = Some h \<and> rx_alive (pub_chans c h)) ids)"

definition notified :: "pub_msg \<Rightarrow> u32 list \<Rightarrow> client_core \<Rightarrow> client_core \<Rightarrow> bool" where
  "notified p ids c c' \<longleftrightarrow> client_inv c' \<and>
     (\<forall>h. buffer (pub_chans c' h) = buffer (pub_chans c h) @ replicate (copies c ids h) p) \<and>
     (\<forall>k. callbacks_pub c' k = (if k \<in> set ids \<and> \<not> live c k then None else callbacks_pub c k)) \<and>
     (\<forall>u. subs_of (subscriptions c') u = subs_of (subscriptions c) u - {k \<in> set ids. \<not> live c k}) \<and>
     (\<exists>ts. distinct ts \<and> set ts = orphaned c c' \<and>
        map content (sent c') = map content (sent c) @ map (\<lambda>t. ClientUnsub (UnsubMsg t)) ts)"

lemma notified_live:
  assumes "callbacks_pub c k = Some h" and "rx_alive (pub_chans c h)" and "k \<notin> set ids"
    and "notified p ids (c\<lparr>pub_chans := (pub_chans c)(h := (pub_chans c h)
      \<lparr>buffer := buffer (pub_chans c h) @ [p]\<rparr>)\<rparr>) c'"
  shows "notified p (k # ids) c c'"
proof -
  let ?c = "c\<lparr>pub_chans := (pub_chans c)(h := (pub_chans c h)
    \<lparr>buffer := buffer (pub_chans c h) @ [p]\<rparr>)\<rparr>"
  have l: "live ?c j = live c j" for j by (auto simp: live_def)
  have k: "live c k" using assms(1,2) by (simp add: live_def)
  have n: "copies c (k # ids) g = (if g = h then Suc (copies ?c ids g) else copies ?c ids g)" for g
  proof -
    have "(callbacks_pub ?c j = Some g \<and> rx_alive (pub_chans ?c g)) \<longleftrightarrow>
        (callbacks_pub c j = Some g \<and> rx_alive (pub_chans c g))" for j by auto
    then show ?thesis using assms(1,2) by (simp add: copies_def)
  qed
  show ?thesis
    using assms(4) k unfolding notified_def
    by (auto simp: l n orphaned_def)
qed

lemma notified_dead:
  assumes "client_inv c" and "callbacks_pub c k = Some h" and "\<not> rx_alive (pub_chans c h)"
    and "k \<notin> set ids" and "drop_client k (subscriptions c) = (d, ts)" and "subscriptions c1 = d"
    and "callbacks_pub c1 = (callbacks_pub c)(k := None)" and "pub_chans c1 = pub_chans c"
    and "map content (sent c1) = map content (sent c) @ map (\<lambda>t. ClientUnsub (UnsubMsg t)) ts"
    and "notified p ids c1 c'"
  shows "notified p (k # ids) c c'"
proof -
  note d = tree.drop_frame [OF client_inv_dir [OF assms(1)] assms(5)]
  have k: "\<not> live c k" using assms(2,3) by (simp add: live_def)
  have l: "live c1 j \<longleftrightarrow> live c j" if "j \<noteq> k" for j using that assms(7,8) by (auto simp: live_def)
  have dead: "{j \<in> set ids. \<not> live c1 j} = {j \<in> set ids. \<not> live c j}"
    using assms(4) l by (intro Collect_cong) metis
  have same: "filter (\<lambda>j. callbacks_pub c1 j = Some g \<and> rx_alive (pub_chans c1 g)) ids =
      filter (\<lambda>j. callbacks_pub c j = Some g \<and> rx_alive (pub_chans c g)) ids" for g
    using assms(4,7,8) by (intro filter_cong) auto
  have "callbacks_pub c k = Some g \<and> rx_alive (pub_chans c g) \<longleftrightarrow> False" for g
    using assms(2,3) by auto
  then have n: "copies c1 ids g = copies c (k # ids) g" for g
    by (simp add: copies_def same)
  have s1: "subs_of (subscriptions c1) u = subs_of (subscriptions c) u - {k}" for u
    using d(4) assms(6) by simp
  obtain us where us: "distinct us" "set us = orphaned c1 c'"
    "map content (sent c') = map content (sent c1) @ map (\<lambda>t. ClientUnsub (UnsubMsg t)) us"
    using assms(10) by (auto simp: notified_def)
  have s': "subs_of (subscriptions c') u =
      subs_of (subscriptions c) u - {j \<in> set (k # ids). \<not> live c j}" for u
    using assms(10) k by (auto simp: notified_def s1 dead)
  have "distinct (ts @ us)" using us(1,2) d(6,7) s1 by (auto simp: orphaned_def)
  moreover have "set (ts @ us) = orphaned c c'"
    using us(2) d(7) s1 s' k by (auto simp: orphaned_def)
  moreover have "map content (sent c') =
      map content (sent c) @ map (\<lambda>t. ClientUnsub (UnsubMsg t)) (ts @ us)"
    using us(3) assms(9) by simp
  moreover have "callbacks_pub c' j =
      (if j \<in> set (k # ids) \<and> \<not> live c j then None else callbacks_pub c j)" for j
    using assms(4,7,10) k l [of j] by (auto simp: notified_def)
  moreover have "client_inv c'" using assms(10) by (simp add: notified_def)
  moreover have "buffer (pub_chans c' g) = buffer (pub_chans c g) @ replicate (copies c (k # ids) g) p"
    for g using assms(8,10) by (simp add: notified_def n)
  ultimately show ?thesis using s' unfolding notified_def by blast
qed

lemma notify_spec:
  assumes "client_inv c" and "distinct ids" and "set ids \<subseteq> dom (callbacks_pub c)"
    and "sink_error c = None"
  shows "\<exists>c'. notify p ids c = returns (Inr (), c') \<and> notified p ids c c'"
  using assms
proof (induction ids arbitrary: c)
  case Nil
  then show ?case by (auto simp: notified_def copies_def orphaned_def)
next
  case (Cons k ids)
  then obtain h where h: "callbacks_pub c k = Some h" by auto
  have k: "k \<notin> set ids" "distinct ids" using Cons.prems(2) by auto
  show ?case
  proof (cases "rx_alive (pub_chans c h)")
    case True
    let ?c = "c\<lparr>pub_chans := (pub_chans c)(h := (pub_chans c h)
      \<lparr>buffer := buffer (pub_chans c h) @ [p]\<rparr>)\<rparr>"
    have "client_inv ?c" using Cons.prems(1) by (auto elim: client_inv_cong)
    then obtain c' where "notify p ids ?c = returns (Inr (), c')" "notified p ids ?c c'"
      using Cons.IH [of ?c] Cons.prems(3,4) k(2) by auto
    with notify_step_live [OF h True] notified_live [OF h True k(1)] show ?thesis by metis
  next
    case False
    obtain c1 d ts and r :: "unit result" where c1: "notify p (k # ids) c =
        (case r of Inl e \<Rightarrow> returns (Inl e, c1) | Inr _ \<Rightarrow> notify p ids c1)"
      "drop_client k (subscriptions c) = (d, ts)" "client_inv c1" "subscriptions c1 = d"
      "callbacks_pub c1 = (callbacks_pub c)(k := None)" "pub_chans c1 = pub_chans c"
      "sink_error c1 = sink_error c" "sink_error c = None \<Longrightarrow> r = Inr () \<and>
        map content (sent c1) = map content (sent c) @ map (\<lambda>t. ClientUnsub (UnsubMsg t)) ts"
      by (rule notify_step_dead [OF Cons.prems(1) h False, of p ids]) (rule that)
    have "set ids \<subseteq> dom (callbacks_pub c1)" using c1(5) k Cons.prems(3) by auto
    then obtain c' where c': "notify p ids c1 = returns (Inr (), c')" "notified p ids c1 c'"
      using Cons.IH [OF c1(3) k(2)] Cons.prems(4) c1(7) by auto
    have "notified p (k # ids) c c'"
      by (rule notified_dead [OF Cons.prems(1) h False k(1) c1(2,4-6) _ c'(2)])
        (use c1(8) Cons.prems(4) in simp)
    moreover have "notify p (k # ids) c = returns (Inr (), c')"
      using c1(1,8) c'(1) Cons.prems(4) by (simp del: notify.simps)
    ultimately show ?thesis by blast
  qed
qed

end
