(* ===== verification/Client_Properties.thy ===== *)
theory Client_Properties
  imports Client_Core_Inv Server_Properties
begin

text \<open>
  The properties of the client core: numbering, routing of answers to their callers,
  delivery of publications to callbacks, absence of panics, and what the loop does not
  survive.
\<close>

section \<open>Runs of the main loop\<close>

fun wf_client_event :: "client_event \<Rightarrow> bool" where
  "wf_client_event (FromClient t) = wf_task t"
| "wf_client_event _ = True"

lemma client_send_total:
  assumes "client_inv c" and "wf_task task" and "task \<noteq> TaskStop"
    and "\<forall>m. task = TaskUnsrv m \<longrightarrow> get_owner (unsrv_topic m) (subscriptions c) \<noteq> None"
  shows "\<exists>r c'. client_send task c = returns (r, c') \<and> client_inv c'"
proof -
  obtain q c1 where "before_send task c = returns (q, c1)"
    using before_send_panics [OF _ assms(1,2)] assms(3,4) by (cases "before_send task c") auto
  then obtain r c' where "client_send task c = returns (r, c')"
    by (cases q) (auto simp: client_send_def intro: surjective_pairing)
  then show ?thesis using client_send_inv [OF _ assms(1,2)] by blast
qed

definition excused :: "client_event \<Rightarrow> client_core \<Rightarrow> bool" where
  \<comment> \<open>the events whose \<open>unwrap\<close> fails\<close>
  "excused e c \<longleftrightarrow>
     (\<exists>m r. e = FromServer (Inr m) \<and> content m = ServerRsp r \<and>
        rsp_req_id r \<notin> dom (callbacks_rsp c)) \<or>
     (\<exists>m. e = FromClient (TaskUnsrv m) \<and> get_owner (unsrv_topic m) (subscriptions c) = None)"

lemma client_step_inv:
  assumes "client_inv c" and "wf_client_event e" and "hash_iteration ord"
  shows "client_inv (snd (client_step ord e c)) \<and>
     (fst (client_step ord e c) = ClientPanicked \<longrightarrow>
        excused e c \<and> snd (client_step ord e c) = c)"
proof (cases e)
  case (FromServer q)
  show ?thesis
  proof (cases q)
    case (Inr m)
    show ?thesis
      using after_receive_inv [OF assms(1,3), of m] assms(1)
      by (auto simp: client_step_def FromServer Inr Let_def excused_def
          split: option.splits sum.splits)
  qed (use assms(1) in \<open>auto simp: client_step_def FromServer\<close>)
next
  case (FromClient t)
  show ?thesis
  proof (cases "t = TaskStop \<or>
      (\<exists>m. t = TaskUnsrv m \<and> get_owner (unsrv_topic m) (subscriptions c) = None)")
    case True
    then show ?thesis using assms(1) FromClient
      by (auto simp: client_step_def excused_def client_send_def before_send_def Let_def)
  next
    case False
    then obtain r c' where "client_send t c = returns (r, c')" "client_inv c'"
      using client_send_total [OF assms(1), of t] assms(2) FromClient by auto
    then show ?thesis using False FromClient
      by (cases r) (auto simp: client_step_def)
  qed
next
  case KeepAliveTick
  obtain r c' where "client_send TaskKeepAlive c = returns (r, c')" "client_inv c'"
    using client_send_total [OF assms(1), of TaskKeepAlive] by (auto simp: wf_task_def)
  then show ?thesis using KeepAliveTick by (cases r) (auto simp: client_step_def)
qed (use assms(1) in \<open>auto simp: client_step_def\<close>)

lemma client_run_inv:
  assumes "hash_iteration ord" and "\<forall>e \<in> set es. wf_client_event e" and "client_inv c"
  shows "client_inv (snd (client_run ord es c)) \<and>
     (fst (client_run ord es c) = ClientPanicked \<longrightarrow>
        (\<exists>e \<in> set es. excused e (snd (client_run ord es c))))"
  using assms(2,3)
proof (induction es arbitrary: c)
  case (Cons e es)
  obtain out c1 where s: "client_step ord e c = (out, c1)" by fastforce
  have i: "client_inv c1" "out = ClientPanicked \<longrightarrow> excused e c1"
    using client_step_inv [OF Cons.prems(2) _ assms(1), of e] Cons.prems(1) s by auto
  show ?case
  proof (cases out)
    case ClientRunning
    then show ?thesis using Cons.IH [OF _ i(1)] Cons.prems(1) s by auto
  qed (use i s in auto)
qed simp

text \<open>
  Whatever a client's callers and its server do, its main loop keeps every local
  subscription and service tied to its callback, and it panics only on a response to a
  request that is not waiting or on giving up a service it does not hold.
\<close>

theorem client_loop_safe:
  assumes "hash_iteration ord" and "\<forall>e \<in> set es. wf_client_event e"
  shows "case client_run ord es (client_start acks rsps pubs reqs) of (out, c) \<Rightarrow>
     client_inv c \<and>
     (out = ClientPanicked \<longrightarrow> (\<exists>e \<in> set es.
        (\<exists>m r. e = FromServer (Inr m) \<and> content m = ServerRsp r \<and>
           rsp_req_id r \<notin> dom (callbacks_rsp c)) \<or>
        (\<exists>m. e = FromClient (TaskUnsrv m) \<and>
           get_owner (unsrv_topic m) (subscriptions c) = None)))"
  using client_run_inv [OF assms client_inv_start]
  by (auto simp: case_prod_beta excused_def)

definition demo_oneshots :: "nat \<Rightarrow> 'a oneshot" where
  "demo_oneshots = (\<lambda>_. new_oneshot)"

definition demo_chans :: "nat \<Rightarrow> 'a chan" where
  "demo_chans = (\<lambda>_. new_chan)"

definition demo_client :: client_core where
  "demo_client = client_start demo_oneshots demo_oneshots demo_chans demo_chans"

theorem client_loop_safe_witness:
  "client_inv (snd (client_run ascending [KeepAliveTick, FromClient (TaskUnsrv (UnsrvMsg demo_topic))]
     demo_client))"
  using client_loop_safe [OF ascending_order.hash_iteration_axioms,
      of "[KeepAliveTick, FromClient (TaskUnsrv (UnsrvMsg demo_topic))]"]
  by (auto simp: wf_task_def wf_demo_topic demo_client_def case_prod_beta)

section \<open>Numbering\<close>

definition numbered :: "client_core \<Rightarrow> bool" where
  "numbered c \<longleftrightarrow> cl_next_msg_id c = of_nat (length (sent c)) \<and>
     map mid (sent c) = map of_nat [1..<Suc (length (sent c))]"

lemma numbered_cong:
  "numbered c \<Longrightarrow> sent c' = sent c \<Longrightarrow> cl_next_msg_id c' = cl_next_msg_id c \<Longrightarrow> numbered c'"
  by (simp add: numbered_def)

lemma client_send_numbered:
  assumes "client_send task c = returns (Inr u, c')" and "numbered c"
  shows "numbered c'"
proof -
  obtain q c1 where q: "before_send task c = returns (q, c1)"
    "(case q of Inl e \<Rightarrow> (Inl e, c1) | Inr m \<Rightarrow> transport_send m c1) = (Inr u, c')"
    using assms(1) by (auto simp: client_send_def bus_simps)
  then obtain m where b: "before_send task c = returns (Inr m, c1)"
    and t: "transport_send m c1 = (Inr (), c')"
    by (cases q) auto
  have "sent c' = sent c @ [m]" "cl_next_msg_id c' = cl_next_msg_id c + 1"
    "mid m = cl_next_msg_id c + 1"
    using before_send_id [OF b] t by (auto simp: transport_send_def split: option.splits)
  then show ?thesis using assms(2) by (simp add: numbered_def add.commute)
qed

lemma send_unsubs_numbered:
  "send_unsubs ts c = returns (Inr u, c') \<Longrightarrow> numbered c \<Longrightarrow> numbered c'"
  by (induction ts arbitrary: c)
     (auto simp: bus_simps case_sum_eq_iff dest: client_send_numbered)

lemma notify_numbered:
  "notify p ids c = returns (Inr u, c') \<Longrightarrow> numbered c \<Longrightarrow> numbered c'"
proof (induction ids arbitrary: c)
  case (Cons k ids)
  obtain h where h: "callbacks_pub c k = Some h" using Cons.prems(1) by (cases "callbacks_pub c k") auto
  show ?case
  proof (cases "rx_alive (pub_chans c h)")
    case True
    let ?c = "c\<lparr>pub_chans := (pub_chans c)(h := (pub_chans c h)
      \<lparr>buffer := buffer (pub_chans c h) @ [p]\<rparr>)\<rparr>"
    have "numbered ?c" using Cons.prems(2) by (rule numbered_cong) simp_all
    then show ?thesis
      using Cons.IH [of ?c] Cons.prems(1) notify_step_live [OF h True] by simp
  next
    case False
    obtain d ts where "drop_client k (subscriptions c) = (d, ts)" by fastforce
    with False Cons.prems(1) h obtain c1 where
      "send_unsubs ts (c\<lparr>callbacks_pub := (callbacks_pub c)(k := None), subscriptions := d\<rparr>) =
         returns (Inr (), c1)" "notify p ids c1 = returns (Inr u, c')"
      by (auto simp: bus_simps case_sum_eq_iff)
    moreover have "numbered (c\<lparr>callbacks_pub := (callbacks_pub c)(k := None), subscriptions := d\<rparr>)"
      using Cons.prems(2) by (auto elim: numbered_cong)
    ultimately show ?thesis using Cons.IH send_unsubs_numbered by blast
  qed
qed simp

lemma client_step_numbered:
  assumes "client_step ord e c = (ClientRunning, c')" and "numbered c"
  shows "numbered c'"
proof (cases e)
  case (FromServer q)
  then obtain m u where "q = Inr m" "after_receive ord m c = returns (Inr u, c')"
    using assms(1) by (auto simp: client_step_def split: sum.splits option.splits)
  moreover have "numbered c'" if "content m = ServerPub p" for p
    using that calculation(2) assms(2) by (auto simp: after_receive_def dest: notify_numbered)
  ultimately show ?thesis using assms(2)
    by (cases "content m") (auto simp: after_receive_def elim!: numbered_cong
        split: option.splits)
qed (use assms in \<open>auto simp: client_step_def dest: client_send_numbered
      split: option.splits sum.splits if_splits\<close>)

lemma client_run_numbered:
  "client_run ord es c = (ClientRunning, c') \<Longrightarrow> numbered c \<Longrightarrow> numbered c'"
  by (induction es arbitrary: c)
     (auto split: prod.splits client_outcome.splits dest: client_step_numbered)

lemma numbered_distinct: "numbered c \<Longrightarrow> length (sent c) < 2 ^ 32 \<Longrightarrow> distinct (map mid (sent c))"
proof -
  assume n: "numbered c" and "length (sent c) < 2 ^ 32"
  then have "inj_on (of_nat :: nat \<Rightarrow> u32) {1..<Suc (length (sent c))}"
    by (auto intro!: inj_onI simp: word_of_nat_eq_iff take_bit_nat_eq_self)
  then have "distinct (map (of_nat :: nat \<Rightarrow> u32) [1..<Suc (length (sent c))])"
    unfolding distinct_map set_upt by simp
  then show ?thesis using n unfolding numbered_def by metis
qed

text \<open>
  As long as its loop runs, a client numbers what it sends 1, 2, 3 and so on in the
  order sent, keep-alives and automatic unsubscriptions included: no id is skipped, and
  none is used twice in fewer than \<open>2 ^ 32\<close> messages.
\<close>

theorem client_numbers_its_messages:
  assumes "client_run ord es (client_start acks rsps pubs reqs) = (ClientRunning, c)"
  shows "map mid (sent c) = map of_nat [1..<Suc (length (sent c))] \<and>
     (length (sent c) < 2 ^ 32 \<longrightarrow> distinct (map mid (sent c)))"
proof -
  have n: "numbered c"
    by (rule client_run_numbered [OF assms]) (simp add: numbered_def client_start_def)
  then show ?thesis using numbered_distinct unfolding numbered_def by blast
qed

theorem client_numbers_its_messages_witness:
  "\<exists>c. client_run ascending [KeepAliveTick, KeepAliveTick] demo_client = (ClientRunning, c) \<and>
     map mid (sent c) = [1, 2]"
proof -
  obtain c where c: "client_run ascending [KeepAliveTick, KeepAliveTick] demo_client =
      (ClientRunning, c)" "length (sent c) = 2"
    by (simp add: demo_client_def client_start_def client_step_def client_send_def before_send_def
        transport_send_def Let_def)
  with client_numbers_its_messages [of ascending "[KeepAliveTick, KeepAliveTick]" demo_oneshots
      demo_oneshots demo_chans demo_chans c]
  show ?thesis by (simp add: demo_client_def numeral_2_eq_2)
qed

section \<open>Answers find their callers\<close>

text \<open>
  C26: the acknowledgement and the response of a request reach the channels the caller
  handed in with it, whatever other answers are outstanding, and each is delivered once:
  a second acknowledgement of the same id is ignored.
\<close>

theorem answers_reach_their_caller:
  assumes "client_send (TaskReq q ha hr) c = returns (Inr (), c1)"
    and "os_rx (ack_cells c1 ha)" and "os_rx (rsp_cells c1 hr)"
    and "ack_msg_id a = mid (last (sent c1))" and "rsp_req_id r = mid (last (sent c1))"
  shows "content (last (sent c1)) = ClientReq q \<and>
     (\<exists>c2 c3. after_receive ord (Msg i (ServerAck a)) c1 = returns (Inr (), c2) \<and>
        after_receive ord (Msg j (ServerRsp r)) c2 = returns (Inr (), c3) \<and>
        slot (ack_cells c3 ha) = Some a \<and> slot (rsp_cells c3 hr) = Some r \<and>
        (\<forall>h. h \<noteq> ha \<longrightarrow> ack_cells c3 h = ack_cells c1 h) \<and>
        (\<forall>h. h \<noteq> hr \<longrightarrow> rsp_cells c3 h = rsp_cells c1 h) \<and>
        callbacks_ack c3 = (callbacks_ack c1)(ack_msg_id a := None) \<and>
        callbacks_rsp c3 = (callbacks_rsp c1)(rsp_req_id r := None) \<and>
        after_receive ord (Msg k (ServerAck a)) c3 = returns (Inr (), c3))"
proof -
  let ?i = "cl_next_msg_id c + 1"
  have c1: "c1 = (insert_rsp ?i hr (insert_ack ?i ha (c\<lparr>cl_next_msg_id := ?i\<rparr>)))
      \<lparr>sent := sent c @ [Msg ?i (ClientReq q)]\<rparr>"
    using assms(1)
    by (auto simp: client_send_def before_send_def transport_send_def Let_def split: option.splits)
  then have "last (sent c1) = Msg ?i (ClientReq q)"
    "callbacks_ack c1 ?i = Some ha" "callbacks_rsp c1 ?i = Some hr" by simp_all
  then show ?thesis
    using assms(2-5) by (simp add: after_receive_def os_send_def)
qed

definition demo_req :: req_msg where
  "demo_req = \<lparr>req_topic = demo_topic, req_payload = demo_payload\<rparr>"

theorem answers_reach_their_caller_witness:
  "\<exists>c1 c2. client_send (TaskReq demo_req 0 0) demo_client = returns (Inr (), c1) \<and>
     after_receive ascending (Msg 0 (ServerAck (ack_for 1 (Inr None)))) c1 = returns (Inr (), c2) \<and>
     slot (ack_cells c2 0) = Some (ack_for 1 (Inr None))"
proof -
  obtain c1 where c1: "client_send (TaskReq demo_req 0 0) demo_client = returns (Inr (), c1)"
    "os_rx (ack_cells c1 0)" "os_rx (rsp_cells c1 0)" "mid (last (sent c1)) = 1"
    by (simp add: demo_client_def client_start_def client_send_def before_send_def insert_ack_def
        insert_rsp_def transport_send_def demo_oneshots_def new_oneshot_def drop_replaced_def Let_def)
  from answers_reach_their_caller [OF c1(1-3), of "ack_for 1 (Inr None)"
      "\<lparr>rsp_req_id = 1, rsp_status = StatusOk, rsp_payload = demo_payload\<rparr>" ascending 0 0 0]
  obtain c2 c3 where "after_receive ascending (Msg 0 (ServerAck (ack_for 1 (Inr None)))) c1 =
      returns (Inr (), c2)" "slot (ack_cells c3 0) = Some (ack_for 1 (Inr None))"
    "after_receive ascending (Msg 0 (ServerRsp
      \<lparr>rsp_req_id = 1, rsp_status = StatusOk, rsp_payload = demo_payload\<rparr>)) c2 = returns (Inr (), c3)"
    using c1(4) by auto
  moreover have "ack_cells c3 = ack_cells c2"
    using calculation(3) by (auto simp: after_receive_def split: option.splits)
  ultimately show ?thesis using c1(1) by auto
qed

section \<open>Publications reach the callbacks\<close>

text \<open>
  C27: a message published by the server goes once to every local subscription whose
  pattern shares a concrete topic with it and whose receiver is still there; subscriptions
  whose receiver is gone are forgotten, and the server is told, once each, of the topics
  that have no local subscription left.
\<close>

theorem publication_reaches_live_callbacks:
  fixes c :: client_core and p :: pub_msg
  defines "S \<equiv> audience (registry_of (subscriptions c)) (pub_topic p)"
  assumes "client_inv c" and "hash_iteration ord" and "sink_error c = None"
    and "wf_topic (pub_topic p)"
  shows "\<exists>c' ts. after_receive ord (Msg i (ServerPub p)) c = returns (Inr (), c') \<and>
     (\<forall>h. buffer (pub_chans c' h) = buffer (pub_chans c h) @
        (if rx_alive (pub_chans c h)
         then replicate (card {k \<in> S. callbacks_pub c k = Some h}) p else [])) \<and>
     (\<forall>u. subs_of (subscriptions c') u = subs_of (subscriptions c) u - {k \<in> S. \<not> live c k}) \<and>
     distinct ts \<and> set ts = {u. subs_of (subscriptions c) u \<noteq> {} \<and> subs_of (subscriptions c') u = {}} \<and>
     map content (sent c') = map content (sent c) @ map (\<lambda>t. ClientUnsub (UnsubMsg t)) ts \<and>
     client_inv c'"
proof -
  have S: "matching (subscriptions c) (pub_topic p) = S"
    using assms(2,5) by (auto simp: S_def matching_audience)
  have fin: "finite S" using assms(2) S by (auto intro: finite_matching)
  note ord = hash_iteration.set_ord [OF assms(3) fin] hash_iteration.distinct_ord [OF assms(3) fin]
  have "S \<subseteq> dom (callbacks_pub c)"
    using assms(2) by (auto simp: client_inv_def audience_def S_def)
  then obtain c' where c': "notify p (ord S) c = returns (Inr (), c')" "notified p (ord S) c c'"
    using notify_spec [OF assms(2) ord(2) _ assms(4), of p] ord(1) by auto
  have n: "copies c (ord S) h = (if rx_alive (pub_chans c h)
      then card {k \<in> S. callbacks_pub c k = Some h} else 0)" for h
    using distinct_card [of "filter (\<lambda>k. callbacks_pub c k = Some h) (ord S)"] ord
    by (simp add: copies_def)
  have "after_receive ord (Msg i (ServerPub p)) c = returns (Inr (), c')"
    using c'(1) by (simp add: after_receive_def get_subscribers_eq S)
  moreover obtain ts where "distinct ts" "set ts = orphaned c c'"
    "map content (sent c') = map content (sent c) @ map (\<lambda>t. ClientUnsub (UnsubMsg t)) ts"
    using c'(2) by (auto simp: notified_def)
  ultimately show ?thesis
    using c'(2) unfolding notified_def n ord(1) orphaned_def
    by (intro exI [of _ c'] exI [of _ ts]) auto
qed

definition demo_listening :: client_core where
  "demo_listening =
     (case before_send (TaskSub (SubMsg demo_topic) 0 5) demo_client of
        Some (_, c) \<Rightarrow> c | None \<Rightarrow> demo_client)"

lemma demo_listening_facts:
  "client_inv demo_listening" "sink_error demo_listening = None"
  "audience (registry_of (subscriptions demo_listening)) demo_topic = {1}"
  "callbacks_pub demo_listening = [1 \<mapsto> 5]" "rx_alive (pub_chans demo_listening 5)"
proof -
  obtain d where d: "subscribe 1 demo_topic directory_new = returns d" "dir_inv d"
    "\<And>u. subs_of d u = (if u = demo_topic then insert 1 (subs_of directory_new demo_topic)
      else subs_of directory_new u)"
    by (rule subscribe_spec [OF dir_inv_new(1) wf_demo_topic, of 1]) (rule that)
  have b: "before_send (TaskSub (SubMsg demo_topic) 0 5) demo_client =
      returns (Inr (Msg 1 (ClientSub (SubMsg demo_topic))), demo_listening)"
    using d(1) by (simp add: before_send_def demo_listening_def demo_client_def client_start_def Let_def)
  have f: "subscriptions demo_listening = d" "callbacks_pub demo_listening = [1 \<mapsto> 5]"
    "sink_error demo_listening = None" "rx_alive (pub_chans demo_listening 5)"
    using d(1) by (simp_all add: demo_listening_def before_send_def demo_client_def
        client_start_def demo_chans_def new_chan_def insert_ack_def Let_def)
  show "client_inv demo_listening"
    by (rule before_send_inv [OF b]) (simp_all add: demo_client_def client_inv_start wf_task_def
        wf_demo_topic)
  have "matching d demo_topic = {1}"
    using demo_overlap(1) by (auto simp: matching_eq [OF d(2)] d(3) dir_inv_new split: if_splits)
  then show "audience (registry_of (subscriptions demo_listening)) demo_topic = {1}"
    using matching_audience [OF d(2) wf_demo_topic] f(1) by simp
  show "sink_error demo_listening = None" "callbacks_pub demo_listening = [1 \<mapsto> 5]"
    "rx_alive (pub_chans demo_listening 5)" by (rule f)+
qed

theorem publication_reaches_live_callbacks_witness:
  "\<exists>c'. after_receive ascending (Msg 0 (ServerPub demo_pub)) demo_listening = returns (Inr (), c') \<and>
     buffer (pub_chans c' 5) = buffer (pub_chans demo_listening 5) @ [demo_pub]"
proof -
  have "{k. k = (1::u32) \<and> callbacks_pub demo_listening k = Some 5} = {1}"
    by (auto simp: demo_listening_facts)
  then show ?thesis
    using publication_reaches_live_callbacks [OF demo_listening_facts(1)
        ascending_order.hash_iteration_axioms demo_listening_facts(2), of demo_pub 0]
    by (fastforce simp: demo_listening_facts wf_demo_topic)
qed

section \<open>What the client does not survive, and what it forgets\<close>

text \<open>
  Serving a topic that this client already serves, or one with a wildcard, ends the
  client's main loop with the local directory's error before anything is sent, so every
  other subscription and request of the client is lost with it.
\<close>

theorem failed_local_claim_ends_client:
  assumes "client_inv c" and "wf_topic t"
    and "topic_wild t \<or> (\<exists>k. owner_of (subscriptions c) t = Some k \<and> k \<noteq> cl_next_msg_id c + 1)"
  shows "\<exists>e c'. client_run ord (FromClient (TaskSrv (SrvMsg t) ack req) # es) c =
       (ClientStopped (Inl e), c') \<and>
     e = (if topic_wild t then ClaimWildcardNotSupported else TopicAlreadyClaimed) \<and>
     sent c' = sent c"
proof -
  let ?i = "cl_next_msg_id c + 1"
  obtain d where d: "claim ?i t (subscriptions c) = returns (claim_result ?i t (subscriptions c), d)"
    by (rule claim_spec [OF client_inv_dir [OF assms(1)] assms(2)]) (rule that)
  have r: "claim_result ?i t (subscriptions c) =
      Inl (if topic_wild t then ClaimWildcardNotSupported else TopicAlreadyClaimed)"
    using assms(3) by (auto simp: claim_result_def)
  show ?thesis
    using d r by (simp add: client_step_def client_send_def before_send_srv)
qed

theorem failed_local_claim_ends_client_witness:
  "\<exists>e c'. client_run ascending (FromClient (TaskSrv (SrvMsg demo_any) 0 0) # [KeepAliveTick])
       demo_client = (ClientStopped (Inl e), c')"
proof -
  have "topic_wild demo_any" by (simp add: topic_wild_def WILDCARD_def)
  moreover have "wf_topic demo_any"
    by (auto simp: demo_any_def wf_topic_def valid_protocol_def wf_path_def path_segments_def
        is_root_def valid_segment_def PATH_SEPARATOR_def WILDCARD_def DOUBLE_WILDCARD_def)
  ultimately show ?thesis
    using failed_local_claim_ends_client [OF client_inv_start, of demo_any demo_oneshots
        demo_oneshots demo_chans demo_chans ascending 0 0 "[KeepAliveTick]"]
    by (auto simp: demo_client_def)
qed

text \<open>
  C28: when a client that subscribed twice to a topic drops one of the subscriptions, both
  stay in its own directory but the server forgets the client as a subscriber of the
  topic, so the subscription that is still held gets nothing more.
\<close>

theorem dropping_one_subscription_silences_the_other:
  assumes "i \<noteq> j" and "{i, j} \<subseteq> subs_of (subscriptions k) t" and "sink_error k = None"
    and "core_inv c" and "protocol_server_senders c cid = Some h" and "rx_alive (chans c h)"
  shows "\<exists>k' c'. client_send (TaskUnsub (UnsubMsg t)) k = returns (Inr (), k') \<and>
     {i, j} \<subseteq> subs_of (subscriptions k') t \<and>
     process_msg rt cid (last (sent k')) c = returns (Inr False, c') \<and>
     reg_subs (registry_of (directory c')) t = reg_subs (registry_of (directory c)) t - {cid}"
proof -
  let ?m = "Msg (cl_next_msg_id k + 1) (ClientUnsub (UnsubMsg t))"
  have k': "client_send (TaskUnsub (UnsubMsg t)) k = returns (Inr (),
      k\<lparr>cl_next_msg_id := cl_next_msg_id k + 1, sent := sent k @ [?m]\<rparr>)"
    using assms(3) by (simp add: client_send_unsub transport_send_def)
  obtain d where d: "unsubscribe cid t (directory c) = (Inr (), d)"
    "\<And>u. subs_of d u = (if u = t then subs_of (directory c) t - {cid} else subs_of (directory c) u)"
    by (rule unsubscribe_spec [OF core_inv_dir [OF assms(4)]]) (rule that)
  have "handled rt cid ?m c = returns (Inr None, c\<lparr>directory := d\<rparr>)"
    using d(1) by (simp add: handled_def dispatch_def core_unsubscribe_def)
  from process_msg_push [OF this assms(5,6)] k' d(2) assms(2) show ?thesis by simp
qed

definition demo_twice :: client_core where
  \<comment> \<open>messages 1 and 3 subscribed to \<open>p:a\<close>\<close>
  "demo_twice = demo_client\<lparr>callbacks_pub := [1 \<mapsto> 5, 3 \<mapsto> 6], callbacks_req := [2 \<mapsto> 0],
     subscriptions :=
       (case subscribe 3 demo_topic demo_directory of Some d \<Rightarrow> d | None \<Rightarrow> demo_directory)\<rparr>"

lemma demo_twice_subs: "subs_of (subscriptions demo_twice) demo_topic = {1, 3}"
proof -
  obtain d where "subscribe 3 demo_topic demo_directory = returns d"
    "\<And>u. subs_of d u = (if u = demo_topic then insert 3 (subs_of demo_directory demo_topic)
      else subs_of demo_directory u)"
    by (rule subscribe_spec [OF demo_facts(3) wf_demo_topic, of 3]) (rule that)
  then show ?thesis by (auto simp: demo_twice_def demo_facts)
qed

theorem dropping_one_subscription_silences_the_other_witness:
  "\<exists>k' c'. client_send (TaskUnsub (UnsubMsg demo_topic)) demo_twice = returns (Inr (), k') \<and>
     subs_of (subscriptions k') demo_topic \<supseteq> {1, 3} \<and>
     process_msg demo_runtime 1 (last (sent k')) demo_core = returns (Inr False, c') \<and>
     reg_subs (registry_of (directory c')) demo_topic = {}"
  using dropping_one_subscription_silences_the_other
    [of 1 3 demo_twice demo_topic demo_core 1 0 demo_runtime]
  by (auto simp: demo_twice_subs demo_facts demo_core_facts)
     (auto simp: demo_twice_def demo_client_def client_start_def)

end
