(* ===== verification/Codec.thy ===== *)
theory Codec
  imports Protocol "HOL-Library.Sublist"
begin

unbundle bit_operations_syntax

text \<open>
  \<open>transport/cbor_codec.rs\<close>: the framing of messages on a byte stream, a big-endian length
  of four bytes followed by the message in CBOR. The CBOR reader and writer (crate
  \<open>ciborium\<close>) are parameters; \<open>None\<close> is their error.
\<close>

section \<open>Big-endian words\<close>

definition to_be_bytes :: "u32 \<Rightarrow> bytes" where
  "to_be_bytes w = [ucast (drop_bit 24 w), ucast (drop_bit 16 w), ucast (drop_bit 8 w), ucast w]"

fun from_be_bytes :: "bytes \<Rightarrow> u32" where
  "from_be_bytes bs = fold (\<lambda>b w. push_bit 8 w OR ucast b) bs 0"

lemma length_to_be_bytes [simp]: "length (to_be_bytes w) = 4"
  by (simp add: to_be_bytes_def)

lemma from_to_be_bytes [simp]: "from_be_bytes (to_be_bytes w) = w"
proof (rule bit_word_eqI)
  fix n
  assume "n < LENGTH(32)"
  then have "n < 32" by simp
  then consider "n < 8" | "8 \<le> n" "n < 16" | "16 \<le> n" "n < 24" | "24 \<le> n" "n < 32" by linarith
  then show "bit (from_be_bytes (to_be_bytes w)) n = bit w n"
    by cases (auto simp: to_be_bytes_def bit_simps)
qed

section \<open>The codec\<close>

definition ser :: "('a \<Rightarrow> bytes option) \<Rightarrow> 'a \<Rightarrow> bytes result" where
  "ser into_writer v = (case into_writer v of Some d \<Rightarrow> Inr d | None \<Rightarrow> Inl from_ser_error)"

definition deser :: "(bytes \<Rightarrow> 'a option) \<Rightarrow> bytes \<Rightarrow> 'a result" where
  "deser from_reader d = (case from_reader d of Some v \<Rightarrow> Inr v | None \<Rightarrow> Inl from_de_error)"

definition decode ::
    "(bytes \<Rightarrow> 'a option) \<Rightarrow> bytes \<Rightarrow> 'a option result \<times> bytes" where
  \<comment> \<open>the buffer comes back as the call leaves it\<close>
  "decode from_reader src =
     (let buf_len = length src in
      if buf_len < 4 then (Inr None, src)
      else
        let payload_len = unat (from_be_bytes (take 4 src)) in
        if payload_len > MAX_MESSAGE_SIZE_BYTES
        then (Inl (IOError ''Max message length exceeded''), src)
        else
          let msg_len = payload_len + 4 in
          if buf_len < msg_len then (Inr None, src)
          else (case deser from_reader (drop 4 (take msg_len src)) of
                  Inr msg \<Rightarrow> (Inr (Some msg), drop msg_len src)
                | Inl e \<Rightarrow> (Inl e, src)))"

definition encode ::
    "('a \<Rightarrow> bytes option) \<Rightarrow> 'a \<Rightarrow> bytes \<Rightarrow> unit result \<times> bytes" where
  "encode into_writer item dst =
     (case ser into_writer item of
        Inl e \<Rightarrow> (Inl e, dst)
      | Inr d \<Rightarrow> (Inr (), dst @ to_be_bytes (of_nat (length d)) @ d))"

text \<open>
  The conversions a request protocol offers between JSON and its wire form; the JSON crate
  is a parameter with its error text.
\<close>

definition json_to_cbor ::
    "('j \<Rightarrow> string + 'a) \<Rightarrow> ('a \<Rightarrow> bytes option) \<Rightarrow> 'j \<Rightarrow> bytes result" where
  "json_to_cbor from_value into_writer json =
     (case from_value json of Inl e \<Rightarrow> Inl (from_json_error e) | Inr obj \<Rightarrow> ser into_writer obj)"

definition cbor_to_json ::
    "(bytes \<Rightarrow> 'b option) \<Rightarrow> ('b \<Rightarrow> string + 'j) \<Rightarrow> bytes \<Rightarrow> 'j result" where
  "cbor_to_json from_reader to_value d =
     (case deser from_reader d of
        Inl e \<Rightarrow> Inl e
      | Inr obj \<Rightarrow> (case to_value obj of Inl e \<Rightarrow> Inl (from_json_error e) | Inr json \<Rightarrow> Inr json))"

definition cbor_law :: "('a \<Rightarrow> bytes option) \<Rightarrow> (bytes \<Rightarrow> 'a option) \<Rightarrow> bool" where
  \<comment> \<open>what the code relies on of the CBOR crate\<close>
  "cbor_law into_writer from_reader \<longleftrightarrow>
     (\<forall>v d. into_writer v = Some d \<longrightarrow> from_reader d = Some v)"

section \<open>Frames\<close>

definition frame :: "bytes \<Rightarrow> bytes" where
  "frame d = to_be_bytes (of_nat (length d)) @ d"

lemma encode_frame: "into_writer v = Some d \<Longrightarrow> encode into_writer v dst = (Inr (), dst @ frame d)"
  by (simp add: encode_def ser_def frame_def)

definition fits :: "bytes \<Rightarrow> bool" where
  "fits d \<longleftrightarrow> length d \<le> MAX_MESSAGE_SIZE_BYTES"

lemma unat_length: "length d < 2 ^ 32 \<Longrightarrow> unat (of_nat (length d) :: u32) = length d"
  by (simp add: unat_of_nat take_bit_nat_eq_self)

lemma fits_small: "fits d \<Longrightarrow> length d < 2 ^ 32"
  by (simp add: fits_def MAX_MESSAGE_SIZE_BYTES_def)

lemma decode_frame:
  assumes "fits d" and "from_reader d = Some v"
  shows "decode from_reader (frame d @ rest) = (Inr (Some v), rest)"
  using assms unat_length [OF fits_small [OF assms(1)]]
  by (simp add: decode_def frame_def Let_def deser_def fits_def del: from_be_bytes.simps)

lemma decode_prefix:
  assumes "fits d" and "frame d = src @ missing" and "missing \<noteq> []"
  shows "decode from_reader src = (Inr None, src)"
proof (cases "length src < 4")
  case False
  then have t: "take 4 src = to_be_bytes (of_nat (length d))"
    using assms(2) by (metis frame_def append_eq_append_conv_if append_take_drop_id
        length_to_be_bytes not_le_imp_less order_le_less take_append length_take min.absorb2
        append_eq_conv_conj)
  have "length src + length missing = length d + 4"
    using arg_cong [OF assms(2), of length] by (simp add: frame_def)
  with assms(3) have "length src < length d + 4" by (cases missing) auto
  with False t show ?thesis
    using assms(1) unat_length [OF fits_small [OF assms(1)]]
    by (simp add: decode_def Let_def fits_def del: from_be_bytes.simps)
qed (simp add: decode_def)

section \<open>Reading a stream in chunks\<close>

text \<open>
  How the framed reader of \<open>tokio_util\<close> drives the codec: after every chunk that arrives
  it decodes until the codec asks for more.
\<close>

lemma decode_shrinks:
  "decode from_reader buf = (Inr (Some m), buf') \<Longrightarrow> length buf' < length buf"
  by (auto simp: decode_def Let_def simp del: from_be_bytes.simps split: if_splits sum.splits)

function drain ::
    "(bytes \<Rightarrow> 'a option) \<Rightarrow> bytes \<Rightarrow> 'a list \<times> bytes \<times> bus_error option" where
  "drain from_reader buf =
     (case decode from_reader buf of
        (Inr None, buf) \<Rightarrow> ([], buf, None)
      | (Inl e, buf) \<Rightarrow> ([], buf, Some e)
      | (Inr (Some m), buf') \<Rightarrow>
          (case drain from_reader buf' of (ms, rest) \<Rightarrow> (m # ms, rest)))"
  by pat_completeness auto
termination
  by (relation "measure (\<lambda>(f, buf). length buf)") (auto dest: decode_shrinks [OF sym])

declare drain.simps [simp del]

fun feed :: "(bytes \<Rightarrow> 'a option) \<Rightarrow> bytes \<Rightarrow> bytes list \<Rightarrow> 'a list \<times> bytes \<times> bus_error option" where
  "feed from_reader buf [] = ([], buf, None)"
| "feed from_reader buf (chunk # chunks) =
     (case drain from_reader (buf @ chunk) of
        (ms, buf, Some e) \<Rightarrow> (ms, buf, Some e)
      | (ms, buf, None) \<Rightarrow>
          (case feed from_reader buf chunks of (ns, rest) \<Rightarrow> (ms @ ns, rest)))"

definition readable :: "(bytes \<Rightarrow> 'a option) \<Rightarrow> bytes list \<Rightarrow> 'a list \<Rightarrow> bool" where
  "readable from_reader ds vs \<longleftrightarrow> list_all2 (\<lambda>d v. fits d \<and> from_reader d = Some v) ds vs"

abbreviation frames :: "bytes list \<Rightarrow> bytes" where
  "frames ds \<equiv> concat (map frame ds)"

lemma length_frame [simp]: "length (frame d) = length d + 4"
  by (simp add: frame_def)

lemma drain_frames:
  assumes "readable from_reader ds vs" and "buf @ future = frames ds"
  shows "\<exists>k rest. k \<le> length ds \<and> drain from_reader buf = (take k vs, rest, None) \<and>
     rest @ future = frames (drop k ds) \<and> (future = [] \<longrightarrow> k = length ds)"
  using assms
proof (induction ds arbitrary: vs buf)
  case Nil
  then show ?case by (simp add: drain.simps [of from_reader "[]"] decode_def)
next
  case (Cons d ds)
  then obtain v ws where vs: "vs = v # ws" "fits d" "from_reader d = Some v"
    "readable from_reader ds ws"
    by (auto simp: readable_def list_all2_Cons1)
  show ?case
  proof (cases "length buf < length (frame d)")
    case True
    then obtain missing where "buf @ missing = frame d"
      using Cons.prems(2) by (auto simp: append_eq_append_conv2)
    then have m: "frame d = buf @ missing" by (rule sym)
    then have "missing \<noteq> []" using True by auto
    then have "drain from_reader buf = ([], buf, None)"
      using decode_prefix [OF vs(2) m, of from_reader]
      by (simp add: drain.simps [of from_reader buf])
    moreover have "future \<noteq> []"
      using True arg_cong [OF Cons.prems(2), of length] by auto
    ultimately show ?thesis using Cons.prems(2) by (intro exI [of _ 0]) simp
  next
    case False
    then have "take (length (frame d)) buf = frame d"
      using arg_cong [OF Cons.prems(2), of "take (length (frame d))"]
      by (simp del: length_frame)
    then obtain buf' where buf: "buf = frame d @ buf'" by (metis append_take_drop_id)
    then have "buf' @ future = frames ds" using Cons.prems(2) by simp
    then obtain k rest where k: "k \<le> length ds" "drain from_reader buf' = (take k ws, rest, None)"
      "rest @ future = frames (drop k ds)" "future = [] \<longrightarrow> k = length ds"
      using Cons.IH [OF vs(4)] by blast
    have "drain from_reader buf = (v # take k ws, rest, None)"
      using decode_frame [of d from_reader v buf'] vs(2,3) k(2) buf
      by (simp add: drain.simps [of from_reader "frame d @ buf'"])
    then show ?thesis using k vs(1) by (intro exI [of _ "Suc k"] exI [of _ rest]) simp
  qed
qed

lemma frames_empty: "frames ds = [] \<Longrightarrow> ds = []"
  by (cases ds) (auto simp: frame_def to_be_bytes_def)

lemma feed_frames:
  assumes "readable from_reader ds vs" and "buf @ concat chunks = frames ds"
    and "chunks = [] \<longrightarrow> buf = []"
  shows "feed from_reader buf chunks = (vs, [], None)"
  using assms
proof (induction chunks arbitrary: buf ds vs)
  case Nil
  then show ?case using frames_empty [of ds] by (auto simp: readable_def)
next
  case (Cons chunk chunks)
  obtain k rest where k: "k \<le> length ds" "drain from_reader (buf @ chunk) = (take k vs, rest, None)"
    "rest @ concat chunks = frames (drop k ds)" "concat chunks = [] \<longrightarrow> k = length ds"
    using drain_frames [OF Cons.prems(1), of "buf @ chunk" "concat chunks"] Cons.prems(2) by auto
  have "readable from_reader (drop k ds) (drop k vs)"
    using Cons.prems(1) by (simp add: readable_def list_all2_dropI)
  moreover have "chunks = [] \<longrightarrow> rest = []" using k(3,4) by auto
  ultimately have "feed from_reader rest chunks = (drop k vs, [], None)"
    using Cons.IH k(3) by blast
  then show ?case using k(2) by simp
qed

section \<open>The codec as an interface\<close>

text \<open>
  What the transports rely on: whatever is encoded decodes to itself and leaves the bytes
  that follow untouched. The interpretation below provides it from the codec's model.
\<close>

locale framing =
  fixes enc :: "'a \<Rightarrow> bytes \<Rightarrow> unit result \<times> bytes"
    and dec :: "bytes \<Rightarrow> 'a option result \<times> bytes"
    and small :: "'a \<Rightarrow> bool"
  assumes enc_appends: "enc v dst = (r, dst') \<Longrightarrow> \<exists>d. dst' = dst @ d"
    and dec_enc: "small v \<Longrightarrow> enc v [] = (Inr (), d) \<Longrightarrow> dec (d @ rest) = (Inr (Some v), rest)"
begin

lemma enc_injective:
  assumes "small v" and "small w" and "enc v [] = (Inr (), d)" and "enc w [] = (Inr (), d)"
  shows "v = w"
  using dec_enc [OF assms(1,3), of "[]"] dec_enc [OF assms(2,4), of "[]"] by simp

end

definition writable :: "('a \<Rightarrow> bytes option) \<Rightarrow> 'a \<Rightarrow> bool" where
  "writable into_writer v \<longleftrightarrow> (case into_writer v of Some d \<Rightarrow> fits d | None \<Rightarrow> False)"

lemma framing_codec:
  assumes "cbor_law into_writer from_reader"
  shows "framing (encode into_writer) (decode from_reader) (writable into_writer)"
proof
  show "\<exists>d. dst' = dst @ d" if "encode into_writer v dst = (r, dst')" for v dst r dst'
    using that by (auto simp: encode_def split: sum.splits)
  show "decode from_reader (d @ rest) = (Inr (Some v), rest)"
    if w: "writable into_writer v" and e: "encode into_writer v [] = (Inr (), d)" for v d rest
  proof -
    obtain b where b: "into_writer v = Some b" "fits b"
      using w by (auto simp: writable_def split: option.splits)
    then have "d = frame b" using e by (simp add: encode_def ser_def frame_def)
    then show ?thesis
      using decode_frame [of b from_reader v rest] b assms by (auto simp: cbor_law_def)
  qed
qed

locale cbor =
  fixes into_writer :: "'a \<Rightarrow> bytes option"
    and from_reader :: "bytes \<Rightarrow> 'a option"
  assumes reads_back: "into_writer v = Some d \<Longrightarrow> from_reader d = Some v"

sublocale cbor \<subseteq> framing "encode into_writer" "decode from_reader" "writable into_writer"
  by (rule framing_codec) (simp add: cbor_law_def reads_back)

text \<open>Byte lists as their own CBOR form: an instance on which the interface runs.\<close>

interpretation byte_cbor: cbor Some Some
  by unfold_locales simp

section \<open>Properties\<close>

fun encode_all :: "('a \<Rightarrow> bytes option) \<Rightarrow> 'a list \<Rightarrow> bytes \<Rightarrow> unit result \<times> bytes" where
  \<comment> \<open>messages written one after the other into the same buffer\<close>
  "encode_all into_writer [] dst = (Inr (), dst)"
| "encode_all into_writer (v # vs) dst =
     (case encode into_writer v dst of
        (Inl e, dst) \<Rightarrow> (Inl e, dst)
      | (Inr _, dst) \<Rightarrow> encode_all into_writer vs dst)"

lemma encode_all_frames:
  assumes "\<forall>v \<in> set vs. writable into_writer v"
  shows "\<exists>ds. encode_all into_writer vs dst = (Inr (), dst @ frames ds) \<and>
     list_all2 (\<lambda>d v. fits d \<and> into_writer v = Some d) ds vs"
  using assms
proof (induction vs arbitrary: dst)
  case (Cons v vs)
  then obtain d where d: "into_writer v = Some d" "fits d"
    by (auto simp: writable_def split: option.splits)
  obtain ds where "encode_all into_writer vs (dst @ frame d) = (Inr (), (dst @ frame d) @ frames ds)"
    "list_all2 (\<lambda>d v. fits d \<and> into_writer v = Some d) ds vs"
    using Cons by fastforce
  then show ?case
    using d encode_frame [of into_writer v d dst] by (intro exI [of _ "d # ds"]) simp
qed simp

text \<open>
  C30: messages written to a connection are read from it in order, complete and unchanged,
  however the byte stream is cut into chunks on the way, when each is at most the maximal
  message size; nothing is left over in the reader's buffer.
\<close>

theorem stream_read_back_in_any_chunks:
  assumes "cbor_law into_writer from_reader" and "\<forall>v \<in> set vs. writable into_writer v"
    and "encode_all into_writer vs [] = (r, dst)" and "concat chunks = dst"
  shows "r = Inr () \<and> feed from_reader [] chunks = (vs, [], None)"
proof -
  obtain ds where ds: "encode_all into_writer vs [] = (Inr (), frames ds)"
    "list_all2 (\<lambda>d v. fits d \<and> into_writer v = Some d) ds vs"
    using encode_all_frames [OF assms(2), of "[]"] by auto
  have "readable from_reader ds vs"
    using ds(2) assms(1) by (auto simp: readable_def cbor_law_def elim!: list_all2_mono)
  then show ?thesis
    using feed_frames [of from_reader ds vs "[]" chunks] ds(1) assms(3,4) by auto
qed

theorem stream_read_back_in_any_chunks_witness:
  "feed Some [] [[0, 0], [0, 2, 7], [8, 0, 0, 0, 1], [], [9]] = ([[7, 8], [9]], [], None)"
  using stream_read_back_in_any_chunks [of Some Some "[[7, 8], [9]]" "Inr ()"
      "[0, 0, 0, 2, 7, 8, 0, 0, 0, 1, 9]" "[[0, 0], [0, 2, 7], [8, 0, 0, 0, 1], [], [9]]"]
  by (simp add: cbor_law_def writable_def fits_def MAX_MESSAGE_SIZE_BYTES_def encode_def ser_def
      to_be_bytes_def drop_bit_Suc)

lemma decode_waits:
  assumes "decode from_reader buf = (Inr None, buf')"
  shows "buf' = buf \<and> length buf < MAX_MESSAGE_SIZE_BYTES + 4"
  using assms
  by (auto simp: decode_def Let_def MAX_MESSAGE_SIZE_BYTES_def simp del: from_be_bytes.simps
      split: if_splits sum.splits)

lemma decode_suffix:
  assumes "decode from_reader buf = (r, buf')"
  shows "suffix buf' buf"
proof -
  have "snd (decode from_reader buf) = buf \<or>
      snd (decode from_reader buf) = drop (unat (from_be_bytes (take 4 buf)) + 4) buf"
    by (auto simp only: decode_def Let_def snd_conv split: if_split sum.split)
  then show ?thesis using assms by (metis snd_conv suffix_drop suffix_order.order_refl)
qed

lemma drain_suffix:
  "drain from_reader buf = (ms, rest, e) \<Longrightarrow>
   suffix rest buf \<and> (e = None \<longrightarrow> length rest < MAX_MESSAGE_SIZE_BYTES + 4)"
proof (induction "length buf" arbitrary: buf ms rule: less_induct)
  case less
  obtain r buf' where d: "decode from_reader buf = (r, buf')" by fastforce
  have s: "suffix buf' buf \<and> (r = Inr None \<longrightarrow> length buf' < MAX_MESSAGE_SIZE_BYTES + 4)"
    using decode_suffix [OF d] decode_waits d by blast
  show ?case
  proof (cases "\<exists>m. r = Inr (Some m)")
    case True
    then obtain m where r: "r = Inr (Some m)" by blast
    obtain ns where "drain from_reader buf' = (ns, rest, e)"
      using less.prems d r by (simp add: drain.simps [of from_reader buf] split: prod.splits)
    then have "suffix rest buf' \<and> (e = None \<longrightarrow> length rest < MAX_MESSAGE_SIZE_BYTES + 4)"
      using less.hyps [OF decode_shrinks [OF d [unfolded r]]] by blast
    then show ?thesis using s by (meson suffix_order.order_trans)
  next
    case False
    then show ?thesis
      using less.prems d s
      by (auto simp: drain.simps [of from_reader buf] split: sum.splits option.splits)
  qed
qed

lemma feed_suffix:
  "feed from_reader buf chunks = (ms, rest, None) \<Longrightarrow> length buf < MAX_MESSAGE_SIZE_BYTES + 4 \<Longrightarrow>
   suffix rest (buf @ concat chunks) \<and> length rest < MAX_MESSAGE_SIZE_BYTES + 4"
proof (induction chunks arbitrary: buf ms)
  case (Cons chunk chunks)
  obtain ks mid where d: "drain from_reader (buf @ chunk) = (ks, mid, None)"
    using Cons.prems(1) by (auto split: prod.splits option.splits)
  note s = drain_suffix [OF d]
  obtain ns where "feed from_reader mid chunks = (ns, rest, None)"
    using Cons.prems(1) d by (auto split: prod.splits)
  then have "suffix rest (mid @ concat chunks) \<and> length rest < MAX_MESSAGE_SIZE_BYTES + 4"
    using Cons.IH s by blast
  moreover have "suffix (mid @ concat chunks) ((buf @ chunk) @ concat chunks)"
    using s by (auto simp: suffix_def)
  ultimately show ?case by (metis append.assoc concat.simps(2) suffix_order.order_trans)
qed simp

text \<open>
  C31: however a stream is cut into chunks, and whatever it contains, what the reader
  holds back while it waits for more is an unread end of the stream shorter than one
  frame of the maximal size, so a peer cannot make it buffer more.
\<close>

theorem reader_buffers_at_most_one_frame:
  assumes "feed from_reader [] chunks = (ms, rest, None)"
  shows "suffix rest (concat chunks) \<and> length rest < MAX_MESSAGE_SIZE_BYTES + 4"
  using feed_suffix [OF assms] by (simp add: MAX_MESSAGE_SIZE_BYTES_def)

theorem reader_buffers_at_most_one_frame_witness:
  "feed Some [] [[0, 0], [0, 2, 7]] = ([], [0, 0, 0, 2, 7], None) \<and>
   suffix [0, 0, 0, 2, 7] (concat [[0, 0], [0, 2, 7 :: u8]])"
proof -
  have d: "feed Some [] [[0, 0], [0, 2, 7]] = ([], [0, 0, 0, 2, 7], None)"
    by (simp add: drain.simps decode_def MAX_MESSAGE_SIZE_BYTES_def)
  from reader_buffers_at_most_one_frame [OF d] d show ?thesis by blast
qed

text \<open>
  The writer does not check the size its reader insists on: a message longer than
  the maximum (and shorter than \<open>2 ^ 32\<close>) is written without an error, and the receiving
  end answers it with an error and never gets past it.
\<close>

theorem oversized_message_written_but_never_read:
  assumes "into_writer v = Some d" and "MAX_MESSAGE_SIZE_BYTES < length d" and "length d < 2 ^ 32"
  shows "\<exists>dst. encode into_writer v [] = (Inr (), dst) \<and>
     decode from_reader (dst @ rest) = (Inl (IOError ''Max message length exceeded''), dst @ rest) \<and>
     feed from_reader [] [dst @ rest] =
       ([], dst @ rest, Some (IOError ''Max message length exceeded''))"
proof -
  have "decode from_reader (frame d @ rest) =
      (Inl (IOError ''Max message length exceeded''), frame d @ rest)"
    using assms(2) unat_length [OF assms(3)]
    by (simp add: decode_def frame_def Let_def del: from_be_bytes.simps)
  then show ?thesis
    using encode_frame [of into_writer v d "[]"] assms(1)
    by (simp add: drain.simps [of from_reader "frame d @ rest"])
qed

theorem oversized_message_written_but_never_read_witness:
  "\<exists>dst. encode (\<lambda>n. Some (replicate n (0 :: u8))) (2 ^ 20 + 1) [] = (Inr (), dst) \<and>
     fst (decode Some dst) = Inl (IOError ''Max message length exceeded'')"
  using oversized_message_written_but_never_read
    [of "\<lambda>n. Some (replicate n (0 :: u8))" "2 ^ 20 + 1" "replicate (2 ^ 20 + 1) 0" Some "[]"]
  by (auto simp: MAX_MESSAGE_SIZE_BYTES_def simp del: replicate.simps replicate_Suc)

end
