(* ===== verification/Client_Api.thy ===== *)
theory Client_Api
  imports Client_Core Codec
begin

text \<open>
  \<open>client/mod.rs\<close>, \<open>client/subscription.rs\<close> and \<open>client/connector.rs\<close>: the calls of the
  public interface. A call creates the channels its answers come back on, hands a task to
  the client's main loop, and waits. Fresh channels get the next handle of the client;
  \<open>acks\<close> and \<open>rsps\<close> are the cells of the main loop (fields \<open>ack_cells\<close> and \<open>rsp_cells\<close> of
  \<open>client_core\<close>) as they are when the wait ends, which for acknowledgements is at the
  latest after \<open>ACK_TIMEOUT_S\<close> seconds. A protocol is its prefix with the CBOR writer and
  reader of its types.
\<close>

section \<open>Waiting\<close>

definition ACK_TIMEOUT_S :: nat where
  "ACK_TIMEOUT_S = 5"

datatype 'a awaited =
    Arrived 'a
  | SenderDropped
  | StillWaiting

definition await :: "'a oneshot \<Rightarrow> 'a awaited" where
  \<comment> \<open>what a oneshot receiver yields in the given state of the channel\<close>
  "await c =
     (case slot c of
        Some v \<Rightarrow> Arrived v
      | None \<Rightarrow> if os_tx c then StillWaiting else SenderDropped)"

definition expect_ack :: "ack_msg oneshot \<Rightarrow> nat option result" where
  "expect_ack receiver =
     (case await receiver of
        Arrived ack \<Rightarrow>
          (case ack_err ack of
             Some err \<Rightarrow> Inl (RequestFailed (display_error err))
           | None \<Rightarrow> Inr (num_recipients ack))
      | SenderDropped \<Rightarrow> Inl RequestFailedChannelClosed
      | StillWaiting \<Rightarrow> Inl RequestFailedTimeout)"

datatype 'a call =
    Returned "'a result"
  | CallPanics
  | Waits \<comment> \<open>the call has not returned yet\<close>

section \<open>The client\<close>

record client =
  cl_tasks :: "client_task list" \<comment> \<open>sent to the main loop so far\<close>
  cl_loop_alive :: bool \<comment> \<open>the loop still holds the receiver of its tasks\<close>
  cl_fresh :: nat \<comment> \<open>the handle of the next channel\<close>

definition new_client :: client where
  "new_client = \<lparr>cl_tasks = [], cl_loop_alive = True, cl_fresh = 0\<rparr>"

definition fresh_handle :: "client \<Rightarrow> nat \<times> client" where
  "fresh_handle cl = (cl_fresh cl, cl\<lparr>cl_fresh := cl_fresh cl + 1\<rparr>)"

definition send_to_loop :: "client_task \<Rightarrow> client \<Rightarrow> unit result \<times> client" where
  \<comment> \<open>\<open>task_sender.send\<close>\<close>
  "send_to_loop task cl =
     (if cl_loop_alive cl then (Inr (), cl\<lparr>cl_tasks := cl_tasks cl @ [task]\<rparr>)
      else (Inl from_send_error, cl))"

record ('r, 's) protocol_of =
  proto_prefix :: string
  write_value :: "'r \<Rightarrow> bytes option"
  read_value :: "bytes \<Rightarrow> 'r option"
  write_rsp :: "'s \<Rightarrow> bytes option"
  read_rsp :: "bytes \<Rightarrow> 's option"

section \<open>Publishing\<close>

definition publish_bytes ::
    "(bytes \<Rightarrow> bytes) \<Rightarrow> (nat \<Rightarrow> ack_msg oneshot) \<Rightarrow> topic \<Rightarrow> bytes \<Rightarrow> client \<Rightarrow>
     nat call \<times> client" where
  "publish_bytes gz_enc acks t payload cl =
     (let (ack, cl) = fresh_handle cl;
          task = TaskPub \<lparr>pub_topic = t, pub_payload = payload_from_bytes gz_enc payload\<rparr> ack
      in case send_to_loop task cl of
           (Inl e, cl) \<Rightarrow> (Returned (Inl e), cl)
         | (Inr _, cl) \<Rightarrow>
             (case expect_ack (acks ack) of
                Inl e \<Rightarrow> (Returned (Inl e), cl)
              | Inr None \<Rightarrow> (CallPanics, cl)
              | Inr (Some n) \<Rightarrow> (Returned (Inr n), cl)))"

definition publish ::
    "(rexp \<Rightarrow> string \<Rightarrow> bool) \<Rightarrow> (bytes \<Rightarrow> bytes) \<Rightarrow> ('r, 's) protocol_of \<Rightarrow>
     (nat \<Rightarrow> ack_msg oneshot) \<Rightarrow> path \<Rightarrow> 'r \<Rightarrow> client \<Rightarrow> nat call \<times> client" where
  "publish rx gz_enc P acks p v cl =
     (case topic_new rx (proto_prefix P) p of
        Inl e \<Rightarrow> (Returned (Inl e), cl)
      | Inr t \<Rightarrow>
          (case ser (write_value P) v of
             Inl e \<Rightarrow> (Returned (Inl e), cl)
           | Inr payload \<Rightarrow> publish_bytes gz_enc acks t payload cl))"

section \<open>Requests and responses\<close>

definition send_request ::
    "(bytes \<Rightarrow> bytes) \<Rightarrow> (nat \<Rightarrow> ack_msg oneshot) \<Rightarrow> (nat \<Rightarrow> rsp_msg oneshot) \<Rightarrow> topic \<Rightarrow> bytes \<Rightarrow>
     client \<Rightarrow> rsp_msg call \<times> client" where
  \<comment> \<open>the part \<open>request\<close> and \<open>request_bytes\<close> have in common\<close>
  "send_request gz_enc acks rsps t payload cl =
     (let (ack, cl) = fresh_handle cl;
          (rsp, cl) = fresh_handle cl;
          task = TaskReq \<lparr>req_topic = t, req_payload = payload_from_bytes gz_enc payload\<rparr> ack rsp
      in case send_to_loop task cl of
           (Inl e, cl) \<Rightarrow> (Returned (Inl e), cl)
         | (Inr _, cl) \<Rightarrow>
             (case expect_ack (acks ack) of
                Inl e \<Rightarrow> (Returned (Inl e), cl)
              | Inr _ \<Rightarrow>
                  (case await (rsps rsp) of
                     Arrived r \<Rightarrow> (Returned (Inr r), cl)
                   | SenderDropped \<Rightarrow> (Returned (Inl (from_recv_error ''channel closed'')), cl)
                   | StillWaiting \<Rightarrow> (Waits, cl))))"

fun request_result ::
    "(bytes \<Rightarrow> bytes option) \<Rightarrow> ('r, 's) protocol_of \<Rightarrow> rsp_msg \<Rightarrow> 's call" where
  \<comment> \<open>the match on the status at the end of \<open>request\<close>\<close>
  "request_result gz_dec P r =
     (case rsp_status r of
        StatusOk \<Rightarrow>
          (case payload_into_bytes gz_dec (rsp_payload r) of
             None \<Rightarrow> CallPanics
           | Some d \<Rightarrow> Returned (deser (read_rsp P) d))
      | StatusTimeout \<Rightarrow> Returned (Inl RequestFailedTimeout))"

definition request ::
    "(rexp \<Rightarrow> string \<Rightarrow> bool) \<Rightarrow> (bytes \<Rightarrow> bytes) \<Rightarrow> (bytes \<Rightarrow> bytes option) \<Rightarrow>
     ('r, 's) protocol_of \<Rightarrow> (nat \<Rightarrow> ack_msg oneshot) \<Rightarrow> (nat \<Rightarrow> rsp_msg oneshot) \<Rightarrow>
     path \<Rightarrow> 'r \<Rightarrow> client \<Rightarrow> 's call \<times> client" where
  "request rx gz_enc gz_dec P acks rsps p req cl =
     (case topic_new rx (proto_prefix P) p of
        Inl e \<Rightarrow> (Returned (Inl e), cl)
      | Inr t \<Rightarrow>
          (case ser (write_value P) req of
             Inl e \<Rightarrow> (Returned (Inl e), cl)
           | Inr payload \<Rightarrow>
               (case send_request gz_enc acks rsps t payload cl of
                  (Returned (Inl e), cl) \<Rightarrow> (Returned (Inl e), cl)
                | (Returned (Inr r), cl) \<Rightarrow> (request_result gz_dec P r, cl)
                | (CallPanics, cl) \<Rightarrow> (CallPanics, cl)
                | (Waits, cl) \<Rightarrow> (Waits, cl))))"

definition request_bytes ::
    "(bytes \<Rightarrow> bytes) \<Rightarrow> (bytes \<Rightarrow> bytes option) \<Rightarrow> (nat \<Rightarrow> ack_msg oneshot) \<Rightarrow>
     (nat \<Rightarrow> rsp_msg oneshot) \<Rightarrow> topic \<Rightarrow> bytes \<Rightarrow> client \<Rightarrow> bytes call \<times> client" where
  "request_bytes gz_enc gz_dec acks rsps t payload cl =
     (case send_request gz_enc acks rsps t payload cl of
        (Returned (Inl e), cl) \<Rightarrow> (Returned (Inl e), cl)
      | (Returned (Inr r), cl) \<Rightarrow>
          (case payload_into_bytes gz_dec (rsp_payload r) of
             None \<Rightarrow> (CallPanics, cl)
           | Some d \<Rightarrow> (Returned (Inr d), cl))
      | (CallPanics, cl) \<Rightarrow> (CallPanics, cl)
      | (Waits, cl) \<Rightarrow> (Waits, cl))"

definition respond_with ::
    "(bytes \<Rightarrow> bytes) \<Rightarrow> (nat \<Rightarrow> ack_msg oneshot) \<Rightarrow> u32 \<Rightarrow> rsp_msg_status \<Rightarrow> bytes \<Rightarrow> client \<Rightarrow>
     unit call \<times> client" where
  \<comment> \<open>the private \<open>_respond\<close>\<close>
  "respond_with gz_enc acks req_id status payload cl =
     (let (ack, cl) = fresh_handle cl;
          task = TaskRsp \<lparr>rsp_req_id = req_id, rsp_status = status,
                          rsp_payload = payload_from_bytes gz_enc payload\<rparr> ack
      in case send_to_loop task cl of
           (Inl e, cl) \<Rightarrow> (Returned (Inl e), cl)
         | (Inr _, cl) \<Rightarrow>
             (case expect_ack (acks ack) of
                Inl e \<Rightarrow> (Returned (Inl e), cl)
              | Inr _ \<Rightarrow> (Returned (Inr ()), cl)))"

definition respond ::
    "(bytes \<Rightarrow> bytes) \<Rightarrow> ('r, 's) protocol_of \<Rightarrow> (nat \<Rightarrow> ack_msg oneshot) \<Rightarrow> u32 \<Rightarrow> 's \<Rightarrow> client \<Rightarrow>
     unit call \<times> client" where
  "respond gz_enc P acks request_id rsp cl =
     (case ser (write_rsp P) rsp of
        Inl e \<Rightarrow> (Returned (Inl e), cl)
      | Inr payload \<Rightarrow> respond_with gz_enc acks request_id StatusOk payload cl)"

section \<open>Subscriptions\<close>

text \<open>
  A subscription is the topic its \<open>Drop\<close> gives up, \<open>None\<close> once it has; the channel its
  messages come from is that of the forwarding task below.
\<close>

record subscription_into =
  si_topic :: "topic option"

definition drop_subscription_into :: "subscription_into \<Rightarrow> client \<Rightarrow> subscription_into \<times> client" where
  \<comment> \<open>\<open>drop\<close> of a \<open>SubscriptionInto\<close>; the result of sending is ignored\<close>
  "drop_subscription_into s cl =
     (case si_topic s of
        None \<Rightarrow> (s, cl)
      | Some t \<Rightarrow>
          (s\<lparr>si_topic := None\<rparr>, snd (send_to_loop (TaskUnsub (UnsubMsg t)) cl)))"

definition subscribe_bytes_into ::
    "(nat \<Rightarrow> ack_msg oneshot) \<Rightarrow> topic \<Rightarrow> nat \<Rightarrow> client \<Rightarrow> subscription_into call \<times> client" where
  \<comment> \<open>\<open>sender\<close> is the handle of the channel the caller hands in\<close>
  "subscribe_bytes_into acks t sender cl =
     (let (ack, cl) = fresh_handle cl;
          task = TaskSub (SubMsg t) ack sender
      in case send_to_loop task cl of
           (Inl e, cl) \<Rightarrow> (Returned (Inl e), cl)
         | (Inr _, cl) \<Rightarrow>
             (case expect_ack (acks ack) of
                Inl e \<Rightarrow> (Returned (Inl e), cl)
              | Inr _ \<Rightarrow> (Returned (Inr \<lparr>si_topic = Some t\<rparr>), cl)))"

definition subscribe_bytes ::
    "(nat \<Rightarrow> ack_msg oneshot) \<Rightarrow> topic \<Rightarrow> client \<Rightarrow> (nat \<times> subscription_into) call \<times> client" where
  \<comment> \<open>a \<open>Subscription\<close> is the handle of its receiver with its \<open>SubscriptionInto\<close>\<close>
  "subscribe_bytes acks t cl =
     (let (receiver, cl) = fresh_handle cl
      in case subscribe_bytes_into acks t receiver cl of
           (Returned (Inl e), cl) \<Rightarrow> (Returned (Inl e), cl)
         | (Returned (Inr s), cl) \<Rightarrow> (Returned (Inr (receiver, s)), cl)
         | (CallPanics, cl) \<Rightarrow> (CallPanics, cl)
         | (Waits, cl) \<Rightarrow> (Waits, cl))"

definition subscribe_into ::
    "(rexp \<Rightarrow> string \<Rightarrow> bool) \<Rightarrow> ('r, 's) protocol_of \<Rightarrow> (nat \<Rightarrow> ack_msg oneshot) \<Rightarrow> path \<Rightarrow> client \<Rightarrow>
     subscription_into call \<times> client" where
  \<comment> \<open>the typed form: its channel is fresh, and the spawned task \<open>forward_pubs\<close> reads it\<close>
  "subscribe_into rx P acks p cl =
     (case topic_new rx (proto_prefix P) p of
        Inl e \<Rightarrow> (Returned (Inl e), cl)
      | Inr t \<Rightarrow>
          (let (ack, cl) = fresh_handle cl;
               (callback_pub, cl) = fresh_handle cl;
               task = TaskSub (SubMsg t) ack callback_pub
           in case send_to_loop task cl of
                (Inl e, cl) \<Rightarrow> (Returned (Inl e), cl)
              | (Inr _, cl) \<Rightarrow>
                  (case expect_ack (acks ack) of
                     Inl e \<Rightarrow> (Returned (Inl e), cl)
                   | Inr _ \<Rightarrow> (Returned (Inr \<lparr>si_topic = Some t\<rparr>), cl))))"

definition client_subscribe ::
    "(rexp \<Rightarrow> string \<Rightarrow> bool) \<Rightarrow> ('r, 's) protocol_of \<Rightarrow> (nat \<Rightarrow> ack_msg oneshot) \<Rightarrow> path \<Rightarrow> client \<Rightarrow>
     (nat \<times> subscription_into) call \<times> client" where
  \<comment> \<open>\<open>subscribe\<close>: the typed channel is the fresh one returned\<close>
  "client_subscribe rx P acks p cl =
     (let (typed, cl) = fresh_handle cl
      in case subscribe_into rx P acks p cl of
           (Returned (Inl e), cl) \<Rightarrow> (Returned (Inl e), cl)
         | (Returned (Inr s), cl) \<Rightarrow> (Returned (Inr (typed, s)), cl)
         | (CallPanics, cl) \<Rightarrow> (CallPanics, cl)
         | (Waits, cl) \<Rightarrow> (Waits, cl))"

definition subscription_recv ::
    "nat \<times> subscription_into \<Rightarrow> (nat \<Rightarrow> 'a chan) \<Rightarrow> 'a option poll \<times> (nat \<Rightarrow> 'a chan)" where
  \<comment> \<open>\<open>recv\<close> and \<open>poll_next\<close> of a \<open>Subscription\<close>, over the channels as they are\<close>
  "subscription_recv s chs =
     (case poll_recv (chs (fst s)) of (p, ch) \<Rightarrow> (p, chs(fst s := ch)))"

section \<open>Serving\<close>

record request_subscription =
  rs_topic :: "topic option"
  rs_receiver :: nat

definition drop_request_subscription ::
    "request_subscription \<Rightarrow> client \<Rightarrow> request_subscription \<times> client" where
  "drop_request_subscription s cl =
     (case rs_topic s of
        None \<Rightarrow> (s, cl)
      | Some t \<Rightarrow>
          (s\<lparr>rs_topic := None\<rparr>, snd (send_to_loop (TaskUnsrv (UnsrvMsg t)) cl)))"

definition request_subscription_recv ::
    "request_subscription \<Rightarrow> (nat \<Rightarrow> (path \<times> u32 \<times> 'r) chan) \<Rightarrow>
     (path \<times> u32 \<times> 'r) option poll \<times> (nat \<Rightarrow> (path \<times> u32 \<times> 'r) chan)" where
  "request_subscription_recv s chs =
     (case poll_recv (chs (rs_receiver s)) of (p, ch) \<Rightarrow> (p, chs(rs_receiver s := ch)))"

definition serve ::
    "(rexp \<Rightarrow> string \<Rightarrow> bool) \<Rightarrow> ('r, 's) protocol_of \<Rightarrow> (nat \<Rightarrow> ack_msg oneshot) \<Rightarrow> path \<Rightarrow> client \<Rightarrow>
     request_subscription call \<times> client" where
  \<comment> \<open>the subscription exists before the claim is made, so an early return drops it\<close>
  "serve rx P acks p cl =
     (case topic_new rx (proto_prefix P) p of
        Inl e \<Rightarrow> (Returned (Inl e), cl)
      | Inr t \<Rightarrow>
          (let (ack, cl) = fresh_handle cl;
               (callback_req, cl) = fresh_handle cl;
               (typed, cl) = fresh_handle cl;
               subscription = \<lparr>rs_topic = Some t, rs_receiver = typed\<rparr>;
               task = TaskSrv (SrvMsg t) ack callback_req
           in case send_to_loop task cl of
                (Inl e, cl) \<Rightarrow>
                  (Returned (Inl e), snd (drop_request_subscription subscription cl))
              | (Inr _, cl) \<Rightarrow>
                  (case expect_ack (acks ack) of
                     Inl e \<Rightarrow>
                       (Returned (Inl e), snd (drop_request_subscription subscription cl))
                   | Inr _ \<Rightarrow> (Returned (Inr subscription), cl))))"

section \<open>The forwarding tasks\<close>

text \<open>
  The tasks \<open>subscribe_into\<close> and \<open>serve\<close> spawn: they decode what arrives on the callback
  channel and pass it on to the typed one. A task that ended, in either way, has dropped
  its receiver, so the main loop's next send to it fails.
\<close>

datatype forwarder =
    Forwarding
  | ForwardEnded
  | ForwardPanicked

fun forward_pubs ::
    "(bytes \<Rightarrow> bytes option) \<Rightarrow> ('r, 's) protocol_of \<Rightarrow> pub_msg list \<Rightarrow> (path \<times> 'r) chan \<Rightarrow>
     forwarder \<times> (path \<times> 'r) chan" where
  "forward_pubs gz_dec P [] typed = (Forwarding, typed)"
| "forward_pubs gz_dec P (m # ms) typed =
     (case payload_into_bytes gz_dec (pub_payload m) of
        None \<Rightarrow> (ForwardPanicked, typed)
      | Some d \<Rightarrow>
          (case deser (read_value P) d of
             Inl _ \<Rightarrow> (ForwardPanicked, typed)
           | Inr v \<Rightarrow>
               (case chan_send (snd (into_parts (pub_topic m)), v) typed of
                  None \<Rightarrow> (ForwardEnded, typed)
                | Some typed \<Rightarrow> forward_pubs gz_dec P ms typed)))"

fun forward_reqs ::
    "(bytes \<Rightarrow> bytes option) \<Rightarrow> ('r, 's) protocol_of \<Rightarrow> (u32 \<times> req_msg) list \<Rightarrow>
     (path \<times> u32 \<times> 'r) chan \<Rightarrow> forwarder \<times> (path \<times> u32 \<times> 'r) chan" where
  "forward_reqs gz_dec P [] typed = (Forwarding, typed)"
| "forward_reqs gz_dec P ((req_id, m) # ms) typed =
     (case payload_into_bytes gz_dec (req_payload m) of
        None \<Rightarrow> (ForwardPanicked, typed)
      | Some d \<Rightarrow>
          (case deser (read_value P) d of
             Inl _ \<Rightarrow> (ForwardPanicked, typed)
           | Inr v \<Rightarrow>
               (case chan_send (snd (into_parts (req_topic m)), req_id, v) typed of
                  None \<Rightarrow> (ForwardEnded, typed)
                | Some typed \<Rightarrow> forward_reqs gz_dec P ms typed)))"

section \<open>Stopping\<close>

definition stop_bus :: "(nat \<Rightarrow> ack_msg oneshot) \<Rightarrow> client \<Rightarrow> unit call \<times> client" where
  "stop_bus acks cl =
     (let (ack, cl) = fresh_handle cl
      in case send_to_loop (TaskStopBus ack) cl of
           (Inl e, cl) \<Rightarrow> (Returned (Inl e), cl)
         | (Inr _, cl) \<Rightarrow>
             (case expect_ack (acks ack) of
                Inl e \<Rightarrow> (Returned (Inl e), cl)
              | Inr _ \<Rightarrow> (Returned (Inr ()), cl)))"

definition stop_client :: "client_outcome \<Rightarrow> string \<Rightarrow> client \<Rightarrow> unit call \<times> client" where
  \<comment> \<open>\<open>stop\<close>, with how the main loop ended and the runtime's text for a panic\<close>
  "stop_client outcome text cl =
     (let cl = snd (send_to_loop TaskStop cl)
      in case outcome of
           ClientRunning \<Rightarrow> (Waits, cl)
         | ClientStopped r \<Rightarrow> (Returned r, cl)
         | ClientPanicked \<Rightarrow> (Returned (Inl (from_join_error text)), cl))"

section \<open>Connecting\<close>

datatype ('p, 'm) connector =
    ConnectMemory 'm
  | ConnectUnix 'p
  | ConnectTcp string

definition connect ::
    "('m \<Rightarrow> unit result) \<Rightarrow> ('p \<Rightarrow> unit result) \<Rightarrow> (string \<Rightarrow> unit result) \<Rightarrow> ('p, 'm) connector \<Rightarrow>
     client result" where
  \<comment> \<open>the transports' answers are parameters\<close>
  "connect memory_connect unix_connect tcp_connect c =
     (case (case c of ConnectMemory m \<Rightarrow> memory_connect m
                    | ConnectUnix addr \<Rightarrow> unix_connect addr
                    | ConnectTcp addr \<Rightarrow> tcp_connect addr) of
        Inl e \<Rightarrow> Inl e
      | Inr _ \<Rightarrow> Inr new_client)"

definition new_tcp :: "string \<Rightarrow> ('p, 'm) connector" where
  "new_tcp addr = ConnectTcp addr"

definition new_unix :: "'p \<Rightarrow> ('p, 'm) connector" where
  "new_unix addr = ConnectUnix addr"

end
