(* ===== verification/Client_Api_Properties.thy ===== *)
theory Client_Api_Properties
  imports Client_Api Client_Properties
begin

text \<open>
  What the public calls promise their callers: how acknowledgements and responses become
  results, that typed values survive the trip through the payload, and what the
  forwarding tasks do with messages they cannot decode.
\<close>

section \<open>Acknowledgements\<close>

lemma expect_ack_ok:
  "expect_ack c = Inr n \<longleftrightarrow> (\<exists>a. slot c = Some a \<and> ack_err a = None \<and> num_recipients a = n)"
  by (auto simp: expect_ack_def await_def split: option.splits)

lemma expect_ack_fails:
  "expect_ack c = Inl e \<longleftrightarrow>
     (\<exists>a x. slot c = Some a \<and> ack_err a = Some x \<and> e = RequestFailed (display_error x)) \<or>
     slot c = None \<and> e = (if os_tx c then RequestFailedTimeout else RequestFailedChannelClosed)"
  by (auto simp: expect_ack_def await_def split: option.splits)

lemma send_to_loop_simps [simp]:
  "cl_loop_alive cl \<Longrightarrow> send_to_loop task cl = (Inr (), cl\<lparr>cl_tasks := cl_tasks cl @ [task]\<rparr>)"
  "\<not> cl_loop_alive cl \<Longrightarrow> send_to_loop task cl = (Inl ChannelClosed, cl)"
  by (simp_all add: send_to_loop_def from_send_error_def)

lemmas api_defs = publish_bytes_def send_request_def respond_with_def subscribe_bytes_into_def
  subscribe_bytes_def stop_bus_def fresh_handle_def Let_def

definition ack_outcome :: "bool \<Rightarrow> ack_msg oneshot \<Rightarrow> bus_error option" where
  \<comment> \<open>why a call fails, from the state of the main loop and of its acknowledgement\<close>
  "ack_outcome loop_alive c =
     (if \<not> loop_alive then Some ChannelClosed
      else case slot c of
          Some a \<Rightarrow> map_option (\<lambda>x. RequestFailed (display_error x)) (ack_err a)
        | None \<Rightarrow> Some (if os_tx c then RequestFailedTimeout else RequestFailedChannelClosed))"

lemma expect_ack_outcome:
  "expect_ack c = (case ack_outcome True c of
     Some e \<Rightarrow> Inl e | None \<Rightarrow> Inr (num_recipients (the (slot c))))"
  by (auto simp: ack_outcome_def expect_ack_def await_def split: option.splits)

text \<open>
  C35: a call fails exactly with what its acknowledgement says: the server's error with its
  text, a closed channel when the main loop ends first, a timeout when nothing comes in
  time; a call after the main loop has ended fails at once. The channel asked is the
  call's own, and only \<open>publish_bytes\<close> can panic, on an acknowledgement without a count.
\<close>

theorem calls_fail_as_acknowledged:
  "case ack_outcome (cl_loop_alive cl) (acks (cl_fresh cl)) of
     Some e \<Rightarrow>
       fst (publish_bytes gz_enc acks t d cl) = Returned (Inl e) \<and>
       fst (request_bytes gz_enc gz_dec acks rsps t d cl) = Returned (Inl e) \<and>
       fst (respond_with gz_enc acks i st d cl) = Returned (Inl e) \<and>
       fst (subscribe_bytes_into acks t s cl) = Returned (Inl e) \<and>
       fst (stop_bus acks cl) = Returned (Inl e)
   | None \<Rightarrow>
       fst (publish_bytes gz_enc acks t d cl) =
         (case num_recipients (the (slot (acks (cl_fresh cl)))) of
            Some n \<Rightarrow> Returned (Inr n) | None \<Rightarrow> CallPanics) \<and>
       fst (respond_with gz_enc acks i st d cl) = Returned (Inr ()) \<and>
       fst (subscribe_bytes_into acks t s cl) = Returned (Inr \<lparr>si_topic = Some t\<rparr>) \<and>
       fst (stop_bus acks cl) = Returned (Inr ())"
proof (cases "cl_loop_alive cl")
  case True
  then show ?thesis
    by (auto simp: api_defs request_bytes_def expect_ack_outcome split: option.split)
next
  case False
  then show ?thesis by (simp add: ack_outcome_def api_defs request_bytes_def)
qed

section \<open>Requests\<close>

lemma send_request_ok:
  "fst (send_request gz_enc acks rsps t d cl) = Returned (Inr r) \<longleftrightarrow>
   ack_outcome (cl_loop_alive cl) (acks (cl_fresh cl)) = None \<and>
   slot (rsps (cl_fresh cl + 1)) = Some r"
  by (cases "cl_loop_alive cl")
     (auto simp: api_defs expect_ack_outcome await_def ack_outcome_def split: option.splits)

lemma send_request_no_panic: "fst (send_request gz_enc acks rsps t d cl) \<noteq> CallPanics"
  by (simp add: api_defs split: sum.split awaited.split prod.split)

lemma send_request_cases:
  obtains e where "fst (send_request gz_enc acks rsps t d cl) = Returned (Inl e)"
  | r where "fst (send_request gz_enc acks rsps t d cl) = Returned (Inr r)"
  | "fst (send_request gz_enc acks rsps t d cl) = Waits"
proof (cases "fst (send_request gz_enc acks rsps t d cl)")
  case (Returned x)
  then show thesis using that by (cases x) auto
qed (use that send_request_no_panic in auto)

lemma request_result_ok:
  "request_result gz_dec P r = Returned (Inr v) \<longleftrightarrow>
     (\<exists>d. rsp_status r = StatusOk \<and> payload_into_bytes gz_dec (rsp_payload r) = Some d \<and>
        read_rsp P d = Some v)"
  by (cases "rsp_status r"; cases "payload_into_bytes gz_dec (rsp_payload r)")
     (auto simp: deser_def split: option.splits)

text \<open>
  C36: a typed request succeeds with a value exactly when its topic is valid and its value
  can be written, the server acknowledged it without an error, and the response that came
  back on the request's own channel has status \<open>Ok\<close> and decodes to that value. In
  particular the response \<open>Timeout\<close> is never a success.
\<close>

theorem request_succeeds_only_on_its_answer:
  "fst (request rx gz_enc gz_dec P acks rsps p req cl) = Returned (Inr v) \<longleftrightarrow>
     (\<exists>t. topic_new rx (proto_prefix P) p = Inr t) \<and> write_value P req \<noteq> None \<and>
     ack_outcome (cl_loop_alive cl) (acks (cl_fresh cl)) = None \<and>
     (\<exists>r d. slot (rsps (cl_fresh cl + 1)) = Some r \<and> rsp_status r = StatusOk \<and>
        payload_into_bytes gz_dec (rsp_payload r) = Some d \<and> read_rsp P d = Some v)"
proof (cases "topic_new rx (proto_prefix P) p")
  case (Inr t)
  note t = this
  show ?thesis
  proof (cases "write_value P req")
    case (Some d)
    have "fst (request rx gz_enc gz_dec P acks rsps p req cl) = Returned (Inr v) \<longleftrightarrow>
        (\<exists>r. fst (send_request gz_enc acks rsps t d cl) = Returned (Inr r) \<and>
           request_result gz_dec P r = Returned (Inr v))"
      by (rule send_request_cases [of gz_enc acks rsps t d cl];
          cases "send_request gz_enc acks rsps t d cl")
         (simp_all add: request_def t ser_def Some)
    then show ?thesis
      unfolding send_request_ok request_result_ok using t Some by auto
  qed (simp add: request_def ser_def t)
qed (simp add: request_def)

text \<open>
  The untyped \<open>request_bytes\<close> does not look at the status: when the server's timer
  answers with \<open>Timeout\<close>, the caller gets a success with an empty response.
\<close>

theorem request_bytes_returns_timeout_as_success:
  assumes "ack_outcome (cl_loop_alive cl) (acks (cl_fresh cl)) = None"
    and "slot (rsps (cl_fresh cl + 1)) =
      Some \<lparr>rsp_req_id = i, rsp_status = StatusTimeout, rsp_payload = payload_from_bytes gz_enc []\<rparr>"
  shows "fst (request_bytes gz_enc gz_dec acks rsps t d cl) = Returned (Inr [])"
proof -
  obtain r cl' where "send_request gz_enc acks rsps t d cl = (Returned (Inr r), cl')"
    and "Some r = slot (rsps (cl_fresh cl + 1))"
    using send_request_ok [of gz_enc acks rsps t d cl] assms by (metis prod.collapse)
  then show ?thesis
    using assms(2)
    by (simp add: request_bytes_def payload_into_bytes_def payload_from_bytes_def
        PAYLOAD_COMPRESSION_THRESHOLD_BYTES_def)
qed

definition cell_with :: "'a \<Rightarrow> 'a oneshot" where
  "cell_with v = \<lparr>slot = Some v, os_rx = True, os_tx = False\<rparr>"

theorem request_bytes_returns_timeout_as_success_witness:
  "fst (request_bytes id Some (\<lambda>_. cell_with \<lparr>ack_msg_id = 1, ack_err = None, num_recipients = None\<rparr>)
     (\<lambda>_. cell_with \<lparr>rsp_req_id = 1, rsp_status = StatusTimeout, rsp_payload = payload_from_bytes id []\<rparr>)
     t [1, 2] new_client) = Returned (Inr [])"
  by (rule request_bytes_returns_timeout_as_success [where i = 1])
     (simp_all add: ack_outcome_def new_client_def cell_with_def)

section \<open>Values survive the trip\<close>

lemma send_request_task:
  "cl_loop_alive cl \<Longrightarrow>
   cl_tasks (snd (send_request gz_enc acks rsps t d cl)) = cl_tasks cl @
     [TaskReq \<lparr>req_topic = t, req_payload = payload_from_bytes gz_enc d\<rparr> (cl_fresh cl) (cl_fresh cl + 1)]"
  by (simp add: api_defs split: sum.splits awaited.splits)

lemma respond_task:
  "cl_loop_alive cl \<Longrightarrow> write_rsp P v = Some d \<Longrightarrow>
   cl_tasks (snd (respond gz_enc P acks i v cl)) = cl_tasks cl @
     [TaskRsp \<lparr>rsp_req_id = i, rsp_status = StatusOk, rsp_payload = payload_from_bytes gz_enc d\<rparr>
        (cl_fresh cl)]"
  by (simp add: respond_def ser_def api_defs split: sum.splits)

lemma forward_req_value:
  assumes "gzip_law gz_enc gz_dec" and "cbor_law (write_value P) (read_value P)"
    and "write_value P v = Some d" and "rx_alive typed"
  shows "forward_reqs gz_dec P
      [(i, \<lparr>req_topic = t, req_payload = payload_from_bytes gz_enc d\<rparr>)] typed =
    (Forwarding, typed\<lparr>buffer := buffer typed @ [(path_of t, i, v)]\<rparr>)"
  using assms payload_round_trip [OF assms(1)]
  by (simp add: cbor_law_def deser_def into_parts_def)

definition pub_of :: "(bytes \<Rightarrow> bytes) \<Rightarrow> ('r, 's) protocol_of \<Rightarrow> topic \<times> 'r \<Rightarrow> pub_msg" where
  \<comment> \<open>the message \<open>publish\<close> sends for a value that can be written\<close>
  "pub_of gz_enc P x = \<lparr>pub_topic = fst x,
     pub_payload = payload_from_bytes gz_enc (the (write_value P (snd x)))\<rparr>"

lemma forward_pub_values:
  assumes "gzip_law gz_enc gz_dec" and "cbor_law (write_value P) (read_value P)"
  shows "\<forall>x \<in> set xs. write_value P (snd x) \<noteq> None \<Longrightarrow> rx_alive typed \<Longrightarrow>
    forward_pubs gz_dec P (map (pub_of gz_enc P) xs) typed =
    (Forwarding, typed\<lparr>buffer := buffer typed @ map (\<lambda>(t, v). (path_of t, v)) xs\<rparr>)"
proof (induction xs arbitrary: typed)
  case (Cons x xs)
  obtain d where d: "write_value P (snd x) = Some d" using Cons.prems(1) by auto
  have "read_value P d = Some (snd x)" using assms(2) d by (simp add: cbor_law_def)
  then show ?case
    using Cons.IH [of "typed\<lparr>buffer := buffer typed @ [(path_of (fst x), snd x)]\<rparr>"] Cons.prems d
      payload_round_trip [OF assms(1), of d]
    by (simp add: pub_of_def deser_def into_parts_def case_prod_beta)
qed simp

fun received :: "nat \<Rightarrow> nat \<times> subscription_into \<Rightarrow> (nat \<Rightarrow> 'a chan) \<Rightarrow> 'a option poll list" where
  \<comment> \<open>what a subscriber gets when it asks so many times\<close>
  "received 0 s chs = []"
| "received (Suc n) s chs = (case subscription_recv s chs of (p, chs') \<Rightarrow> p # received n s chs')"

lemma received_in_order:
  "buffer (chs (fst s)) = ms \<Longrightarrow>
   received (length ms + 1) s chs =
     map (\<lambda>m. Ready (Some m)) ms @ [if tx_alive (chs (fst s)) then Pending else Ready None]"
proof (induction ms arbitrary: chs)
  case (Cons m ms)
  let ?chs = "chs(fst s := chs (fst s)\<lparr>buffer := ms\<rparr>)"
  have "subscription_recv s chs = (Ready (Some m), ?chs)"
    using Cons.prems by (simp add: subscription_recv_def poll_recv_def)
  then have "received (length (m # ms) + 1) s chs = Ready (Some m) # received (length ms + 1) s ?chs"
    by simp
  also have "received (length ms + 1) s ?chs =
      map (\<lambda>m. Ready (Some m)) ms @ [if tx_alive (?chs (fst s)) then Pending else Ready None]"
    by (rule Cons.IH) simp
  finally show ?case by simp
qed (simp add: subscription_recv_def poll_recv_def)

text \<open>
  C37: a typed subscription yields the values that were published, each with the path it
  was published at, in the order in which the client received them, and nothing else:
  writing, compressing, decompressing and reading a value and passing it on by the
  forwarding task give the value back.
\<close>

theorem typed_subscription_yields_values:
  assumes "gzip_law gz_enc gz_dec" and "cbor_law (write_value P) (read_value P)"
    and "\<forall>x \<in> set xs. write_value P (snd x) \<noteq> None" and "chs (fst s) = new_chan"
  shows "\<exists>typed. forward_pubs gz_dec P (map (pub_of gz_enc P) xs) (chs (fst s)) = (Forwarding, typed) \<and>
    received (length xs + 1) s (chs(fst s := typed)) =
      map (\<lambda>(t, v). Ready (Some (path_of t, v))) xs @ [Pending]"
proof -
  let ?typed = "new_chan\<lparr>buffer := map (\<lambda>(t, v). (path_of t, v)) xs\<rparr>"
  have "forward_pubs gz_dec P (map (pub_of gz_enc P) xs) (chs (fst s)) = (Forwarding, ?typed)"
    using forward_pub_values [OF assms(1,2,3), of new_chan] assms(4) by (simp add: new_chan_def)
  moreover have "received (length xs + 1) s (chs(fst s := ?typed)) =
      map (\<lambda>(t, v). Ready (Some (path_of t, v))) xs @ [Pending]"
    using received_in_order [of "chs(fst s := ?typed)" s "map (\<lambda>(t, v). (path_of t, v)) xs"]
    by (simp add: new_chan_def case_prod_beta comp_def)
  ultimately show ?thesis by blast
qed

definition demo_bytes_protocol :: "(bytes, bytes) protocol_of" where
  "demo_bytes_protocol = \<lparr>proto_prefix = ''p'', write_value = Some, read_value = Some, write_rsp = Some,
     read_rsp = Some\<rparr>"

theorem typed_subscription_yields_values_witness:
  "\<exists>typed. forward_pubs (\<lambda>d. Some (rev d)) demo_bytes_protocol
      (map (pub_of rev demo_bytes_protocol) [(demo_topic, [1]), (demo_topic, [2, 3])]) new_chan = (Forwarding, typed) \<and>
    received 3 (0, \<lparr>si_topic = Some demo_topic\<rparr>) ((\<lambda>_. new_chan)(0 := typed)) =
      [Ready (Some (Path ''a'', [1])), Ready (Some (Path ''a'', [2, 3])), Pending]"
  using typed_subscription_yields_values [of rev "\<lambda>d. Some (rev d)" demo_bytes_protocol
      "[(demo_topic, [1]), (demo_topic, [2, 3])]" "\<lambda>_. new_chan" "(0, \<lparr>si_topic = Some demo_topic\<rparr>)"]
  by (simp add: gzip_law_def cbor_law_def demo_bytes_protocol_def demo_topic_def eval_nat_numeral)

lemma request_result_value:
  assumes "gzip_law gz_enc gz_dec" and "cbor_law (write_rsp P) (read_rsp P)"
    and "write_rsp P v = Some d"
  shows "request_result gz_dec P
      \<lparr>rsp_req_id = i, rsp_status = StatusOk, rsp_payload = payload_from_bytes gz_enc d\<rparr> =
    Returned (Inr v)"
  using assms payload_round_trip [OF assms(1)] by (simp add: cbor_law_def deser_def)

section \<open>A message that cannot be decoded\<close>

text \<open>
  A service does not survive a request it cannot decode. The forwarding task panics on
  it, which drops the receiver of the service's requests; the next request the server
  routes there, however well formed, ends the client's main loop with \<open>ChannelClosed\<close>, and
  all its other subscriptions and calls with it.
\<close>

theorem malformed_request_ends_serving_client:
  assumes "get_owner (req_topic q) (subscriptions c) = Some k" and "callbacks_req c k = Some h"
    and "payload_into_bytes gz_dec (req_payload bad) = Some d" and "read_value P d = None"
    and "forward_reqs gz_dec P before typed = (Forwarding, typed')"
  shows "forward_reqs gz_dec P (before @ (i, bad) # after) typed = (ForwardPanicked, typed') \<and>
     fst (client_step ord (FromServer (Inr (Msg j (ServerReq q))))
       (c\<lparr>req_chans := (req_chans c)(h := (req_chans c h)\<lparr>rx_alive := False\<rparr>)\<rparr>)) =
     ClientStopped (Inl ChannelClosed)"
proof
  show "forward_reqs gz_dec P (before @ (i, bad) # after) typed = (ForwardPanicked, typed')"
    using assms(3-5)
    by (induction gz_dec P before typed rule: forward_reqs.induct)
       (auto simp: deser_def split: option.splits sum.splits)
  show "fst (client_step ord (FromServer (Inr (Msg j (ServerReq q))))
       (c\<lparr>req_chans := (req_chans c)(h := (req_chans c h)\<lparr>rx_alive := False\<rparr>)\<rparr>)) =
     ClientStopped (Inl ChannelClosed)"
    using assms(1,2) by (simp add: client_step_def after_receive_def from_send_error_def)
qed

definition demo_serving :: client_core where
  "demo_serving =
     (case before_send (TaskSrv (SrvMsg demo_topic) 0 7) demo_client of
        Some (_, c) \<Rightarrow> c | None \<Rightarrow> demo_client)"

lemma demo_serving_facts:
  "before_send (TaskSrv (SrvMsg demo_topic) 0 7) demo_client =
     returns (Inr (Msg 1 (ClientSrv (SrvMsg demo_topic))), demo_serving)"
  "get_owner demo_topic (subscriptions demo_serving) = Some 1"
  "callbacks_req demo_serving = [1 \<mapsto> 7]"
proof -
  have r: "claim_result 1 demo_topic directory_new = Inr ()"
    by (simp add: claim_result_def demo_topic_not_wild dir_inv_new)
  obtain d where d: "claim 1 demo_topic directory_new = returns (Inr (), d)"
    "\<And>u. owner_of d u = (if u = demo_topic then Some 1 else owner_of directory_new u)"
    using claim_spec [OF dir_inv_new(1) wf_demo_topic, of 1] r by (metis (mono_tags, lifting))
  have s: "subscriptions demo_client = directory_new" "cl_next_msg_id demo_client = 0"
    "callbacks_req demo_client = Map.empty"
    by (simp_all add: demo_client_def client_start_def)
  show b: "before_send (TaskSrv (SrvMsg demo_topic) 0 7) demo_client =
     returns (Inr (Msg 1 (ClientSrv (SrvMsg demo_topic))), demo_serving)"
    using d(1) s by (simp add: before_send_srv demo_serving_def Let_def)
  have "subscriptions demo_serving = d" "callbacks_req demo_serving = [1 \<mapsto> 7]"
    using d(1) s by (simp_all add: demo_serving_def before_send_srv insert_ack_def Let_def)
  then show "get_owner demo_topic (subscriptions demo_serving) = Some 1"
    "callbacks_req demo_serving = [1 \<mapsto> 7]"
    using d(2) by (simp_all add: get_owner_eq demo_topic_not_wild)
qed

theorem malformed_request_ends_serving_client_witness:
  "fst (client_step ascending (FromServer (Inr (Msg 2 (ServerReq demo_req))))
      (demo_serving\<lparr>req_chans := (req_chans demo_serving)(7 := (req_chans demo_serving 7)\<lparr>rx_alive := False\<rparr>)\<rparr>)) =
     ClientStopped (Inl ChannelClosed)"
  using malformed_request_ends_serving_client [of demo_req demo_serving 1 7 Some demo_req
      "data demo_payload" "\<lparr>proto_prefix = ''p'', write_value = (\<lambda>u :: unit. None),
         read_value = (\<lambda>d. None), write_rsp = (\<lambda>u :: unit. None), read_rsp = (\<lambda>d. None)\<rparr>" "[]"
      new_chan new_chan 1 "[]" ascending 2]
  by (simp add: demo_serving_facts demo_req_def payload_into_bytes_def demo_payload_def)

end
