(* ===== verification/Client_Stub.thy ===== *)
theory Client_Stub
  imports Server_Core
begin

text \<open>
  \<open>server/client_stub.rs\<close>: the task that serves one connection. It forwards the client's
  messages to the core as tasks and the core's messages to the client, gives up on a
  client that stays silent for \<open>KEEP_ALIVE_TIMEOUT_S\<close>, and deregisters the client when it
  ends for whatever reason. Time is a number of seconds; the interval timer is its next
  deadline.

  \<open>transport.send\<close> is awaited inside the arm of \<open>select!\<close> that got the message, so while it
  blocks the stub polls neither the timer nor the other arms. Here handing a message to the
  transport is one step without duration (\<open>cs_sent\<close> is what has been handed over); the time a
  send blocks is a \<open>TimePasses\<close> after it. The timer can fire from its deadline on but need not
  at once (\<open>stub_enabled\<close>), so a tick that a blocked send delays is a later \<open>KeepAliveFires\<close>.
\<close>

record client_stub =
  cs_id :: u32
  cs_now :: nat
  cs_deadline :: nat \<comment> \<open>next tick of \<open>keep_alive_interval\<close>\<close>
  cs_sent :: "protocol_server msg list" \<comment> \<open>handed to the transport\<close>
  cs_sink_error :: "bus_error option"
  cs_tasks :: "task list" \<comment> \<open>sent to the core\<close>
  cs_core_alive :: bool \<comment> \<open>the core still holds the receiving half\<close>

definition stub_start :: "u32 \<Rightarrow> nat \<Rightarrow> client_stub" where
  "stub_start i now =
     \<lparr>cs_id = i, cs_now = now, cs_deadline = now + KEEP_ALIVE_TIMEOUT_S, cs_sent = [],
      cs_sink_error = None, cs_tasks = [], cs_core_alive = True\<rparr>"

text \<open>
  What \<open>select!\<close> can see: the next item of the transport stream (\<open>None\<close> at its end), the
  next message of the core (\<open>None\<close> when the core dropped its sender), a tick of the timer;
  and, between two of them, the clock, the transport's sink or the core changing.
\<close>

datatype stub_event =
    FromTransport "protocol_client msg result option"
  | FromCore "protocol_server msg option"
  | KeepAliveFires
  | TimePasses nat
  | SinkBreaks bus_error
  | CoreGone

fun stub_enabled :: "stub_event \<Rightarrow> client_stub \<Rightarrow> bool" where
  "stub_enabled KeepAliveFires s \<longleftrightarrow> cs_deadline s \<le> cs_now s"
| "stub_enabled _ s \<longleftrightarrow> True"

definition send_task :: "task \<Rightarrow> client_stub \<Rightarrow> unit result \<times> client_stub" where
  "send_task t s =
     (if cs_core_alive s then (Inr (), s\<lparr>cs_tasks := cs_tasks s @ [t]\<rparr>)
      else (Inl from_send_error, s))"

definition stub_transport_send ::
    "protocol_server msg \<Rightarrow> client_stub \<Rightarrow> unit result \<times> client_stub" where
  "stub_transport_send m s =
     (case cs_sink_error s of
        None \<Rightarrow> (Inr (), s\<lparr>cs_sent := cs_sent s @ [m]\<rparr>)
      | Some e \<Rightarrow> (Inl e, s))"

definition stub_step :: "stub_event \<Rightarrow> client_stub \<Rightarrow> unit result option \<times> client_stub" where
  \<comment> \<open>one turn of the loop; \<open>Some r\<close> when \<open>_serve\<close> returns \<open>r\<close>\<close>
  "stub_step e s =
     (case e of
        FromTransport item \<Rightarrow>
          (let s = s\<lparr>cs_deadline := cs_now s + KEEP_ALIVE_TIMEOUT_S\<rparr> in
           case item of
             None \<Rightarrow> (Some (Inl ChannelClosed), s)
           | Some (Inl err) \<Rightarrow> (Some (Inl err), s)
           | Some (Inr m) \<Rightarrow>
               (case send_task (Message (cs_id s) m) s of
                  (Inl err, s) \<Rightarrow> (Some (Inl err), s)
                | (Inr _, s) \<Rightarrow> (None, s)))
      | FromCore (Some m) \<Rightarrow>
          (case stub_transport_send m s of
             (Inl err, s) \<Rightarrow> (Some (Inl err), s)
           | (Inr _, s) \<Rightarrow> (None, s))
      | FromCore None \<Rightarrow> (Some (Inr ()), s)
      | KeepAliveFires \<Rightarrow> (Some (Inl (ClientTimeout (cs_id s))), s)
      | TimePasses n \<Rightarrow> (None, s\<lparr>cs_now := cs_now s + n\<rparr>)
      | SinkBreaks err \<Rightarrow> (None, s\<lparr>cs_sink_error := Some err\<rparr>)
      | CoreGone \<Rightarrow> (None, s\<lparr>cs_core_alive := False\<rparr>))"

fun stub_loop :: "stub_event list \<Rightarrow> client_stub \<Rightarrow> unit result option \<times> client_stub" where
  \<comment> \<open>\<open>_serve\<close> over a sequence of enabled events; \<open>None\<close> while it still runs\<close>
  "stub_loop [] s = (None, s)"
| "stub_loop (e # es) s =
     (if stub_enabled e s then
        (case stub_step e s of
           (Some r, s) \<Rightarrow> (Some r, s)
         | (None, s) \<Rightarrow> stub_loop es s)
      else stub_loop es s)"

definition stub_serve :: "stub_event list \<Rightarrow> client_stub \<Rightarrow> unit result option \<times> client_stub" where
  "stub_serve es s =
     (case stub_loop es s of
        (None, s) \<Rightarrow> (None, s)
      | (Some result, s) \<Rightarrow>
          (case send_task (Deregister (cs_id s)) s of
             (Inl err, s) \<Rightarrow> (Some (Inl err), s)
           | (Inr _, s) \<Rightarrow> (Some result, s)))"

section \<open>What the loop consumed\<close>

text \<open>The events the loop took before it ended, those that were not enabled left out.\<close>

fun consumed :: "stub_event list \<Rightarrow> client_stub \<Rightarrow> stub_event list" where
  "consumed [] s = []"
| "consumed (e # es) s =
     (if stub_enabled e s then
        (case stub_step e s of
           (Some r, s) \<Rightarrow> [e]
         | (None, s) \<Rightarrow> e # consumed es s)
      else consumed es s)"

fun heard :: "stub_event \<Rightarrow> protocol_client msg list" where
  "heard (FromTransport (Some (Inr m))) = [m]"
| "heard _ = []"

fun relayed :: "stub_event \<Rightarrow> protocol_server msg list" where
  "relayed (FromCore (Some m)) = [m]"
| "relayed _ = []"

definition client_said :: "stub_event list \<Rightarrow> protocol_client msg list" where
  "client_said es = concat (map heard es)"

definition core_said :: "stub_event list \<Rightarrow> protocol_server msg list" where
  "core_said es = concat (map relayed es)"

lemma said_simps [simp]:
  "client_said [] = []" "client_said (e # es) = heard e @ client_said es"
  "core_said [] = []" "core_said (e # es) = relayed e @ core_said es"
  by (simp_all add: client_said_def core_said_def)

fun idle :: "stub_event list \<Rightarrow> nat \<Rightarrow> nat" where
  \<comment> \<open>seconds since the transport last yielded something, from \<open>k\<close> at the start\<close>
  "idle [] k = k"
| "idle (FromTransport _ # es) k = idle es 0"
| "idle (TimePasses n # es) k = idle es (k + n)"
| "idle (_ # es) k = idle es k"

section \<open>The loop\<close>

lemma stub_step_id [simp]: "cs_id (snd (stub_step e s)) = cs_id s"
  by (auto simp: stub_step_def send_task_def stub_transport_send_def Let_def
      split: stub_event.split option.split sum.split)

lemma stub_step_idD: "stub_step e s = (q, s') \<Longrightarrow> cs_id s' = cs_id s"
  by (metis snd_conv stub_step_id)

lemma stub_loop_id: "stub_loop es s = (r, s') \<Longrightarrow> cs_id s' = cs_id s"
  by (induction es arbitrary: s)
     (auto split: if_splits option.splits prod.splits dest!: stub_step_idD)

lemma stub_step_alive: "stub_step e s = (q, s') \<Longrightarrow> cs_core_alive s' \<Longrightarrow> cs_core_alive s"
  by (auto simp: stub_step_def send_task_def stub_transport_send_def Let_def
      split: stub_event.splits option.splits sum.splits if_splits)

lemma stub_loop_alive: "stub_loop es s = (r, s') \<Longrightarrow> cs_core_alive s' \<Longrightarrow> cs_core_alive s"
  by (induction es arbitrary: s)
     (auto split: if_splits option.splits prod.splits dest: stub_step_alive)

lemma stub_step_tasks:
  "stub_step e s = (q, s') \<Longrightarrow> cs_core_alive s \<Longrightarrow>
   cs_tasks s' = cs_tasks s @ map (Message (cs_id s)) (heard e)"
  by (auto simp: stub_step_def send_task_def stub_transport_send_def Let_def
      split: stub_event.splits option.splits sum.splits if_splits)

lemma stub_loop_tasks:
  "stub_loop es s = (r, s') \<Longrightarrow> cs_core_alive s' \<Longrightarrow>
   cs_tasks s' = cs_tasks s @ map (Message (cs_id s)) (client_said (consumed es s))"
proof (induction es arbitrary: s)
  case (Cons e es)
  obtain q s1 where q: "stub_step e s = (q, s1)" by fastforce
  show ?case
  proof (cases "stub_enabled e s")
    case True
    then have a: "cs_core_alive s1"
      using Cons.prems q stub_loop_alive [of es s1 r s'] by (cases q) auto
    then have "cs_tasks s1 = cs_tasks s @ map (Message (cs_id s)) (heard e)" "cs_id s1 = cs_id s"
      using stub_step_tasks [OF q stub_step_alive [OF q a]] stub_step_idD [OF q] by auto
    then show ?thesis using Cons True q by (cases q) auto
  qed (use Cons in auto)
qed simp

lemma stub_step_sent:
  "stub_step e s = (q, s') \<Longrightarrow>
   (cs_sent s' = cs_sent s @ relayed e \<or> q \<noteq> None \<and> cs_sent s' = cs_sent s \<and> cs_sink_error s' \<noteq> None) \<and>
   (cs_sink_error s \<noteq> None \<longrightarrow> cs_sink_error s' \<noteq> None)"
  by (auto simp: stub_step_def send_task_def stub_transport_send_def Let_def
      split: stub_event.splits option.splits sum.splits if_splits)

lemma stub_loop_sent:
  "stub_loop es s = (r, s') \<Longrightarrow>
   cs_sent s' = cs_sent s @ core_said (consumed es s) \<or>
   cs_sent s' = cs_sent s @ butlast (core_said (consumed es s)) \<and> cs_sink_error s' \<noteq> None"
proof (induction es arbitrary: s)
  case (Cons e es)
  obtain q s1 where q: "stub_step e s = (q, s1)" by fastforce
  show ?case
  proof (cases "stub_enabled e s")
    case True
    show ?thesis
    proof (cases q)
      case None
      have "cs_sent s1 = cs_sent s @ relayed e" using stub_step_sent [OF q] None by simp
      then show ?thesis using Cons.IH [of s1] Cons.prems True q None
        by (auto simp: butlast_append)
    next
      case (Some x)
      have "length (relayed e) \<le> 1" by (cases e rule: relayed.cases) auto
      then have "butlast (relayed e) = []" by (cases "relayed e") auto
      then show ?thesis using stub_step_sent [OF q] Cons.prems True q Some by auto
    qed
  qed (use Cons in auto)
qed simp

lemma stub_step_clock:
  assumes "stub_step e s = (q, s')" and "cs_now s + KEEP_ALIVE_TIMEOUT_S = cs_deadline s + k"
  shows "cs_now s' + KEEP_ALIVE_TIMEOUT_S = cs_deadline s' + idle [e] k"
  using assms
  by (cases e) (auto simp: stub_step_def send_task_def stub_transport_send_def Let_def
      split: option.splits sum.splits if_splits)

lemma idle_Cons: "idle (e # es) k = idle es (idle [e] k)"
  by (cases e) auto

lemma stub_loop_clock:
  assumes "stub_loop es s = (r, s')" and "cs_now s + KEEP_ALIVE_TIMEOUT_S = cs_deadline s + k"
  shows "cs_now s' + KEEP_ALIVE_TIMEOUT_S = cs_deadline s' + idle (consumed es s) k \<and>
     (consumed es s \<noteq> [] \<longrightarrow> last (consumed es s) = KeepAliveFires \<longrightarrow>
        KEEP_ALIVE_TIMEOUT_S \<le> idle (consumed es s) k \<and> r = Some (Inl (ClientTimeout (cs_id s))))"
  using assms
proof (induction es arbitrary: s k)
  case (Cons e es)
  obtain q s1 where q: "stub_step e s = (q, s1)" by fastforce
  note clock = stub_step_clock [OF q Cons.prems(2)]
  show ?case
  proof (cases "stub_enabled e s")
    case True
    show ?thesis
    proof (cases q)
      case None
      have "e \<noteq> KeepAliveFires" using q None by (auto simp: stub_step_def)
      then show ?thesis
        using Cons.IH [OF _ clock] Cons.prems(1) True q None idle_Cons [of e "consumed es s1" k]
          stub_step_idD [OF q] by auto
    next
      case (Some x)
      have "s1 = s'" "r = Some x" using Cons.prems(1) True q Some by auto
      then show ?thesis using True q Some clock by (auto simp: stub_step_def)
    qed
  qed (use Cons in auto)
qed simp

section \<open>Properties\<close>

text \<open>
  C32: whatever ends a connection (the client, its transport, the core or the timer), the
  core is sent, in order, exactly the messages the client sent while it was served and
  then one \<open>Deregister\<close>, and never a \<open>Deregister\<close> while the connection is still served.
\<close>

theorem stub_forwards_then_deregisters:
  assumes "stub_serve es (stub_start i t) = (r, s)" and "cs_core_alive s"
  shows "cs_tasks s = map (Message i) (client_said (consumed es (stub_start i t))) @
     (case r of Some _ \<Rightarrow> [Deregister i] | None \<Rightarrow> [])"
proof -
  obtain q s1 where q: "stub_loop es (stub_start i t) = (q, s1)" by fastforce
  have i: "cs_id s1 = i" using stub_loop_id [OF q] by (simp add: stub_start_def)
  have a: "cs_core_alive s1"
    using assms q by (cases q) (auto simp: stub_serve_def send_task_def split: if_splits)
  have "cs_tasks s1 = map (Message i) (client_said (consumed es (stub_start i t)))"
    using stub_loop_tasks [OF q a] by (simp add: stub_start_def)
  then show ?thesis
    using assms q a i by (cases q) (auto simp: stub_serve_def send_task_def)
qed

lemma demo_stub_run:
  "\<exists>s. stub_serve [FromTransport (Some (Inr (Msg 1 ClientKeepAlive))), FromTransport None]
     (stub_start 4 0) = (Some (Inl ChannelClosed), s) \<and> cs_core_alive s"
  by (simp add: stub_serve_def stub_step_def send_task_def stub_start_def)

theorem stub_forwards_then_deregisters_witness:
  "\<exists>s. stub_serve [FromTransport (Some (Inr (Msg 1 ClientKeepAlive))), FromTransport None]
     (stub_start 4 0) = (Some (Inl ChannelClosed), s) \<and>
     cs_tasks s = [Message 4 (Msg 1 ClientKeepAlive), Deregister 4]"
proof -
  let ?es = "[FromTransport (Some (Inr (Msg 1 ClientKeepAlive))), FromTransport None]"
  obtain s where s: "stub_serve ?es (stub_start 4 0) = (Some (Inl ChannelClosed), s)"
    "cs_core_alive s" using demo_stub_run by blast
  have "client_said (consumed ?es (stub_start 4 0)) = [Msg 1 ClientKeepAlive]"
    by (simp add: stub_step_def send_task_def stub_start_def)
  then show ?thesis using stub_forwards_then_deregisters [OF s] s(1) by simp
qed

text \<open>
  The client gets the core's messages in the order the core sent them, none skipped:
  all of them while its transport works, and all but at most the last taken once it fails.
\<close>

theorem stub_relays_in_order:
  assumes "stub_serve es (stub_start i t) = (r, s)"
  shows "cs_sent s = core_said (consumed es (stub_start i t)) \<or>
     cs_sink_error s \<noteq> None \<and> cs_sent s = butlast (core_said (consumed es (stub_start i t)))"
proof -
  obtain q s1 where q: "stub_loop es (stub_start i t) = (q, s1)" by fastforce
  have "cs_sent s = cs_sent s1" "cs_sink_error s = cs_sink_error s1"
    using assms q by (cases q; auto simp: stub_serve_def send_task_def split: if_splits)+
  then show ?thesis using stub_loop_sent [OF q] by (auto simp: stub_start_def)
qed

theorem stub_relays_in_order_witness:
  "\<exists>s. stub_serve [FromCore (Some (Msg 0 (ServerAck (ack_msg.make 1 None None))))] (stub_start 4 0) =
     (None, s) \<and> cs_sent s = [Msg 0 (ServerAck (ack_msg.make 1 None None))]"
proof -
  let ?es = "[FromCore (Some (Msg 0 (ServerAck (ack_msg.make 1 None None))))]"
  obtain s where s: "stub_serve ?es (stub_start 4 0) = (None, s)" "cs_sink_error s = None"
    by (simp add: stub_serve_def stub_step_def stub_transport_send_def stub_start_def)
  have "core_said (consumed ?es (stub_start 4 0)) =
      [Msg 0 (ServerAck (ack_msg.make 1 None None))]"
    by (simp add: stub_step_def stub_transport_send_def stub_start_def)
  then show ?thesis using stub_relays_in_order [OF s(1)] s by auto
qed

text \<open>
  A client is dropped as timed out only after its transport has yielded nothing for
  \<open>KEEP_ALIVE_TIMEOUT_S\<close> seconds: every message resets the clock.
\<close>

theorem stub_times_out_only_silent_clients:
  assumes "stub_serve es (stub_start i t) = (r, s)" and "consumed es (stub_start i t) \<noteq> []"
    and "last (consumed es (stub_start i t)) = KeepAliveFires" and "cs_core_alive s"
  shows "r = Some (Inl (ClientTimeout i)) \<and> 90 \<le> idle (consumed es (stub_start i t)) 0"
proof -
  obtain q s1 where q: "stub_loop es (stub_start i t) = (q, s1)" by fastforce
  have "KEEP_ALIVE_TIMEOUT_S \<le> idle (consumed es (stub_start i t)) 0 \<and>
      q = Some (Inl (ClientTimeout i))"
    using stub_loop_clock [OF q, of 0] assms(2,3) by (simp add: stub_start_def)
  moreover have "r = q"
    using assms(1,4) q calculation by (auto simp: stub_serve_def send_task_def split: if_splits)
  ultimately show ?thesis by (simp add: KEEP_ALIVE_TIMEOUT_S_def)
qed

theorem stub_times_out_only_silent_clients_witness:
  "\<exists>s. stub_serve [TimePasses 60, KeepAliveFires, TimePasses 30, KeepAliveFires] (stub_start 4 0) =
     (Some (Inl (ClientTimeout 4)), s) \<and>
     90 \<le> idle (consumed [TimePasses 60, KeepAliveFires, TimePasses 30, KeepAliveFires] (stub_start 4 0)) 0"
proof -
  let ?es = "[TimePasses 60, KeepAliveFires, TimePasses 30, KeepAliveFires]"
  obtain r s where s: "stub_serve ?es (stub_start 4 0) = (r, s)" "cs_core_alive s"
    by (simp add: stub_serve_def stub_step_def send_task_def stub_start_def KEEP_ALIVE_TIMEOUT_S_def)
  have "consumed ?es (stub_start 4 0) = [TimePasses 60, TimePasses 30, KeepAliveFires]"
    by (simp add: stub_step_def stub_start_def KEEP_ALIVE_TIMEOUT_S_def)
  then show ?thesis using stub_times_out_only_silent_clients [OF s(1) _ _ s(2)] s(1) by simp
qed

fun silent :: "stub_event \<Rightarrow> bool" where
  \<comment> \<open>the transport yields nothing and takes what it is given\<close>
  "silent (FromCore (Some m)) \<longleftrightarrow> True"
| "silent (TimePasses n) \<longleftrightarrow> True"
| "silent KeepAliveFires \<longleftrightarrow> True"
| "silent _ \<longleftrightarrow> False"

lemma idle_shift: "\<forall>e \<in> set es. silent e \<Longrightarrow> idle es (k + n) = k + idle es n"
  by (induction es n rule: idle.induct) (auto simp: add.assoc)

lemma stub_loop_silent:
  assumes "\<forall>e \<in> set es. silent e" and "cs_sink_error s = None" and "cs_core_alive s"
    and "cs_deadline s \<le> cs_now s + idle es 0"
  shows "\<exists>s'. stub_loop (es @ [KeepAliveFires]) s = (Some (Inl (ClientTimeout (cs_id s))), s') \<and>
    cs_tasks s' = cs_tasks s \<and> cs_core_alive s' \<and> cs_id s' = cs_id s"
  using assms
proof (induction es arbitrary: s)
  case (Cons e es)
  show ?case
  proof (cases e)
    case (TimePasses n)
    have "idle es n = n + idle es 0" using idle_shift [of es n 0] Cons.prems(1) by simp
    then show ?thesis
      using Cons.IH [of "s\<lparr>cs_now := cs_now s + n\<rparr>"] Cons.prems TimePasses
      by (simp add: stub_step_def)
  next
    case (FromCore q)
    then obtain m where "q = Some m" using Cons.prems(1) by (cases q) auto
    then show ?thesis
      using Cons.IH [of "s\<lparr>cs_sent := cs_sent s @ [m]\<rparr>"] Cons.prems FromCore
      by (simp add: stub_step_def stub_transport_send_def)
  next
    case KeepAliveFires
    then show ?thesis using Cons by (cases "cs_deadline s \<le> cs_now s") (simp_all add: stub_step_def)
  qed (use Cons.prems in simp_all)
qed (simp add: stub_step_def)

text \<open>
  C33: a client from which nothing has come for 90 seconds is dropped when the timer next
  fires, whatever the core sends it meanwhile, and is deregistered.
\<close>

theorem silent_client_is_dropped:
  assumes "\<forall>e \<in> set es. (\<exists>m. e = FromCore (Some m)) \<or> (\<exists>n. e = TimePasses n) \<or> e = KeepAliveFires"
    and "90 \<le> idle es 0"
  shows "\<exists>s. stub_serve (es @ [KeepAliveFires]) (stub_start i t) = (Some (Inl (ClientTimeout i)), s) \<and>
    cs_tasks s = [Deregister i]"
proof -
  have "\<forall>e \<in> set es. silent e" using assms(1) by auto
  from stub_loop_silent [OF this, of "stub_start i t"] assms(2)
  show ?thesis by (auto simp: stub_serve_def stub_start_def send_task_def KEEP_ALIVE_TIMEOUT_S_def)
qed

theorem silent_client_is_dropped_witness:
  "\<exists>s. stub_serve [TimePasses 60, KeepAliveFires, FromCore (Some (Msg 3 (ServerAck \<lparr>ack_msg_id = 1, ack_err = None, num_recipients = None\<rparr>))),
     TimePasses 40, KeepAliveFires] (stub_start 4 0) = (Some (Inl (ClientTimeout 4)), s) \<and> cs_tasks s = [Deregister 4]"
  using silent_client_is_dropped
    [of "[TimePasses 60, KeepAliveFires, FromCore (Some (Msg 3 (ServerAck \<lparr>ack_msg_id = 1, ack_err = None, num_recipients = None\<rparr>))), TimePasses 40]" 4 0]
  by simp

end
