(* ===== verification/Lifecycle.thy ===== *)
theory Lifecycle
  imports Server_Core
begin

text \<open>
  How a server is put together, taken down and reached: \<open>stopper.rs\<close>, \<open>server/listen.rs\<close>,
  \<open>server/builder.rs\<close> and \<open>transport/memory.rs\<close>. A spawned task is known by what awaiting
  its handle yields; binding a socket is an operation of the system and a parameter.
\<close>

section \<open>Stoppers\<close>

datatype join_result =
    Joined "unit result"
  | JoinFailed string \<comment> \<open>the task panicked or was cancelled\<close>

record basic_stopper =
  stop_listened :: bool \<comment> \<open>the task still holds the receiver of the stop signal\<close>
  join_handle :: join_result

definition basic_join :: "basic_stopper \<Rightarrow> unit result" where
  "basic_join s =
     (case join_handle s of JoinFailed m \<Rightarrow> Inl (from_join_error m) | Joined r \<Rightarrow> r)"

definition basic_stop :: "basic_stopper \<Rightarrow> unit result" where
  "basic_stop s = (if stop_listened s then basic_join s else Inl ChannelClosed)"

fun collect_results :: "'a result list \<Rightarrow> 'a list result" where
  \<comment> \<open>\<open>collect\<close> into a \<open>Result\<close>: the values, or the first error\<close>
  "collect_results [] = Inr []"
| "collect_results (Inl e # rs) = Inl e"
| "collect_results (Inr v # rs) =
     (case collect_results rs of Inl e \<Rightarrow> Inl e | Inr vs \<Rightarrow> Inr (v # vs))"

definition multi_stop :: "basic_stopper list \<Rightarrow> unit result" where
  "multi_stop ss =
     (case collect_results (map basic_stop ss) of Inl e \<Rightarrow> Inl e | Inr _ \<Rightarrow> Inr ())"

definition multi_join :: "basic_stopper list \<Rightarrow> unit result" where
  "multi_join ss =
     (case collect_results (map basic_join ss) of Inl e \<Rightarrow> Inl e | Inr _ \<Rightarrow> Inr ())"

lemma collect_map_Inr [simp]: "collect_results (map Inr vs) = Inr vs"
  by (induction vs) auto

lemma collect_Inr: "collect_results rs = Inr vs \<longleftrightarrow> rs = map Inr vs"
  by (induction rs arbitrary: vs rule: collect_results.induct)
     (auto simp: Cons_eq_map_conv split: sum.splits)

lemma collect_map_InlI:
  "\<forall>b \<in> set before. \<exists>v. f b = Inr v \<Longrightarrow> f s = Inl e \<Longrightarrow>
   collect_results (map f (before @ s # after)) = Inl e"
  by (induction before) auto

lemma collect_map_InlD:
  "collect_results (map f ss) = Inl e \<Longrightarrow>
   \<exists>before s after. ss = before @ s # after \<and> f s = Inl e \<and> (\<forall>b \<in> set before. \<exists>v. f b = Inr v)"
proof (induction ss)
  case (Cons s ss)
  show ?case
  proof (cases "f s")
    case (Inl x)
    then show ?thesis using Cons.prems by (intro exI [of _ "[]"] exI [of _ s] exI [of _ ss]) simp
  next
    case (Inr v)
    then obtain before t after where "ss = before @ t # after" "f t = Inl e"
      "\<forall>b \<in> set before. \<exists>v. f b = Inr v"
      using Cons by (auto split: sum.splits)
    with Inr show ?thesis
      by (intro exI [of _ "s # before"] exI [of _ t] exI [of _ after]) simp
  qed
qed simp

lemma collect_map_Inl:
  "collect_results (map f ss) = Inl e \<longleftrightarrow>
   (\<exists>before s after. ss = before @ s # after \<and> f s = Inl e \<and> (\<forall>b \<in> set before. \<exists>v. f b = Inr v))"
  using collect_map_InlI [of _ f _ e] collect_map_InlD [of f ss e] by blast

lemma collect_map_ok:
  fixes f :: "'b \<Rightarrow> unit result"
  shows "(\<exists>vs. collect_results (map f ss) = Inr vs) \<longleftrightarrow> (\<forall>s \<in> set ss. f s = Inr ())"
proof (induction ss)
  case (Cons s ss)
  then show ?case by (cases "f s"; cases "collect_results (map f ss)") auto
qed simp

text \<open>
  The server as a spawned task, after its channels have yielded \<open>es\<close>. Awaiting the handle
  of one that still runs lasts until the stop signal, with which it ends well.
\<close>

definition core_spawn :: "runtime \<Rightarrow> string \<Rightarrow> core_event list \<Rightarrow> core \<Rightarrow> basic_stopper result" where
  "core_spawn rt panic_text es c =
     Inr (case fst (core_run rt es c) of
         Running \<Rightarrow> \<lparr>stop_listened = True, join_handle = Joined (Inr ())\<rparr>
       | Stopped r \<Rightarrow> \<lparr>stop_listened = False, join_handle = Joined r\<rparr>
       | Panicked \<Rightarrow> \<lparr>stop_listened = False, join_handle = JoinFailed panic_text\<rparr>)"

lemma stop_spawned_core:
  "core_spawn rt txt es c = Inr s \<Longrightarrow>
   basic_stop s = (if fst (core_run rt es c) = Running then Inr () else Inl ChannelClosed) \<and>
   (\<forall>r. fst (core_run rt es c) = Stopped r \<longrightarrow> basic_join s = r)"
  by (auto simp: core_spawn_def basic_stop_def basic_join_def split: outcome.splits)

section \<open>Listening\<close>

datatype listen_event =
    ListenStop
  | Accepted "nat result" \<comment> \<open>what \<open>accept\<close> yields: a transport or an error\<close>

fun listen_loop :: "bool \<Rightarrow> listen_event list \<Rightarrow> unit result option \<times> task list" where
  \<comment> \<open>the spawned loop of \<open>listen\<close>, while the core does or does not receive tasks: its
    result once it ends, and the tasks it sent\<close>
  "listen_loop core_alive [] = (None, [])"
| "listen_loop core_alive (ListenStop # es) = (Some (Inr ()), [])"
| "listen_loop core_alive (Accepted (Inl e) # es) = (Some (Inl e), [])"
| "listen_loop core_alive (Accepted (Inr t) # es) =
     (if core_alive
      then (case listen_loop core_alive es of (r, ts) \<Rightarrow> (r, Register t # ts))
      else (Some (Inl from_send_error), []))"

section \<open>The server builder\<close>

datatype ('a, 'p) listener_enum =
    ListenMemory
  | ListenTcp 'a
  | ListenUnix 'p

record ('a, 'p) server_builder =
  listeners :: "('a, 'p) listener_enum list"

definition builder_new :: "('a, 'p) server_builder" where
  "builder_new = \<lparr>listeners = []\<rparr>"

definition serve_unix_socket :: "'p \<Rightarrow> ('a, 'p) server_builder \<Rightarrow> ('a, 'p) server_builder" where
  "serve_unix_socket addr b = b\<lparr>listeners := listeners b @ [ListenUnix addr]\<rparr>"

definition serve_tcp :: "'a \<Rightarrow> ('a, 'p) server_builder \<Rightarrow> ('a, 'p) server_builder" where
  "serve_tcp addr b = b\<lparr>listeners := listeners b @ [ListenTcp addr]\<rparr>"

definition serve_memory :: "('a, 'p) server_builder \<Rightarrow> ('a, 'p) server_builder" where
  "serve_memory b =
     (if list_ex (\<lambda>l. l = ListenMemory) (listeners b) then b
      else b\<lparr>listeners := listeners b @ [ListenMemory]\<rparr>)"

text \<open>
  A listening task is named by its listener, and a memory connector by the position of
  its listener; \<open>bind_tcp\<close> and \<open>bind_unix\<close> are the system's answers.
\<close>

datatype ('a, 'p) server_task =
    ListenTask "('a, 'p) listener_enum"
  | CoreTask

definition listener_listen ::
    "('a \<Rightarrow> unit result) \<Rightarrow> ('p \<Rightarrow> unit result) \<Rightarrow> nat \<Rightarrow> ('a, 'p) listener_enum \<Rightarrow>
     (('a, 'p) server_task \<times> nat option) result" where
  "listener_listen bind_tcp bind_unix i l =
     (case l of
        ListenMemory \<Rightarrow> Inr (ListenTask l, Some i)
      | ListenUnix addr \<Rightarrow>
          (case bind_unix addr of Inl e \<Rightarrow> Inl e | Inr _ \<Rightarrow> Inr (ListenTask l, None))
      | ListenTcp addr \<Rightarrow>
          (case bind_tcp addr of Inl e \<Rightarrow> Inl e | Inr _ \<Rightarrow> Inr (ListenTask l, None)))"

definition build ::
    "('a \<Rightarrow> unit result) \<Rightarrow> ('p \<Rightarrow> unit result) \<Rightarrow> ('a, 'p) server_builder \<Rightarrow>
     (('a, 'p) server_task list \<times> nat option) result" where
  "build bind_tcp bind_unix b =
     (case collect_results
             (map (\<lambda>(i, l). listener_listen bind_tcp bind_unix i l) (enumerate 0 (listeners b))) of
        Inl e \<Rightarrow> Inl e
      | Inr results \<Rightarrow>
          (let (stoppers, connector) =
             fold (\<lambda>(t, c) (stoppers, connector).
                 (stoppers @ [t], case connector of Some _ \<Rightarrow> connector | None \<Rightarrow> c))
               results ([], None)
           in Inr (stoppers @ [CoreTask], connector)))"

lemma build_fold:
  "fold (\<lambda>(t, c) (stoppers, connector).
       (stoppers @ [t], case connector of Some _ \<Rightarrow> connector | None \<Rightarrow> c)) rs (ss, k) =
   (ss @ map fst rs,
    case k of Some _ \<Rightarrow> k
    | None \<Rightarrow> (case List.map_filter snd rs of [] \<Rightarrow> None | c # _ \<Rightarrow> Some c))"
  by (induction rs arbitrary: ss k)
     (auto simp: List.map_filter_def split: option.splits list.splits)

section \<open>The memory transport\<close>

record mem_transport =
  mt_sender :: nat
  mt_receiver :: nat

record hub =
  accept_queue :: "mem_transport chan"
  upward :: "nat \<Rightarrow> protocol_client msg result chan" \<comment> \<open>client to server\<close>
  downward :: "nat \<Rightarrow> protocol_server msg result chan"
  next_pair :: nat

definition hub_new :: hub where
  "hub_new = \<lparr>accept_queue = new_chan,
     upward = (\<lambda>_. \<lparr>buffer = [], rx_alive = False, tx_alive = False\<rparr>),
     downward = (\<lambda>_. \<lparr>buffer = [], rx_alive = False, tx_alive = False\<rparr>), next_pair = 0\<rparr>"

definition mem_connect :: "hub \<Rightarrow> mem_transport result \<times> hub" where
  \<comment> \<open>the two channels of a connection have the same number, one in each direction\<close>
  "mem_connect h =
     (let n = next_pair h;
          h = h\<lparr>upward := (upward h)(n := new_chan), downward := (downward h)(n := new_chan),
                next_pair := n + 1\<rparr>;
          client_side = \<lparr>mt_sender = n, mt_receiver = n\<rparr>;
          server_side = \<lparr>mt_sender = n, mt_receiver = n\<rparr>
      in case chan_send server_side (accept_queue h) of
           Some q \<Rightarrow> (Inr client_side, h\<lparr>accept_queue := q\<rparr>)
         | None \<Rightarrow>
             (Inl from_send_error,
              h\<lparr>upward := (upward h)(n := (new_chan\<lparr>rx_alive := False, tx_alive := False\<rparr>)),
                downward := (downward h)(n := (new_chan\<lparr>rx_alive := False, tx_alive := False\<rparr>))\<rparr>))"

definition mem_accept :: "hub \<Rightarrow> mem_transport result poll \<times> hub" where
  "mem_accept h =
     (case poll_recv (accept_queue h) of
        (Pending, q) \<Rightarrow> (Pending, h\<lparr>accept_queue := q\<rparr>)
      | (Ready (Some t), q) \<Rightarrow> (Ready (Inr t), h\<lparr>accept_queue := q\<rparr>)
      | (Ready None, q) \<Rightarrow> (Ready (Inl ChannelClosed), h\<lparr>accept_queue := q\<rparr>))"

definition client_send_item :: "mem_transport \<Rightarrow> protocol_client msg \<Rightarrow> hub \<Rightarrow> unit result \<times> hub" where
  \<comment> \<open>\<open>start_send\<close> at the client's end\<close>
  "client_send_item t m h =
     (case chan_send (Inr m) (upward h (mt_sender t)) of
        Some c \<Rightarrow> (Inr (), h\<lparr>upward := (upward h)(mt_sender t := c)\<rparr>)
      | None \<Rightarrow> (Inl from_send_error, h))"

definition server_poll_next ::
    "mem_transport \<Rightarrow> hub \<Rightarrow> protocol_client msg result option poll \<times> hub" where
  \<comment> \<open>\<open>poll_next\<close> at the server's end\<close>
  "server_poll_next t h =
     (case poll_recv (upward h (mt_receiver t)) of
        (p, c) \<Rightarrow> (p, h\<lparr>upward := (upward h)(mt_receiver t := c)\<rparr>))"

definition server_send_item :: "mem_transport \<Rightarrow> protocol_server msg \<Rightarrow> hub \<Rightarrow> unit result \<times> hub" where
  "server_send_item t m h =
     (case chan_send (Inr m) (downward h (mt_sender t)) of
        Some c \<Rightarrow> (Inr (), h\<lparr>downward := (downward h)(mt_sender t := c)\<rparr>)
      | None \<Rightarrow> (Inl from_send_error, h))"

definition client_poll_next ::
    "mem_transport \<Rightarrow> hub \<Rightarrow> protocol_server msg result option poll \<times> hub" where
  "client_poll_next t h =
     (case poll_recv (downward h (mt_receiver t)) of
        (p, c) \<Rightarrow> (p, h\<lparr>downward := (downward h)(mt_receiver t := c)\<rparr>))"

end
