(* ===== verification/Lifecycle_Properties.thy ===== *)
theory Lifecycle_Properties
  imports Lifecycle
begin

text \<open>
  The properties of building, listening, stopping, and of the memory transport.
\<close>

section \<open>Building a server\<close>

fun bound :: "('a \<Rightarrow> unit result) \<Rightarrow> ('p \<Rightarrow> unit result) \<Rightarrow> ('a, 'p) listener_enum \<Rightarrow> unit result" where
  "bound bind_tcp bind_unix ListenMemory = Inr ()"
| "bound bind_tcp bind_unix (ListenTcp a) = bind_tcp a"
| "bound bind_tcp bind_unix (ListenUnix p) = bind_unix p"

lemma listener_listen_bound:
  "listener_listen bt bu i l =
     (case bound bt bu l of Inl e \<Rightarrow> Inl e
      | Inr _ \<Rightarrow> Inr (ListenTask l, if l = ListenMemory then Some i else None))"
  by (cases l) (auto simp: listener_listen_def split: sum.split)

fun first_memory :: "nat \<Rightarrow> ('a, 'p) listener_enum list \<Rightarrow> nat option" where
  "first_memory i [] = None"
| "first_memory i (l # ls) = (if l = ListenMemory then Some i else first_memory (Suc i) ls)"

lemma collect_listeners:
  "collect_results (map (\<lambda>(i, l). listener_listen bt bu i l) (enumerate n ls)) =
     (case collect_results (map (bound bt bu) ls) of
        Inl e \<Rightarrow> Inl e
      | Inr _ \<Rightarrow> Inr (map (\<lambda>(i, l). (ListenTask l, if l = ListenMemory then Some i else None))
          (enumerate n ls)))"
proof (induction ls arbitrary: n)
  case (Cons l ls)
  show ?case
  proof (cases "bound bt bu l")
    case (Inr u)
    then show ?thesis using Cons.IH [of "Suc n"]
      by (cases "collect_results (map (bound bt bu) ls)") (simp_all add: listener_listen_bound)
  qed (simp add: listener_listen_bound)
qed simp

lemma connector_first:
  "(case List.map_filter snd (map (\<lambda>(i, l). (ListenTask l, if l = ListenMemory then Some i else None))
      (enumerate n ls)) of [] \<Rightarrow> None | c # _ \<Rightarrow> Some c) = first_memory n ls"
  by (induction ls arbitrary: n) (auto simp: List.map_filter_def)

text \<open>
  Building starts one listening task per configured listener, in order, and then the
  core, and hands out the memory listener's connector; if some listener cannot be bound,
  there is no server and the result is the error of the first that failed.
\<close>

theorem build_starts_every_listener:
  "build bind_tcp bind_unix b =
     (case collect_results (map (bound bind_tcp bind_unix) (listeners b)) of
        Inl e \<Rightarrow> Inl e
      | Inr _ \<Rightarrow> Inr (map ListenTask (listeners b) @ [CoreTask], first_memory 0 (listeners b))) \<and>
   (collect_results (map (bound bind_tcp bind_unix) (listeners b)) = Inl e \<longleftrightarrow>
      (\<exists>before l after. listeners b = before @ l # after \<and> bound bind_tcp bind_unix l = Inl e \<and>
         (\<forall>k \<in> set before. \<exists>u. bound bind_tcp bind_unix k = Inr u)))"
proof -
  have "map fst (map (\<lambda>(i, l). (ListenTask l, if l = ListenMemory then Some i else None))
      (enumerate n ls)) = map ListenTask ls" for n :: nat and ls :: "('a, 'b) listener_enum list"
    by (induction ls arbitrary: n) auto
  then have "build bind_tcp bind_unix b =
     (case collect_results (map (bound bind_tcp bind_unix) (listeners b)) of
        Inl e \<Rightarrow> Inl e
      | Inr _ \<Rightarrow> Inr (map ListenTask (listeners b) @ [CoreTask], first_memory 0 (listeners b)))"
    by (simp add: build_def collect_listeners build_fold connector_first split: sum.split)
  then show ?thesis by (simp add: collect_map_Inl)
qed

theorem build_starts_every_listener_witness:
  "build (\<lambda>a. if a = 0 then Inl DnsLookupFailed else Inr ()) (\<lambda>p. Inr ())
     \<lparr>listeners = [ListenMemory, ListenTcp (0 :: nat), ListenUnix (7 :: nat)]\<rparr> = Inl DnsLookupFailed"
  using build_starts_every_listener [of "\<lambda>a. if a = 0 then Inl DnsLookupFailed else Inr ()"
      "\<lambda>p. Inr ()" "\<lparr>listeners = [ListenMemory, ListenTcp (0 :: nat), ListenUnix (7 :: nat)]\<rparr>"]
  by simp

text \<open>
  Asking for the memory transport any number of times adds one memory listener, and
  never disturbs the other listeners.
\<close>

theorem serve_memory_idempotent:
  "count_list (listeners b) ListenMemory \<le> 1 \<longrightarrow>
     serve_memory (serve_memory b) = serve_memory b \<and>
     count_list (listeners (serve_memory b)) ListenMemory = 1 \<and>
     filter (\<lambda>l. l \<noteq> ListenMemory) (listeners (serve_memory b)) =
       filter (\<lambda>l. l \<noteq> ListenMemory) (listeners b)"
proof (cases "ListenMemory \<in> set (listeners b)")
  case True
  then have "count_list (listeners b) ListenMemory \<noteq> 0" by (simp add: count_list_0_iff)
  with True show ?thesis by (auto simp: serve_memory_def list_ex_iff)
next
  case False
  then show ?thesis by (simp add: serve_memory_def list_ex_iff count_list_0_iff)
qed

theorem serve_memory_idempotent_witness:
  "serve_memory (serve_memory (builder_new :: (nat, nat) server_builder)) = serve_memory builder_new"
  using serve_memory_idempotent [of "builder_new :: (nat, nat) server_builder"]
  by (simp add: builder_new_def)

section \<open>Listening\<close>

fun accepted_ok :: "listen_event \<Rightarrow> nat option" where
  "accepted_ok (Accepted (Inr t)) = Some t"
| "accepted_ok _ = None"

text \<open>
  While the core runs, a listener registers every transport it accepts, once and in
  order, until the stop signal or the first \<open>accept\<close> that fails; that one failure ends
  listening for good, whatever the later connections.
\<close>

theorem listener_registers_until_first_failure:
  "listen_loop True es =
     (case dropWhile (\<lambda>e. accepted_ok e \<noteq> None) es of
        [] \<Rightarrow> None
      | ListenStop # _ \<Rightarrow> Some (Inr ())
      | Accepted (Inl err) # _ \<Rightarrow> Some (Inl err)
      | Accepted (Inr t) # _ \<Rightarrow> None,
      map Register (List.map_filter accepted_ok (takeWhile (\<lambda>e. accepted_ok e \<noteq> None) es)))"
proof (induction es)
  case (Cons e es)
  then show ?case
    by (cases e rule: accepted_ok.cases) (auto simp: List.map_filter_def)
qed (simp add: List.map_filter_def)

section \<open>Stopping\<close>

text \<open>
  Stopping a group of tasks succeeds exactly when every task was still listening for
  the signal, joined, and ended without an error; otherwise the result is the first
  task's error in the order of the group.
\<close>

theorem multi_stop_reports_first_error:
  "(multi_stop ss = Inr () \<longleftrightarrow>
      (\<forall>s \<in> set ss. stop_listened s \<and> join_handle s = Joined (Inr ()))) \<and>
   (multi_stop ss = Inl e \<longleftrightarrow>
      (\<exists>before s after. ss = before @ s # after \<and> basic_stop s = Inl e \<and>
         (\<forall>b \<in> set before. basic_stop b = Inr ())))"
proof -
  have ok: "basic_stop s = Inr () \<longleftrightarrow> stop_listened s \<and> join_handle s = Joined (Inr ())" for s
    by (auto simp: basic_stop_def basic_join_def split: join_result.split)
  have "multi_stop ss = Inr () \<longleftrightarrow> (\<exists>us. collect_results (map basic_stop ss) = Inr us)"
    by (auto simp: multi_stop_def split: sum.split)
  moreover have "multi_stop ss = Inl e \<longleftrightarrow> collect_results (map basic_stop ss) = Inl e"
    by (simp add: multi_stop_def split: sum.split)
  ultimately show ?thesis
    by (simp add: collect_map_ok collect_map_Inl ok)
qed

section \<open>The memory transport\<close>

fun send_items :: "mem_transport \<Rightarrow> protocol_client msg list \<Rightarrow> hub \<Rightarrow> unit result \<times> hub" where
  "send_items t [] h = (Inr (), h)"
| "send_items t (m # ms) h =
     (case client_send_item t m h of (Inl e, h) \<Rightarrow> (Inl e, h) | (Inr _, h) \<Rightarrow> send_items t ms h)"

fun poll_items ::
    "nat \<Rightarrow> mem_transport \<Rightarrow> hub \<Rightarrow> protocol_client msg result option poll list \<times> hub" where
  "poll_items 0 t h = ([], h)"
| "poll_items (Suc n) t h =
     (let (p, h) = server_poll_next t h; (ps, h) = poll_items n t h in (p # ps, h))"

lemma send_items_buffer:
  "rx_alive (upward h (mt_sender t)) \<Longrightarrow>
   \<exists>h'. send_items t ms h = (Inr (), h') \<and>
     buffer (upward h' (mt_sender t)) = buffer (upward h (mt_sender t)) @ map Inr ms \<and>
     tx_alive (upward h' (mt_sender t)) = tx_alive (upward h (mt_sender t)) \<and>
     (\<forall>n. n \<noteq> mt_sender t \<longrightarrow> upward h' n = upward h n) \<and> downward h' = downward h"
proof (induction ms arbitrary: h)
  case (Cons m ms)
  let ?c = "(upward h (mt_sender t))\<lparr>buffer := buffer (upward h (mt_sender t)) @ [Inr m]\<rparr>"
  let ?h = "h\<lparr>upward := (upward h)(mt_sender t := ?c)\<rparr>"
  have "client_send_item t m h = (Inr (), ?h)" using Cons.prems by (simp add: client_send_item_def)
  then show ?case using Cons.IH [of ?h] Cons.prems by (auto simp del: fun_upd_apply simp add: fun_upd_def)
qed simp

lemma poll_items_buffer:
  "buffer (upward h (mt_receiver t)) = map Inr ms \<Longrightarrow> tx_alive (upward h (mt_receiver t)) \<Longrightarrow>
   fst (poll_items (Suc (length ms)) t h) = map (\<lambda>m. Ready (Some (Inr m))) ms @ [Pending]"
proof (induction ms arbitrary: h)
  case (Cons m ms)
  let ?c = "(upward h (mt_receiver t))\<lparr>buffer := map Inr ms\<rparr>"
  let ?h = "h\<lparr>upward := (upward h)(mt_receiver t := ?c)\<rparr>"
  have "server_poll_next t h = (Ready (Some (Inr m)), ?h)"
    using Cons.prems by (simp add: server_poll_next_def poll_recv_def)
  moreover have "fst (poll_items (Suc (length ms)) t ?h) =
      map (\<lambda>m. Ready (Some (Inr m))) ms @ [Pending]"
    using Cons.IH [of ?h] Cons.prems by simp
  ultimately show ?case by (simp add: case_prod_beta Let_def)
qed (simp add: server_poll_next_def poll_recv_def)

text \<open>
  A connection made over the memory transport is accepted by the listener, carries
  the client's messages to the server's end complete and in order, and touches no other
  connection.
\<close>

theorem memory_connection_carries_messages:
  assumes "mem_connect h = (Inr t, h1)" and "buffer (accept_queue h) = []"
  shows "\<exists>t' h2 h3. mem_accept h1 = (Ready (Inr t'), h2) \<and>
     send_items t ms h2 = (Inr (), h3) \<and>
     fst (poll_items (Suc (length ms)) t' h3) = map (\<lambda>m. Ready (Some (Inr m))) ms @ [Pending] \<and>
     (\<forall>n. n \<noteq> mt_sender t \<longrightarrow> upward h3 n = upward h n \<and> downward h3 n = downward h n)"
proof -
  let ?n = "next_pair h"
  obtain q where q: "chan_send \<lparr>mt_sender = ?n, mt_receiver = ?n\<rparr> (accept_queue h) = Some q"
    and t: "t = \<lparr>mt_sender = ?n, mt_receiver = ?n\<rparr>"
    and h1: "h1 = h\<lparr>upward := (upward h)(?n := new_chan), downward := (downward h)(?n := new_chan),
      next_pair := ?n + 1, accept_queue := q\<rparr>"
    using assms(1) by (auto simp: mem_connect_def Let_def split: option.splits)
  have "buffer q = [t]" using q t assms(2) by (auto simp: chan_send_def split: if_splits)
  then have a: "mem_accept h1 = (Ready (Inr t), h1\<lparr>accept_queue := q\<lparr>buffer := []\<rparr>\<rparr>)"
    by (simp add: mem_accept_def poll_recv_def h1)
  let ?h2 = "h1\<lparr>accept_queue := q\<lparr>buffer := []\<rparr>\<rparr>"
  obtain h3 where h3: "send_items t ms ?h2 = (Inr (), h3)"
    "buffer (upward h3 ?n) = map Inr ms" "tx_alive (upward h3 ?n)"
    "\<forall>n. n \<noteq> ?n \<longrightarrow> upward h3 n = upward h n" "downward h3 = downward h1"
    using send_items_buffer [of ?h2 t ms] by (auto simp: h1 t new_chan_def)
  moreover have "fst (poll_items (Suc (length ms)) t h3) =
      map (\<lambda>m. Ready (Some (Inr m))) ms @ [Pending]"
    using poll_items_buffer [of h3 t ms] h3(2,3) t by simp
  ultimately show ?thesis
    using a by (intro exI [of _ t] exI [of _ ?h2] exI [of _ h3]) (simp add: h1 t)
qed

theorem memory_connection_carries_messages_witness:
  "\<exists>t h1 h2 h3. mem_connect hub_new = (Inr t, h1) \<and> mem_accept h1 = (Ready (Inr t), h2) \<and>
     send_items t [Msg 1 ClientKeepAlive] h2 = (Inr (), h3)"
proof -
  obtain t h1 where c: "mem_connect hub_new = (Inr t, h1)"
    by (simp add: mem_connect_def hub_new_def new_chan_def Let_def)
  have "buffer (accept_queue hub_new) = []" by (simp add: hub_new_def new_chan_def)
  from memory_connection_carries_messages [OF c this, of "[Msg 1 ClientKeepAlive]"]
  obtain t' h2 h3 where "mem_accept h1 = (Ready (Inr t'), h2)"
    "send_items t [Msg 1 ClientKeepAlive] h2 = (Inr (), h3)" by blast
  moreover have "t' = t"
    using c calculation(1)
    by (auto simp: mem_connect_def hub_new_def new_chan_def mem_accept_def poll_recv_def Let_def)
  ultimately show ?thesis using c by blast
qed

end
