(* ===== verification/Capture_Engine.thy ===== *)
theory Capture_Engine
  imports Regex_Engine "HOL-Library.Sublist"
begin

text \<open>
  Patterns with capture groups, as the command line tool uses them. A pattern is the
  sequence of its items; an engine that matches (crate \<open>regex\<close>) is a parameter, and the law
  of locale \<open>capture_engine\<close> is its documented behaviour: leftmost match, the first
  alternative that leads to a match, greedy runs from the longest and lazy ones from the
  shortest. The functions below compute it, so the law can be met.
\<close>

section \<open>Patterns\<close>

datatype item =
    Text string                      \<comment> \<open>literal text\<close>
  | Words "string list"              \<comment> \<open>\<open>(a|b|c)\<close>, a group\<close>
  | Run "(char \<times> char) list" nat bool  \<comment> \<open>\<open>([..]+)\<close> or \<open>([..]*)\<close>, a group: class, minimum, greedy\<close>

datatype pattern =
    Anchored "item list"             \<comment> \<open>\<open>^...$\<close>\<close>
  | Floating "item list"

definition dot :: "(char \<times> char) list" where
  \<comment> \<open>\<open>.\<close>: any character but a newline\<close>
  "dot = [(char_of (0::nat), char_of (9::nat)), (char_of (11::nat), char_of (255::nat))]"

lemma in_class_dot: "in_class dot c \<longleftrightarrow> c \<noteq> CHR 0x0A"
proof -
  have "of_char c < (256::nat)" by simp
  then have c: "of_char c \<le> (255::nat)" by linarith
  have "in_class dot c \<longleftrightarrow> of_char c \<noteq> (10::nat)"
    using c by (auto simp: dot_def)
  also have "\<dots> \<longleftrightarrow> c \<noteq> CHR 0x0A"
    using of_char_eq_iff [where 'a = nat, of c "CHR 0x0A"] by simp
  finally show ?thesis .
qed

section \<open>Matching\<close>

definition run_lengths :: "(char \<times> char) list \<Rightarrow> nat \<Rightarrow> bool \<Rightarrow> string \<Rightarrow> nat list" where
  "run_lengths cl least greedy s =
     (let ks = [least..<Suc (length (takeWhile (in_class cl) s))] in if greedy then rev ks else ks)"

fun ways :: "item list \<Rightarrow> string \<Rightarrow> (string list \<times> string) list" where
  \<comment> \<open>all ways to match a prefix, best first: the captured groups and the rest\<close>
  "ways [] s = [([], s)]"
| "ways (Text w # items) s = (if prefix w s then ways items (drop (length w) s) else [])"
| "ways (Words ws # items) s =
     concat (map (\<lambda>w. if prefix w s
        then map (\<lambda>(cs, r). (w # cs, r)) (ways items (drop (length w) s)) else []) ws)"
| "ways (Run cl least greedy # items) s =
     concat (map (\<lambda>k. map (\<lambda>(cs, r). (take k s # cs, r)) (ways items (drop k s)))
       (run_lengths cl least greedy s))"

definition best :: "'a list \<Rightarrow> 'a option" where
  "best xs = (case xs of [] \<Rightarrow> None | x # _ \<Rightarrow> Some x)"

fun find_first :: "item list \<Rightarrow> string \<Rightarrow> (string list \<times> string) option" where
  "find_first items [] = best (ways items [])"
| "find_first items (c # s) =
     (case best (ways items (c # s)) of Some w \<Rightarrow> Some w | None \<Rightarrow> find_first items s)"

fun first_captures :: "pattern \<Rightarrow> string \<Rightarrow> string list option" where
  "first_captures (Anchored items) s =
     map_option fst (best (filter (\<lambda>w. snd w = []) (ways items s)))"
| "first_captures (Floating items) s = map_option fst (find_first items s)"

function scan :: "item list \<Rightarrow> string \<Rightarrow> string list list" where
  \<comment> \<open>successive matches, for patterns that match no empty text\<close>
  "scan items s =
     (case find_first items s of
        None \<Rightarrow> []
      | Some (cs, rest) \<Rightarrow> cs # (if length rest < length s then scan items rest else []))"
  by pat_completeness auto
termination
  by (relation "measure (\<lambda>(items, s). length s)") auto

declare scan.simps [simp del]

section \<open>The engine\<close>

locale capture_engine =
  fixes captures :: "pattern \<Rightarrow> string \<Rightarrow> string list option"
    and captures_iter :: "item list \<Rightarrow> string \<Rightarrow> string list list"
  assumes captures_eq: "captures p s = first_captures p s"
    and captures_iter_eq: "captures_iter items s = scan items s"
begin

lemma captures_floating_matches:
  "find_first items s = Some (cs, r) \<Longrightarrow> captures (Floating items) s = Some cs"
  by (simp add: captures_eq)

end

interpretation first_engine: capture_engine first_captures scan
  by unfold_locales (rule refl)+

section \<open>Single items\<close>

lemma takeWhile_dot:
  "CHR 0x0A \<notin> set a \<Longrightarrow> takeWhile (in_class dot) (a @ CHR 0x0A # rest) = a"
  by (induction a) (auto simp: in_class_dot)

lemma takeWhile_dot_all: "CHR 0x0A \<notin> set a \<Longrightarrow> takeWhile (in_class dot) a = a"
  by (induction a) (auto simp: in_class_dot)

lemma best_append: "best (xs @ ys) = (case best xs of Some x \<Rightarrow> Some x | None \<Rightarrow> best ys)"
  by (cases xs) (auto simp: best_def)

lemma best_concat_map:
  assumes "\<forall>x \<in> set before. f x = []" and "f y \<noteq> []"
  shows "best (concat (map f (before @ y # after))) = best (f y)"
proof -
  have e: "concat (map f before) = []" using assms(1) by simp
  show ?thesis using assms(2) by (cases "f y") (simp_all add: best_def e del: concat_eq_Nil_conv)
qed

lemma best_Some: "best xs = Some x \<Longrightarrow> x \<in> set xs"
  by (cases xs) (auto simp: best_def)

lemma best_None: "best xs = None \<longleftrightarrow> xs = []"
  by (cases xs) (auto simp: best_def)

lemma ways_Text_iff:
  "(cs, r) \<in> set (ways (Text w # items) s) \<longleftrightarrow>
     (\<exists>s'. s = w @ s' \<and> (cs, r) \<in> set (ways items s'))"
  by (auto simp: prefix_def)

lemma ways_Words_iff:
  "(cs, r) \<in> set (ways (Words ws # items) s) \<longleftrightarrow>
     (\<exists>w \<in> set ws. \<exists>s' cs'. s = w @ s' \<and> (cs', r) \<in> set (ways items s') \<and> cs = w # cs')"
  by (fastforce simp: prefix_def)

lemma ways_Run_iff:
  "(cs, r) \<in> set (ways (Run cl least greedy # items) s) \<longleftrightarrow>
     (\<exists>k cs'. least \<le> k \<and> k \<le> length (takeWhile (in_class cl) s) \<and>
        (cs', r) \<in> set (ways items (drop k s)) \<and> cs = take k s # cs')"
proof -
  have "set (run_lengths cl least greedy s) = {least..length (takeWhile (in_class cl) s)}"
    by (auto simp: run_lengths_def Let_def)
  moreover have "(cs, r) \<in> set (ways (Run cl least greedy # items) s) \<longleftrightarrow>
      (\<exists>k \<in> set (run_lengths cl least greedy s).
         (cs, r) \<in> (\<lambda>(cs, r). (take k s # cs, r)) ` set (ways items (drop k s)))"
    by simp
  moreover have "(cs, r) \<in> (\<lambda>(cs, r). (t # cs, r)) ` S \<longleftrightarrow> (\<exists>cs'. (cs', r) \<in> S \<and> cs = t # cs')"
    for t :: string and S by force
  ultimately show ?thesis by auto
qed

lemmas ways_iff = ways_Text_iff ways_Words_iff ways_Run_iff

lemma find_first_ways:
  "find_first items s = Some w \<Longrightarrow> \<exists>before t. s = before @ t \<and> w \<in> set (ways items t)"
proof (induction items s rule: find_first.induct)
  case (1 items)
  then show ?case by (auto dest: best_Some)
next
  case (2 items c s)
  show ?case
  proof (cases "best (ways items (c # s))")
    case None
    then obtain before t where "s = before @ t" "w \<in> set (ways items t)"
      using 2 by auto
    then show ?thesis by (intro exI [of _ "c # before"] exI [of _ t]) simp
  next
    case (Some x)
    then have "w \<in> set (ways items (c # s))" using 2 best_Some by fastforce
    then show ?thesis by (metis append_Nil)
  qed
qed

lemma scan_ways:
  "cs \<in> set (scan items s) \<Longrightarrow> \<exists>t r. (cs, r) \<in> set (ways items t)"
proof (induction items s rule: scan.induct)
  case (1 items s)
  obtain w where w: "find_first items s = Some w"
    using 1 by (cases "find_first items s") (auto simp: scan.simps [of items s])
  then have "cs = fst w \<or> length (snd w) < length s \<and> cs \<in> set (scan items (snd w))"
    using 1 by (auto simp: scan.simps [of items s] split: prod.splits if_splits)
  then show ?case
    using w 1 find_first_ways [OF w] by (metis prod.collapse)
qed

end
