(* ===== verification/T2_Tool.thy ===== *)
theory T2_Tool
  imports Capture_Engine Lifecycle Codec
begin

text \<open>
  \<open>bin/t2.rs\<close>: the command line tool. The environment holds what it asks the system and the
  regular expression crate: the engine, the variable \<open>HOME\<close> and the file \<open>.t2\<close> there, in
  which names for bus servers are registered. Parsing of arguments is the crate \<open>clap\<close>;
  socket addresses, numbers and hexadecimal text are parsed and printed by parameters. A
  path of the file system is its string.

  The tool's own error is a string, on the left of a sum. A run of the tool is the list of
  what it does, with what \<open>run\<close> returns at the end, or the panic that ends it.
\<close>

section \<open>Errors\<close>

text \<open>
  The tool's \<open>Error\<close> is a text. The texts of errors of the system and of the parser of
  addresses are those of the standard library.
\<close>

definition error_from_io :: "string \<Rightarrow> string" where
  "error_from_io value = value"

definition error_from_bus :: "bus_error \<Rightarrow> string" where
  "error_from_bus value = display_error value"

definition error_from_addr_parse :: "string \<Rightarrow> string" where
  "error_from_addr_parse value = value"

definition display_tool_error :: "string \<Rightarrow> string" where
  "display_tool_error e = e"

section \<open>The environment\<close>

datatype config_file =
    Missing
  | Unreadable \<comment> \<open>a directory, or not UTF-8\<close>
  | Contents string

record tool_env =
  re_is_match :: "rexp \<Rightarrow> string \<Rightarrow> bool"
  re_captures :: "pattern \<Rightarrow> string \<Rightarrow> string list option"
  re_captures_iter :: "item list \<Rightarrow> string \<Rightarrow> string list list"
  home :: "string option"
  config_file :: config_file

section \<open>Patterns and addresses\<close>

definition BUS_ADDR_NAME_RGX :: rexp where
  "BUS_ADDR_NAME_RGX = Plus (Cls [(CHR ''a'', CHR ''z''), (CHR ''_'', CHR ''_'')])"

definition BUS_ADDR_RGX :: pattern where
  "BUS_ADDR_RGX = Anchored [Words [''tcp'', ''unix'', ''name''], Text '':'', Run dot 1 True]"

definition BUS_ADDR_CONFIG_RGX :: "item list" where
  "BUS_ADDR_CONFIG_RGX =
     [Run dot 1 False, Text '' '', Words [''tcp'', ''unix''], Text '':'', Run dot 0 False,
      Text [CHR 0x0A]]"

datatype resolved_bus_addr =
    ResolvedTcp string
  | ResolvedUnix string

fun display_resolved :: "resolved_bus_addr \<Rightarrow> string" where
  "display_resolved (ResolvedTcp addr) = ''tcp:'' @ addr"
| "display_resolved (ResolvedUnix addr) = ''unix:'' @ addr"

definition validate_bus_addr_name :: "tool_env \<Rightarrow> string \<Rightarrow> string + string" where
  "validate_bus_addr_name env s =
     (case re_is_match env BUS_ADDR_NAME_RGX s of
        True \<Rightarrow> Inr s
      | False \<Rightarrow> Inl ''Invalid bus address name, must contain only lowercase and underscore.'')"

definition validate_bus_addr :: "tool_env \<Rightarrow> string \<Rightarrow> string + string" where
  "validate_bus_addr env s =
     (case re_captures env BUS_ADDR_RGX s \<noteq> None of
        True \<Rightarrow> Inr s
      | False \<Rightarrow>
          Inl ''Invalid bus address. Must be in the format of (tcp|unix|name):<address or name>'')"

section \<open>Commands\<close>

datatype tool_command =
    CmdServe "string list"
  | CmdSub topic "string option"
  | CmdPub topic string "string option"
  | CmdLs topic "string option"
  | CmdRegister string string bool
  | CmdUnregister string

definition F32_PREFIX :: string where
  "F32_PREFIX = ''f32''"

definition STRING_PREFIX :: string where
  "STRING_PREFIX = ''string''"

definition validate_command :: "(string \<Rightarrow> 'f option) \<Rightarrow> tool_command \<Rightarrow> string + unit" where
  "validate_command parse_f32 cmd =
     (case cmd of
        CmdPub t value _ \<Rightarrow>
          (if protocol t \<noteq> F32_PREFIX \<and> protocol t \<noteq> STRING_PREFIX
           then Inl ''Unknown protocol''
           else if protocol t = F32_PREFIX \<and> parse_f32 value = None
           then Inl ''When the protocol is f32 then the value must be a valid f32''
           else Inr ())
      | _ \<Rightarrow> Inr ())"

section \<open>The registered names\<close>

fun parse_entry :: "string list \<Rightarrow> (string \<times> resolved_bus_addr) run" where
  \<comment> \<open>the closure of \<open>parse_config\<close> on the groups of one match\<close>
  "parse_entry [name, addr_type, addr] =
     (if addr_type = ''tcp'' then returns (name, ResolvedTcp addr)
      else if addr_type = ''unix'' then returns (name, ResolvedUnix addr)
      else panic)"
| "parse_entry _ = panic"

definition parse_config :: "tool_env \<Rightarrow> (string \<times> resolved_bus_addr) list run" where
  "parse_config env =
     (case home env of
        None \<Rightarrow> returns []
      | Some _ \<Rightarrow>
          (case config_file env of
             Missing \<Rightarrow> returns []
           | Unreadable \<Rightarrow> panic
           | Contents s \<Rightarrow>
               those (map parse_entry (re_captures_iter env BUS_ADDR_CONFIG_RGX s))))"

definition print_config :: "(string \<times> resolved_bus_addr) list \<Rightarrow> string" where
  "print_config config =
     concat (map (\<lambda>(name, addr). name @ '' '' @ display_resolved addr @ [CHR 0x0A]) config)"

definition resolve_addr :: "tool_env \<Rightarrow> string option \<Rightarrow> (string + resolved_bus_addr) run" where
  "resolve_addr env addr =
     (case addr of
        Some s \<Rightarrow>
          (case re_captures env BUS_ADDR_RGX s of
             Some [kind, a] \<Rightarrow>
               (if kind = ''tcp'' then returns (Inr (ResolvedTcp a))
                else if kind = ''unix'' then returns (Inr (ResolvedUnix a))
                else if kind = ''name'' then do {
                  config \<leftarrow> parse_config env;
                  returns (case List.find (\<lambda>(name, _). name = a) config of
                      Some (_, r) \<Rightarrow> Inr r
                    | None \<Rightarrow> Inl (''Name is not registered: '' @ a))
                }
                else returns (Inl ''Invalid address type''))
           | _ \<Rightarrow> panic)
      | None \<Rightarrow> do {
          config \<leftarrow> parse_config env;
          returns (case config of
              [] \<Rightarrow> Inl (''No default address found in config. Use the register command to '' @
                ''add one or specify an address'')
            | (_, r) # _ \<Rightarrow> Inr r)
        })"

text \<open>The branches \<open>Register\<close> and \<open>Unregister\<close> of \<open>run\<close>, up to the text they write.\<close>

definition register ::
    "tool_env \<Rightarrow> string \<Rightarrow> string \<Rightarrow> bool \<Rightarrow> (string + string) run" where
  "register env name addr is_default =
     (case home env of
        None \<Rightarrow> returns (Inl ''HOME environment variable not set'')
      | Some _ \<Rightarrow> do {
          r \<leftarrow> resolve_addr env (Some addr);
          case r of
            Inl e \<Rightarrow> returns (Inl e)
          | Inr resolved \<Rightarrow> do {
              config \<leftarrow> parse_config env;
              let config = filter (\<lambda>(n, _). n \<noteq> name) config;
              let config = (if is_default then (name, resolved) # config
                            else config @ [(name, resolved)]);
              returns (Inr (print_config config))
            }
        })"

definition unregister :: "tool_env \<Rightarrow> string \<Rightarrow> (string + string) run" where
  "unregister env name =
     (case home env of
        None \<Rightarrow> returns (Inl ''HOME environment variable not set'')
      | Some _ \<Rightarrow> do {
          config \<leftarrow> parse_config env;
          returns (Inr (print_config (filter (\<lambda>(n, _). n \<noteq> name) config)))
        })"

section \<open>Serving, publishing and printing\<close>

fun serve_addrs ::
    "tool_env \<Rightarrow> (string \<Rightarrow> string + 'a) \<Rightarrow> string list \<Rightarrow> ('a, string) server_builder \<Rightarrow>
     (string + ('a, string) server_builder) run" where
  \<comment> \<open>the loop over the addresses of \<open>Serve\<close>; \<open>parse_socket\<close> is \<open>str::parse::<SocketAddr>\<close>\<close>
  "serve_addrs env parse_socket [] builder = returns (Inr builder)"
| "serve_addrs env parse_socket (addr # addrs) builder = do {
     r \<leftarrow> resolve_addr env (Some addr);
     case r of
       Inl e \<Rightarrow> returns (Inl e)
     | Inr (ResolvedTcp a) \<Rightarrow>
         (case parse_socket a of
            Inl e \<Rightarrow> returns (Inl e)
          | Inr sock \<Rightarrow> serve_addrs env parse_socket addrs (serve_tcp sock builder))
     | Inr (ResolvedUnix a) \<Rightarrow> serve_addrs env parse_socket addrs (serve_unix_socket a builder)
   }"

definition build_client ::
    "tool_env \<Rightarrow> (string \<Rightarrow> string + 'a) \<Rightarrow> ('a \<Rightarrow> unit result) \<Rightarrow> (string \<Rightarrow> unit result) \<Rightarrow>
     string option \<Rightarrow> (string + resolved_bus_addr) run" where
  \<comment> \<open>the client is known by the address it is connected to\<close>
  "build_client env parse_socket connect_tcp connect_unix addr = do {
     r \<leftarrow> resolve_addr env addr;
     returns (case r of
         Inl e \<Rightarrow> Inl e
       | Inr (ResolvedTcp a) \<Rightarrow>
           (case parse_socket a of
              Inl e \<Rightarrow> Inl e
            | Inr sock \<Rightarrow>
                (case connect_tcp sock of
                   Inl e \<Rightarrow> Inl (error_from_bus e)
                 | Inr _ \<Rightarrow> Inr (ResolvedTcp a)))
       | Inr (ResolvedUnix a) \<Rightarrow>
           (case connect_unix a of
              Inl e \<Rightarrow> Inl (error_from_bus e)
            | Inr _ \<Rightarrow> Inr (ResolvedUnix a)))
   }"

definition publish_payload ::
    "(string \<Rightarrow> 'f option) \<Rightarrow> ('f \<Rightarrow> bytes option) \<Rightarrow> (string \<Rightarrow> bytes option) \<Rightarrow> topic \<Rightarrow> string \<Rightarrow>
     (string + bytes) run" where
  \<comment> \<open>the payload of \<open>Pub\<close>; parsing a \<open>String\<close> never fails\<close>
  "publish_payload parse_f32 write_f32 write_string t value =
     (let text = (\<lambda>r. case r of Inl e \<Rightarrow> Inl (error_from_bus e) | Inr d \<Rightarrow> Inr d) in
      if protocol t = F32_PREFIX
      then (case parse_f32 value of
              None \<Rightarrow> panic
            | Some x \<Rightarrow> returns (text (ser write_f32 x)))
      else returns (text (ser write_string value)))"

definition sub_line ::
    "(bytes \<Rightarrow> bytes option) \<Rightarrow> (bytes \<Rightarrow> 'f option) \<Rightarrow> (bytes \<Rightarrow> string option) \<Rightarrow> ('f \<Rightarrow> string) \<Rightarrow>
     (bytes \<Rightarrow> string) \<Rightarrow> pub_msg \<Rightarrow> (string + string) run" where
  \<comment> \<open>what \<open>Sub\<close> prints for one message\<close>
  "sub_line gz_dec read_f32 read_string show_f32 hex m = do {
     d \<leftarrow> payload_into_bytes gz_dec (pub_payload m);
     let prot = protocol (pub_topic m);
     let val_str =
       (if prot = F32_PREFIX
        then (case deser read_f32 d of Inl e \<Rightarrow> Inl (error_from_bus e) | Inr x \<Rightarrow> Inr (show_f32 x))
        else if prot = STRING_PREFIX
        then (case deser read_string d of Inl e \<Rightarrow> Inl (error_from_bus e) | Inr x \<Rightarrow> Inr x)
        else Inr (''0x'' @ hex d));
     returns (case val_str of
         Inl e \<Rightarrow> Inl e
       | Inr v \<Rightarrow> Inr (display_topic (pub_topic m) @ '': '' @ v))
   }"

section \<open>Running a command\<close>

text \<open>
  What the tool calls, as the answers it gets: the parsers and printers of the libraries,
  the sockets, how the tasks of a server end (\<open>tw_spawned\<close>), what the bus answers to a
  subscription and to a publication (\<open>None\<close> is a panic of the call), the messages that
  \<open>recv\<close> yields until the feed ends, whether a line can be printed (\<open>println!\<close> panics when
  it cannot), and what the system answers when the file of names is written.
\<close>

record ('a, 'f) tool_world =
  tw_parse_socket :: "string \<Rightarrow> string + 'a"
  tw_bind_tcp :: "'a \<Rightarrow> unit result"
  tw_bind_unix :: "string \<Rightarrow> unit result"
  tw_spawned :: "('a, string) server_task \<Rightarrow> basic_stopper"
  tw_connect_tcp :: "'a \<Rightarrow> unit result"
  tw_connect_unix :: "string \<Rightarrow> unit result"
  tw_subscribed :: "resolved_bus_addr \<Rightarrow> topic \<Rightarrow> unit result"
  tw_feed :: "resolved_bus_addr \<Rightarrow> topic \<Rightarrow> pub_msg list"
  tw_published :: "resolved_bus_addr \<Rightarrow> topic \<Rightarrow> bytes \<Rightarrow> nat result run"
  tw_parse_f32 :: "string \<Rightarrow> 'f option"
  tw_write_f32 :: "'f \<Rightarrow> bytes option"
  tw_read_f32 :: "bytes \<Rightarrow> 'f option"
  tw_show_f32 :: "'f \<Rightarrow> string"
  tw_write_string :: "string \<Rightarrow> bytes option"
  tw_read_string :: "bytes \<Rightarrow> string option"
  tw_hex :: "bytes \<Rightarrow> string"
  tw_gz_dec :: "bytes \<Rightarrow> bytes option"
  tw_println_ok :: "string \<Rightarrow> bool"
  tw_write_names :: "string \<Rightarrow> string + unit"

datatype 'a tool_effect =
    ServerStarted "('a, string) server_task list"
  | Printed string
  | Published resolved_bus_addr topic bytes
  | NamesWritten string

text \<open>What a command does, in order, and what \<open>run\<close> returns once it does.\<close>

type_synonym 'a tool_outcome = "'a tool_effect list \<times> (string + unit) run"

definition no_effect :: "(string + unit) run \<Rightarrow> 'a tool_outcome" where
  "no_effect r = ([], r)"

definition then_does :: "'a tool_effect \<Rightarrow> 'a tool_outcome \<Rightarrow> 'a tool_outcome" where
  "then_does x out = (x # fst out, snd out)"

definition on_ok :: "(string + 'b) run \<Rightarrow> ('b \<Rightarrow> 'a tool_outcome) \<Rightarrow> 'a tool_outcome" where
  \<comment> \<open>the operator \<open>?\<close>\<close>
  "on_ok m f =
     (case m of
        None \<Rightarrow> no_effect panic
      | Some (Inl e) \<Rightarrow> no_effect (returns (Inl e))
      | Some (Inr x) \<Rightarrow> f x)"

definition bus_answer :: "'b result \<Rightarrow> (string + 'b) run" where
  "bus_answer r = returns (case r of Inl e \<Rightarrow> Inl (error_from_bus e) | Inr x \<Rightarrow> Inr x)"

definition print_line :: "('a, 'f) tool_world \<Rightarrow> string \<Rightarrow> 'a tool_outcome \<Rightarrow> 'a tool_outcome" where
  \<comment> \<open>\<open>println!\<close>, and what comes after it\<close>
  "print_line w line out =
     (if tw_println_ok w line then then_does (Printed line) out else no_effect panic)"

fun sub_loop :: "('a, 'f) tool_world \<Rightarrow> pub_msg list \<Rightarrow> 'a tool_outcome" where
  \<comment> \<open>the loop of \<open>Sub\<close> over what \<open>recv\<close> yields\<close>
  "sub_loop w [] = no_effect (returns (Inr ()))"
| "sub_loop w (m # ms) =
     on_ok (sub_line (tw_gz_dec w) (tw_read_f32 w) (tw_read_string w) (tw_show_f32 w) (tw_hex w) m)
       (\<lambda>line. print_line w line (sub_loop w ms))"

fun ls_loop :: "('a, 'f) tool_world \<Rightarrow> topic set \<Rightarrow> pub_msg list \<Rightarrow> 'a tool_outcome" where
  \<comment> \<open>the loop of \<open>Ls\<close>, with the topics it has encountered\<close>
  "ls_loop w encountered [] = no_effect (returns (Inr ()))"
| "ls_loop w encountered (m # ms) =
     (if pub_topic m \<notin> encountered
      then print_line w (display_topic (pub_topic m)) (ls_loop w (insert (pub_topic m) encountered) ms)
      else ls_loop w encountered ms)"

definition write_names :: "('a, 'f) tool_world \<Rightarrow> string \<Rightarrow> 'a tool_outcome" where
  "write_names w s =
     (case tw_write_names w s of
        Inl e \<Rightarrow> no_effect (returns (Inl (error_from_io e)))
      | Inr _ \<Rightarrow> then_does (NamesWritten s) (no_effect (returns (Inr ()))))"

definition tool_client ::
    "tool_env \<Rightarrow> ('a, 'f) tool_world \<Rightarrow> string option \<Rightarrow> (string + resolved_bus_addr) run" where
  \<comment> \<open>\<open>build_client\<close> with the sockets of the world\<close>
  "tool_client env w addr =
     build_client env (tw_parse_socket w) (tw_connect_tcp w) (tw_connect_unix w) addr"

definition tool_run ::
    "tool_env \<Rightarrow> ('a, 'f) tool_world \<Rightarrow> tool_command \<Rightarrow> 'a tool_outcome" where
  "tool_run env w cmd =
     (case validate_command (tw_parse_f32 w) cmd of
        Inl e \<Rightarrow> no_effect (returns (Inl e))
      | Inr _ \<Rightarrow>
          (case cmd of
             CmdServe addrs \<Rightarrow>
               on_ok (serve_addrs env (tw_parse_socket w) addrs builder_new) (\<lambda>builder.
                 on_ok (bus_answer (build (tw_bind_tcp w) (tw_bind_unix w) builder)) (\<lambda>(tasks, _).
                   then_does (ServerStarted tasks)
                     (no_effect (bus_answer (multi_join (map (tw_spawned w) tasks))))))
           | CmdSub t addr \<Rightarrow>
               on_ok (tool_client env w addr) (\<lambda>client.
                 on_ok (bus_answer (tw_subscribed w client t)) (\<lambda>_.
                   sub_loop w (tw_feed w client t)))
           | CmdLs t addr \<Rightarrow>
               on_ok (tool_client env w addr) (\<lambda>client.
                 on_ok (bus_answer (tw_subscribed w client t)) (\<lambda>_.
                   ls_loop w {} (tw_feed w client t)))
           | CmdPub t value addr \<Rightarrow>
               on_ok (tool_client env w addr) (\<lambda>client.
                 on_ok (publish_payload (tw_parse_f32 w) (tw_write_f32 w) (tw_write_string w) t value)
                   (\<lambda>payload.
                     (case tw_published w client t payload of
                        None \<Rightarrow> no_effect panic
                      | Some r \<Rightarrow>
                          on_ok (bus_answer r) (\<lambda>_.
                            then_does (Published client t payload) (no_effect (returns (Inr ())))))))
           | CmdRegister name addr is_default \<Rightarrow>
               on_ok (register env name addr is_default) (write_names w)
           | CmdUnregister name \<Rightarrow>
               on_ok (unregister env name) (write_names w)))"

section \<open>The exit of the program\<close>

datatype exit =
    ExitSuccess
  | ExitFailure nat string \<comment> \<open>the code of the process and the line logged\<close>
  | Aborted \<comment> \<open>a panic of the main task\<close>

definition tool_main :: "(string + unit) run \<Rightarrow> exit" where
  \<comment> \<open>\<open>main\<close> on what \<open>run\<close> returns\<close>
  "tool_main r =
     (case r of
        None \<Rightarrow> Aborted
      | Some (Inl e) \<Rightarrow> ExitFailure 1 (display_tool_error e)
      | Some (Inr _) \<Rightarrow> ExitSuccess)"

end
