(* ===== verification/T2_Tool_Properties.thy ===== *)
theory T2_Tool_Properties
  imports T2_Tool
begin

text \<open>
  What the command line tool guarantees: when it panics, once its arguments have passed
  validation, and that the file it keeps its names in reads back as what was registered.
\<close>

section \<open>The address pattern\<close>

definition tool_laws :: "tool_env \<Rightarrow> bool" where
  \<comment> \<open>the documented behaviour of the regular expression crate\<close>
  "tool_laws env \<longleftrightarrow> (\<forall>r s. re_is_match env r s = rmatch r s) \<and>
     (\<forall>p s. re_captures env p s = first_captures p s) \<and>
     (\<forall>items s. re_captures_iter env items s = scan items s)"

definition one_line :: "string \<Rightarrow> bool" where
  "one_line s \<longleftrightarrow> CHR 0x0A \<notin> set s"

lemma whole_run: "length s \<le> length (takeWhile (in_class dot) s) \<longleftrightarrow> one_line s"
proof
  assume "length s \<le> length (takeWhile (in_class dot) s)"
  then have "takeWhile (in_class dot) s = s"
    by (metis length_takeWhile_le antisym takeWhile_eq_take take_all_iff)
  then show "one_line s"
    by (metis in_class_dot one_line_def set_takeWhileD)
qed (simp add: one_line_def takeWhile_dot_all)

definition addr_parts :: "string \<Rightarrow> string \<Rightarrow> string \<Rightarrow> bool" where
  "addr_parts s kind a \<longleftrightarrow> kind \<in> {''tcp'', ''unix'', ''name''} \<and> s = kind @ '':'' @ a \<and>
     a \<noteq> [] \<and> one_line a"

lemma addr_parts_unique: "addr_parts s kind a \<Longrightarrow> addr_parts s kind' a' \<Longrightarrow> kind' = kind \<and> a' = a"
  by (auto simp: addr_parts_def)

lemma addr_ways:
  "(cs, []) \<in> set (ways [Words [''tcp'', ''unix'', ''name''], Text '':'', Run dot 1 True] s) \<longleftrightarrow>
     (\<exists>kind a. cs = [kind, a] \<and> addr_parts s kind a)"
proof
  assume "(cs, []) \<in> set (ways [Words [''tcp'', ''unix'', ''name''], Text '':'', Run dot 1 True] s)"
  then obtain kind a k where "kind \<in> {''tcp'', ''unix'', ''name''}" "s = kind @ '':'' @ a"
    "1 \<le> k" "k \<le> length (takeWhile (in_class dot) a)" "drop k a = []" "cs = [kind, take k a]"
    unfolding ways_iff by auto
  then show "\<exists>kind a. cs = [kind, a] \<and> addr_parts s kind a"
    using whole_run [of a] by (auto simp: addr_parts_def intro!: exI [of _ kind])
next
  assume "\<exists>kind a. cs = [kind, a] \<and> addr_parts s kind a"
  then obtain kind a where r: "cs = [kind, a]" "addr_parts s kind a" by blast
  then show "(cs, []) \<in> set (ways [Words [''tcp'', ''unix'', ''name''], Text '':'', Run dot 1 True] s)"
    unfolding ways_iff using whole_run [of a]
    by (auto simp: addr_parts_def Suc_le_eq intro!: exI [of _ "length a"])
qed

lemma addr_captures:
  "first_captures BUS_ADDR_RGX s = Some cs \<longleftrightarrow> (\<exists>kind a. cs = [kind, a] \<and> addr_parts s kind a)"
proof -
  define W where "W = filter (\<lambda>w. snd w = [])
    (ways [Words [''tcp'', ''unix'', ''name''], Text '':'', Run dot 1 True] s)"
  have m: "w \<in> set W \<longleftrightarrow> snd w = [] \<and> (\<exists>kind a. fst w = [kind, a] \<and> addr_parts s kind a)" for w
    using addr_ways [of "fst w" s] unfolding W_def by (cases w) auto
  have c: "first_captures BUS_ADDR_RGX s = map_option fst (best W)"
    by (simp add: BUS_ADDR_RGX_def W_def del: ways.simps)
  have some: "\<exists>kind a. fst w = [kind, a] \<and> addr_parts s kind a" if "best W = Some w" for w
    using m best_Some [OF that] by blast
  show ?thesis
  proof
    assume "first_captures BUS_ADDR_RGX s = Some cs"
    then show "\<exists>kind a. cs = [kind, a] \<and> addr_parts s kind a" using some c by auto
  next
    assume "\<exists>kind a. cs = [kind, a] \<and> addr_parts s kind a"
    then obtain kind a where p: "cs = [kind, a]" "addr_parts s kind a" by blast
    then have "W \<noteq> []" using m [of "(cs, [])"] by auto
    then obtain w where w: "best W = Some w" by (cases "best W") (auto simp: best_None)
    with some obtain kind' a' where "fst w = [kind', a']" "addr_parts s kind' a'" by blast
    then have "fst w = cs" using p addr_parts_unique by blast
    then show "first_captures BUS_ADDR_RGX s = Some cs" by (simp add: c w)
  qed
qed

lemma addr_captures_exist:
  "first_captures BUS_ADDR_RGX s \<noteq> None \<longleftrightarrow> (\<exists>kind a. addr_parts s kind a)"
  using addr_captures [of s] by blast

lemma validate_bus_addr_Inr:
  "tool_laws env \<Longrightarrow> validate_bus_addr env s = Inr t \<longleftrightarrow> t = s \<and> (\<exists>kind a. addr_parts s kind a)"
  unfolding addr_captures_exist [symmetric] validate_bus_addr_def tool_laws_def
  by (cases "first_captures BUS_ADDR_RGX s") auto

lemma resolve_addr_parts:
  assumes "tool_laws env" and "addr_parts s kind a"
  shows "resolve_addr env (Some s) =
    (if kind = ''tcp'' then returns (Inr (ResolvedTcp a))
     else if kind = ''unix'' then returns (Inr (ResolvedUnix a))
     else map_option (\<lambda>config. case List.find (\<lambda>(name, _). name = a) config of
         Some (_, r) \<Rightarrow> Inr r | None \<Rightarrow> Inl (''Name is not registered: '' @ a)) (parse_config env))"
proof -
  have "re_captures env BUS_ADDR_RGX s = Some [kind, a]"
    using assms addr_captures [of s] by (auto simp: tool_laws_def)
  then show ?thesis
    using assms(2) by (auto simp: resolve_addr_def addr_parts_def map_option_case split: Option.bind_splits option.split)
qed

section \<open>The file reads back as it was written\<close>

abbreviation (input) newline :: char where
  "newline \<equiv> CHR 0x0A"

definition config_tail :: "item list" where
  "config_tail = [Text '' '', Words [''tcp'', ''unix''], Text '':'', Run dot 0 False, Text [newline]]"

definition sep_at :: "string \<Rightarrow> bool" where
  "sep_at s \<longleftrightarrow> prefix '' tcp:'' s \<or> prefix '' unix:'' s"

definition entry_ok :: "string \<times> resolved_bus_addr \<Rightarrow> bool" where
  \<comment> \<open>a name without blanks, and nothing with a line break\<close>
  "entry_ok x \<longleftrightarrow> fst x \<noteq> [] \<and> one_line (fst x) \<and> CHR '' '' \<notin> set (fst x) \<and>
     one_line (case snd x of ResolvedTcp a \<Rightarrow> a | ResolvedUnix a \<Rightarrow> a)"

lemma lazy_line:
  assumes "one_line a"
  shows "ways [Run dot 0 False, Text [newline]] (a @ newline # rest) = [([a], rest)]"
proof -
  let ?s = "a @ newline # rest"
  let ?f = "\<lambda>k. map (\<lambda>(cs, r). (take k ?s # cs, r)) (ways [Text [newline]] (drop k ?s))"
  have n: "\<not> prefix [newline] (drop k ?s)" if "k < length a" for k
  proof -
    have "a ! k \<noteq> newline" using that assms nth_mem unfolding one_line_def by metis
    moreover have "drop k ?s = a ! k # drop (Suc k) a @ newline # rest"
      using that by (simp add: Cons_nth_drop_Suc)
    ultimately show ?thesis by simp
  qed
  have "run_lengths dot 0 False ?s = [0..<length a] @ [length a]"
    using takeWhile_dot [of a rest] assms by (simp add: run_lengths_def one_line_def)
  then have "ways [Run dot 0 False, Text [newline]] ?s = concat (map ?f [0..<length a]) @ ?f (length a)"
    by simp
  moreover have "concat (map ?f [0..<length a]) = []" using n by simp
  ultimately show ?thesis by simp
qed

lemma tail_match:
  assumes "one_line a" and "kind \<in> {''tcp'', ''unix''}"
  shows "ways config_tail ('' '' @ kind @ '':'' @ a @ newline # rest) = [([kind, a], rest)]"
proof -
  note l = lazy_line [OF assms(1), of rest]
  have "ways config_tail ('' '' @ kind @ '':'' @ a @ newline # rest) =
      map (\<lambda>(cs, r). (kind # cs, r)) (ways [Run dot 0 False, Text [newline]] (a @ newline # rest))"
    using assms(2) by (auto simp: config_tail_def simp del: ways.simps(4))
  then show ?thesis by (simp only: l) simp
qed

lemma tail_no_match: "ways config_tail s \<noteq> [] \<Longrightarrow> \<exists>t. s = CHR '' '' # t"
  by (auto simp: config_tail_def prefix_def simp del: ways.simps(3,4) split: if_splits)

lemma entry_first:
  assumes "n \<noteq> []" and "one_line n" and "CHR '' '' \<notin> set n" and "one_line a"
    and "kind \<in> {''tcp'', ''unix''}"
  shows "find_first BUS_ADDR_CONFIG_RGX (n @ '' '' @ kind @ '':'' @ a @ newline # rest) =
    Some ([n, kind, a], rest)"
proof -
  let ?line = "n @ '' '' @ kind @ '':'' @ a"
  let ?s = "n @ '' '' @ kind @ '':'' @ a @ newline # rest"
  let ?f = "\<lambda>k. map (\<lambda>(cs, r). (take k ?s # cs, r)) (ways config_tail (drop k ?s))"
  have "one_line ?line" using assms by (auto simp: one_line_def)
  then have t: "takeWhile (in_class dot) ?s = ?line"
    using takeWhile_dot [of ?line rest] by (simp add: one_line_def)
  have "1 \<le> length n" using assms(1) by (cases n) auto
  then have u: "[1..<Suc (length ?line)] = [1..<length n] @ length n # [Suc (length n)..<Suc (length ?line)]"
    by (metis (no_types, lifting) le_SucI le_add1 length_append less_Suc_eq_le upt_add_eq_append
        upt_conv_Cons le_Suc_ex)
  have "run_lengths dot 1 False ?s = [1..<length n] @ length n # [Suc (length n)..<Suc (length ?line)]"
    unfolding run_lengths_def Let_def t u by simp
  then have w: "ways BUS_ADDR_CONFIG_RGX ?s =
      concat (map ?f ([1..<length n] @ length n # [Suc (length n)..<Suc (length ?line)]))"
    unfolding BUS_ADDR_CONFIG_RGX_def config_tail_def [symmetric] by simp
  have z: "\<forall>k \<in> set [1..<length n]. ?f k = []"
  proof
    fix k
    assume that: "k \<in> set [1..<length n]"
    have "n ! k \<in> set n" using that by simp
    then have "n ! k \<noteq> CHR '' ''" using assms(3) by metis
    then have "\<nexists>t. drop k ?s = CHR '' '' # t"
      using that by (auto simp: Cons_nth_drop_Suc [symmetric])
    then show "?f k = []" using tail_no_match [of "drop k ?s"] by auto
  qed
  have f: "?f (length n) = [([n, kind, a], rest)]"
    using tail_match [OF assms(4,5), of rest] by simp
  have "best (ways BUS_ADDR_CONFIG_RGX ?s) = best (?f (length n))"
    unfolding w by (rule best_concat_map [OF z]) (simp only: f, simp)
  then have "best (ways BUS_ADDR_CONFIG_RGX ?s) = Some ([n, kind, a], rest)"
    unfolding f by (simp only: best_def list.case)
  then show ?thesis using assms(1) by (cases n) (simp_all del: ways.simps add: BUS_ADDR_CONFIG_RGX_def)
qed

fun groups_of :: "string \<times> resolved_bus_addr \<Rightarrow> string list" where
  "groups_of (n, ResolvedTcp a) = [n, ''tcp'', a]"
| "groups_of (n, ResolvedUnix a) = [n, ''unix'', a]"

lemma entry_text:
  obtains kind a where "groups_of x = [fst x, kind, a]" "kind \<in> {''tcp'', ''unix''}"
    "print_config (x # config) = fst x @ '' '' @ kind @ '':'' @ a @ newline # print_config config"
    "entry_ok x \<longrightarrow> one_line a"
proof (cases x)
  case (Pair n r)
  then show thesis
    by (cases r) (auto simp: print_config_def entry_ok_def intro: that [of "''tcp''"] that [of "''unix''"])
qed

lemma scan_print:
  "\<forall>x \<in> set config. entry_ok x \<Longrightarrow>
   scan BUS_ADDR_CONFIG_RGX (print_config config) = map groups_of config"
proof (induction config)
  case Nil
  then show ?case
    by (simp add: scan.simps print_config_def BUS_ADDR_CONFIG_RGX_def run_lengths_def best_def)
next
  case (Cons x config)
  obtain kind a where x: "groups_of x = [fst x, kind, a]" "kind \<in> {''tcp'', ''unix''}"
    "print_config (x # config) = fst x @ '' '' @ kind @ '':'' @ a @ newline # print_config config"
    "entry_ok x \<longrightarrow> one_line a"
    by (rule entry_text [of x config])
  have "find_first BUS_ADDR_CONFIG_RGX (print_config (x # config)) = Some (groups_of x, print_config config)"
    unfolding x(1,3) by (rule entry_first) (use Cons.prems x in \<open>auto simp: entry_ok_def\<close>)
  moreover have "length (print_config config) < length (print_config (x # config))"
    unfolding x(3) by simp
  ultimately show ?case
    using Cons by (simp add: scan.simps [of BUS_ADDR_CONFIG_RGX "print_config (x # config)"])
qed

lemma parse_groups: "those (map parse_entry (map groups_of config)) = Some config"
proof (induction config)
  case (Cons x config)
  obtain n r where "x = (n, r)" by fastforce
  then show ?case using Cons by (cases r) simp_all
qed simp

definition file_holds :: "(string \<times> resolved_bus_addr) list \<Rightarrow> tool_env \<Rightarrow> bool" where
  \<comment> \<open>the file, if there is one, is as the tool leaves it\<close>
  "file_holds config env \<longleftrightarrow> home env \<noteq> None \<and> (\<forall>x \<in> set config. entry_ok x) \<and>
     (config_file env = Contents (print_config config) \<or> config_file env = Missing \<and> config = [])"

lemma parse_config_holds:
  "tool_laws env \<Longrightarrow> file_holds config env \<Longrightarrow> parse_config env = returns config"
  using scan_print [of config] parse_groups [of config]
  by (auto simp: parse_config_def file_holds_def tool_laws_def)

lemma parse_config_total:
  assumes "tool_laws env" and "config_file env \<noteq> Unreadable"
  shows "parse_config env \<noteq> panic"
proof -
  have "parse_entry cs \<noteq> panic" if c: "cs \<in> set (scan BUS_ADDR_CONFIG_RGX s)" for cs s
  proof -
    obtain t r where "(cs, r) \<in> set (ways BUS_ADDR_CONFIG_RGX t)" using scan_ways [OF c] by blast
    then obtain n kind a where "cs = [n, kind, a]" "kind \<in> {''tcp'', ''unix''}"
      unfolding BUS_ADDR_CONFIG_RGX_def ways_iff by (auto simp del: ways.simps(4))
    then show ?thesis by auto
  qed
  then have "those (map parse_entry xs) \<noteq> panic" if "set xs \<subseteq> set (scan BUS_ADDR_CONFIG_RGX s)" for xs s
    using that by (induction xs) (fastforce simp: option.case_eq_if)+
  then show ?thesis
    using assms by (auto simp: parse_config_def tool_laws_def split: option.splits config_file.splits)
qed

section \<open>No panic\<close>

definition valid_addr :: "tool_env \<Rightarrow> string option \<Rightarrow> bool" where
  "valid_addr env addr \<longleftrightarrow> (case addr of None \<Rightarrow> True | Some a \<Rightarrow> validate_bus_addr env a = Inr a)"

fun valid_command :: "tool_env \<Rightarrow> tool_command \<Rightarrow> bool" where
  \<comment> \<open>what the declared value parsers have accepted\<close>
  "valid_command env (CmdServe addrs) \<longleftrightarrow> (\<forall>a \<in> set addrs. valid_addr env (Some a))"
| "valid_command env (CmdSub t addr) \<longleftrightarrow> valid_addr env addr"
| "valid_command env (CmdPub t value addr) \<longleftrightarrow> valid_addr env addr"
| "valid_command env (CmdLs t addr) \<longleftrightarrow> valid_addr env addr"
| "valid_command env (CmdRegister name addr is_default) \<longleftrightarrow>
     validate_bus_addr_name env name = Inr name \<and> valid_addr env (Some addr)"
| "valid_command env (CmdUnregister name) \<longleftrightarrow> validate_bus_addr_name env name = Inr name"

definition names_unreadable :: "tool_env \<Rightarrow> bool" where
  \<comment> \<open>there is a file of names, and it cannot be read as text\<close>
  "names_unreadable env \<longleftrightarrow> home env \<noteq> None \<and> config_file env = Unreadable"

fun uses_names :: "string option \<Rightarrow> bool" where
  \<comment> \<open>the address is a name, or the default\<close>
  "uses_names None \<longleftrightarrow> True"
| "uses_names (Some s) \<longleftrightarrow> take 5 s = ''name:''"

lemma parse_config_panic: "tool_laws env \<Longrightarrow> parse_config env = panic \<longleftrightarrow> names_unreadable env"
  using parse_config_total [of env]
  by (cases "home env"; cases "config_file env") (auto simp: names_unreadable_def parse_config_def)

lemma resolve_addr_panic:
  assumes "tool_laws env" and "valid_addr env addr"
  shows "resolve_addr env addr = panic \<longleftrightarrow> names_unreadable env \<and> uses_names addr"
proof (cases addr)
  case None
  then show ?thesis
    using parse_config_panic [OF assms(1)] by (simp add: resolve_addr_def bind_run_eq_panic)
next
  case (Some s)
  then obtain kind a where k: "addr_parts s kind a"
    using assms by (auto simp: valid_addr_def validate_bus_addr_Inr)
  then have "uses_names addr \<longleftrightarrow> kind = ''name''" "kind \<in> {''tcp'', ''unix'', ''name''}"
    using Some by (auto simp: addr_parts_def)
  then show ?thesis
    unfolding Some resolve_addr_parts [OF assms(1) k] using parse_config_panic [OF assms(1)] by auto
qed

lemma on_ok_panic:
  "snd (on_ok m f) = panic \<longleftrightarrow> m = panic \<or> (\<exists>x. m = returns (Inr x) \<and> snd (f x) = panic)"
  by (auto simp: on_ok_def no_effect_def split: option.split sum.split)

lemma outcome_simps [simp]:
  "snd (no_effect r) = r" "snd (then_does x out) = snd out"
  "bus_answer q = returns (Inr y) \<longleftrightarrow> q = Inr y" "bus_answer q \<noteq> panic"
  "snd (write_names w s) \<noteq> panic"
  by (simp_all add: no_effect_def then_does_def bus_answer_def write_names_def split: sum.split)

lemma serve_addrs_panic:
  assumes "tool_laws env" and "\<forall>a \<in> set addrs. valid_addr env (Some a)"
  shows "serve_addrs env parse_socket addrs builder = panic \<longleftrightarrow> names_unreadable env \<and>
    (\<exists>xs s ys b. addrs = xs @ s # ys \<and> uses_names (Some s) \<and>
       serve_addrs env parse_socket xs builder = returns (Inr b))"
  using assms(2)
proof (induction addrs arbitrary: builder)
  case (Cons addr addrs)
  let ?next = "\<lambda>r. case r of ResolvedTcp a \<Rightarrow> map_sum id (\<lambda>k. serve_tcp k builder) (parse_socket a)
    | ResolvedUnix a \<Rightarrow> Inr (serve_unix_socket a builder)"
  have step: "serve_addrs env parse_socket (addr # xs) builder =
      Option.bind (resolve_addr env (Some addr)) (\<lambda>r. case r of Inl e \<Rightarrow> returns (Inl e)
        | Inr a \<Rightarrow> (case ?next a of Inl e \<Rightarrow> returns (Inl e) | Inr b \<Rightarrow> serve_addrs env parse_socket xs b))" for xs
    by (cases "resolve_addr env (Some addr)") (auto split: sum.split resolved_bus_addr.split)
  have first: "resolve_addr env (Some addr) = panic \<longleftrightarrow> names_unreadable env \<and> uses_names (Some addr)"
    using resolve_addr_panic [OF assms(1), of "Some addr"] Cons.prems by simp
  have IH: "serve_addrs env parse_socket addrs b = panic \<longleftrightarrow> names_unreadable env \<and>
      (\<exists>xs s ys b'. addrs = xs @ s # ys \<and> uses_names (Some s) \<and>
         serve_addrs env parse_socket xs b = returns (Inr b'))" for b
    using Cons by simp
  have split: "(\<exists>xs s ys b. addr # addrs = xs @ s # ys \<and> uses_names (Some s) \<and>
      serve_addrs env parse_socket xs builder = returns (Inr b)) \<longleftrightarrow>
    uses_names (Some addr) \<or> (\<exists>xs s ys b. addrs = xs @ s # ys \<and> uses_names (Some s) \<and>
      serve_addrs env parse_socket (addr # xs) builder = returns (Inr b))" (is "?L \<longleftrightarrow> ?R")
  proof
    assume ?L
    then obtain xs s ys b where x: "addr # addrs = xs @ s # ys" "uses_names (Some s)"
      "serve_addrs env parse_socket xs builder = returns (Inr b)" by blast
    then show ?R by (cases xs) auto
  next
    assume ?R
    then show ?L
    proof
      assume "uses_names (Some addr)"
      then show ?L by (metis append_Nil serve_addrs.simps(1))
    next
      assume "\<exists>xs s ys b. addrs = xs @ s # ys \<and> uses_names (Some s) \<and>
        serve_addrs env parse_socket (addr # xs) builder = returns (Inr b)"
      then show ?L by (metis append_Cons)
    qed
  qed
  show ?case
  proof (cases "resolve_addr env (Some addr)")
    case None
    then show ?thesis using first unfolding split step by simp
  next
    case (Some r)
    show ?thesis
    proof (cases r)
      case (Inr a)
      then show ?thesis using Some first IH unfolding split step by (cases "?next a") auto
    next
      case (Inl e)
      then show ?thesis using Some first unfolding split step by auto
    qed
  qed
qed simp

section \<open>The loops\<close>

definition shown :: "('a, 'f) tool_world \<Rightarrow> pub_msg \<Rightarrow> (string + string) run" where
  \<comment> \<open>the line of a message\<close>
  "shown w m = sub_line (tw_gz_dec w) (tw_read_f32 w) (tw_read_string w) (tw_show_f32 w) (tw_hex w) m"

definition sub_prints :: "('a, 'f) tool_world \<Rightarrow> pub_msg \<Rightarrow> bool" where
  "sub_prints w m \<longleftrightarrow> (\<exists>line. shown w m = returns (Inr line) \<and> tw_println_ok w line)"

definition sub_panics :: "('a, 'f) tool_world \<Rightarrow> pub_msg \<Rightarrow> bool" where
  "sub_panics w m \<longleftrightarrow> payload_into_bytes (tw_gz_dec w) (pub_payload m) = panic \<or>
     (\<exists>line. shown w m = returns (Inr line) \<and> \<not> tw_println_ok w line)"

lemma shown_panic: "shown w m = panic \<longleftrightarrow> payload_into_bytes (tw_gz_dec w) (pub_payload m) = panic"
  by (simp add: shown_def sub_line_def bind_run_eq_panic Let_def)

lemma sub_loop_step:
  "snd (sub_loop w (m # ms)) = panic \<longleftrightarrow> sub_panics w m \<or> sub_prints w m \<and> snd (sub_loop w ms) = panic"
  unfolding sub_loop.simps on_ok_panic shown_def [symmetric] shown_panic
  by (auto simp: print_line_def sub_panics_def sub_prints_def)

lemma sub_loop_panic:
  "snd (sub_loop w ms) = panic \<longleftrightarrow>
   (\<exists>xs m ys. ms = xs @ m # ys \<and> (\<forall>x \<in> set xs. sub_prints w x) \<and> sub_panics w m)"
proof (induction ms)
  case (Cons m ms)
  have "(\<exists>xs y ys. m # ms = xs @ y # ys \<and> (\<forall>x \<in> set xs. sub_prints w x) \<and> sub_panics w y) \<longleftrightarrow>
      sub_panics w m \<or> sub_prints w m \<and>
      (\<exists>xs y ys. ms = xs @ y # ys \<and> (\<forall>x \<in> set xs. sub_prints w x) \<and> sub_panics w y)" (is "?L \<longleftrightarrow> ?R")
  proof
    assume ?L
    then obtain xs y ys where "m # ms = xs @ y # ys" "\<forall>x \<in> set xs. sub_prints w x" "sub_panics w y" by blast
    then show ?R by (cases xs) auto
  next
    assume ?R
    then show ?L
    proof (elim disjE conjE exE)
      assume "sub_panics w m"
      then show ?L by (metis append_Nil empty_iff list.set(1))
    next
      fix xs y ys assume "sub_prints w m" "ms = xs @ y # ys" "\<forall>x \<in> set xs. sub_prints w x" "sub_panics w y"
      then show ?L by (intro exI [of _ "m # xs"] exI [of _ y] exI [of _ ys]) simp
    qed
  qed
  then show ?case unfolding sub_loop_step Cons.IH by simp
qed simp

lemma ls_loop_panic:
  "snd (ls_loop w seen ms) = panic \<longleftrightarrow>
   (\<exists>m \<in> set ms. pub_topic m \<notin> seen \<and> \<not> tw_println_ok w (display_topic (pub_topic m)))"
proof (induction ms arbitrary: seen)
  case (Cons m ms)
  then show ?case
    by (cases "tw_println_ok w (display_topic (pub_topic m))") (auto simp: print_line_def, metis)
qed simp

section \<open>When commands panic\<close>

lemma tool_client_panic:
  "tool_laws env \<Longrightarrow> valid_addr env addr \<Longrightarrow>
   tool_client env w addr = panic \<longleftrightarrow> names_unreadable env \<and> uses_names addr"
  using resolve_addr_panic by (simp add: tool_client_def build_client_def bind_run_eq_panic)

lemma config_commands_panic:
  assumes "tool_laws env"
  shows "unregister env name = panic \<longleftrightarrow> names_unreadable env"
    and "valid_addr env (Some addr) \<Longrightarrow> register env name addr b = panic \<longleftrightarrow> names_unreadable env"
proof -
  note config = parse_config_panic [OF assms]
  show "unregister env name = panic \<longleftrightarrow> names_unreadable env"
    using config by (cases "home env") (auto simp: unregister_def bind_run_eq_panic names_unreadable_def)
  assume "valid_addr env (Some addr)"
  note r = resolve_addr_panic [OF assms this]
  obtain kind a where k: "addr_parts addr kind a"
    using \<open>valid_addr env (Some addr)\<close> assms by (auto simp: valid_addr_def validate_bus_addr_Inr)
  show "register env name addr b = panic \<longleftrightarrow> names_unreadable env"
  proof (cases "names_unreadable env")
    case True
    then have "resolve_addr env (Some addr) = panic \<or> (\<exists>x. resolve_addr env (Some addr) = returns (Inr x))"
      using config k by (auto simp: resolve_addr_parts [OF assms k])
    then show ?thesis using True config by (auto simp: register_def names_unreadable_def)
  next
    case False
    then show ?thesis using r config
      by (auto simp: register_def bind_run_eq_panic Let_def split: option.split sum.split)
  qed
qed

lemma publish_payload_runs:
  "validate_command parse_f32 (CmdPub t v addr) = Inr u \<Longrightarrow>
   publish_payload parse_f32 write_f32 write_string t v \<noteq> panic"
  by (auto simp: publish_payload_def validate_command_def Let_def split: if_splits)

text \<open>
  C38: when a command whose arguments passed the declared validation panics, exactly. It
  does when it needs the file of names and that is not readable as text; \<open>Sub\<close> does on a
  message whose compressed payload cannot be unpacked; \<open>Sub\<close> and \<open>Ls\<close> do when a line cannot
  be printed; \<open>Pub\<close> does when publishing does. Nothing else makes the tool panic: the other
  \<open>unwrap\<close> calls are covered by checks made before them.
\<close>

theorem valid_commands_panic_exactly:
  assumes "tool_laws env" and "valid_command env cmd"
  shows "snd (tool_run env w cmd) = panic \<longleftrightarrow>
    (case cmd of
       CmdServe addrs \<Rightarrow> names_unreadable env \<and>
         (\<exists>xs s ys b. addrs = xs @ s # ys \<and> uses_names (Some s) \<and>
            serve_addrs env (tw_parse_socket w) xs builder_new = returns (Inr b))
     | CmdSub t addr \<Rightarrow> names_unreadable env \<and> uses_names addr \<or>
         (\<exists>c xs m ys. tool_client env w addr = returns (Inr c) \<and> tw_subscribed w c t = Inr () \<and>
            tw_feed w c t = xs @ m # ys \<and> (\<forall>x \<in> set xs. sub_prints w x) \<and> sub_panics w m)
     | CmdLs t addr \<Rightarrow> names_unreadable env \<and> uses_names addr \<or>
         (\<exists>c. tool_client env w addr = returns (Inr c) \<and> tw_subscribed w c t = Inr () \<and>
            (\<exists>m \<in> set (tw_feed w c t). \<not> tw_println_ok w (display_topic (pub_topic m))))
     | CmdPub t v addr \<Rightarrow> validate_command (tw_parse_f32 w) cmd = Inr () \<and>
         (names_unreadable env \<and> uses_names addr \<or>
          (\<exists>c d. tool_client env w addr = returns (Inr c) \<and>
             publish_payload (tw_parse_f32 w) (tw_write_f32 w) (tw_write_string w) t v = returns (Inr d) \<and>
             tw_published w c t d = panic))
     | CmdRegister name addr is_default \<Rightarrow> names_unreadable env
     | CmdUnregister name \<Rightarrow> names_unreadable env)"
proof (cases cmd)
  case (CmdServe addrs)
  then show ?thesis
    using assms(2) serve_addrs_panic [OF assms(1), of addrs]
    by (simp add: tool_run_def validate_command_def on_ok_panic case_prod_unfold)
next
  case (CmdSub t addr)
  then show ?thesis
    using assms(2) by (simp add: tool_run_def validate_command_def on_ok_panic tool_client_panic [OF assms(1)]
        sub_loop_panic)
next
  case (CmdPub t v addr)
  then show ?thesis
    using assms(2) publish_payload_runs [of "tw_parse_f32 w" t v addr "()" "tw_write_f32 w" "tw_write_string w"]
    by (cases "validate_command (tw_parse_f32 w) cmd")
       (auto simp: tool_run_def on_ok_panic tool_client_panic [OF assms(1)] split: option.split)
next
  case (CmdLs t addr)
  then show ?thesis
    using assms(2) by (simp add: tool_run_def validate_command_def on_ok_panic tool_client_panic [OF assms(1)]
        ls_loop_panic)
next
  case (CmdRegister name addr d)
  then show ?thesis
    using assms(2) by (simp add: tool_run_def validate_command_def on_ok_panic config_commands_panic [OF assms(1)])
next
  case (CmdUnregister name)
  then show ?thesis
    using assms(2) by (simp add: tool_run_def validate_command_def on_ok_panic config_commands_panic [OF assms(1)])
qed

definition demo_env :: tool_env where
  "demo_env = \<lparr>re_is_match = deriv_match, re_captures = first_captures, re_captures_iter = scan,
     home = Some ''/home/u'', config_file = Missing\<rparr>"

lemma demo_env_laws: "tool_laws demo_env"
  by (simp add: tool_laws_def demo_env_def deriv_match_iff)

lemma demo_parts: "addr_parts ''tcp:h:1'' ''tcp'' ''h:1''"
  by (simp add: addr_parts_def one_line_def)

lemma demo_addr: "validate_bus_addr demo_env ''tcp:h:1'' = Inr ''tcp:h:1''"
  using validate_bus_addr_Inr [OF demo_env_laws] demo_parts by blast

definition demo_world :: "pub_msg list \<Rightarrow> (nat, nat) tool_world" where
  \<comment> \<open>every call succeeds; unpacking never does\<close>
  "demo_world ms =
     \<lparr>tw_parse_socket = \<lambda>_. Inr 0, tw_bind_tcp = \<lambda>_. Inr (), tw_bind_unix = \<lambda>_. Inr (),
      tw_spawned = \<lambda>_. \<lparr>stop_listened = True, join_handle = Joined (Inr ())\<rparr>,
      tw_connect_tcp = \<lambda>_. Inr (), tw_connect_unix = \<lambda>_. Inr (),
      tw_subscribed = \<lambda>_ _. Inr (), tw_feed = \<lambda>_ _. ms, tw_published = \<lambda>_ _ _. Some (Inr 0),
      tw_parse_f32 = \<lambda>_. None, tw_write_f32 = \<lambda>_. Some [], tw_read_f32 = \<lambda>_. None, tw_show_f32 = \<lambda>_. [],
      tw_write_string = \<lambda>_. Some [], tw_read_string = \<lambda>_. Some ''x'', tw_hex = \<lambda>_. [],
      tw_gz_dec = \<lambda>_. None, tw_println_ok = \<lambda>_. True, tw_write_names = \<lambda>_. Inr ()\<rparr>"

definition demo_string :: topic where
  "demo_string = \<lparr>protocol = ''string'', path_of = Path ''a''\<rparr>"

definition demo_news :: "bool \<Rightarrow> pub_msg" where
  "demo_news packed = \<lparr>pub_topic = demo_string, pub_payload = \<lparr>data = [1], is_compressed = packed\<rparr>\<rparr>"

text \<open>
  A message that cannot be unpacked ends \<open>Sub\<close>, after the line of the message before it; a
  file of names that is not text ends \<open>Unregister\<close>.
\<close>

theorem valid_commands_panic_exactly_witness:
  "snd (tool_run demo_env (demo_world [demo_news False, demo_news True]) (CmdSub demo_string (Some ''tcp:h:1''))) = panic \<and>
   snd (tool_run demo_env (demo_world [demo_news False]) (CmdSub demo_string (Some ''tcp:h:1''))) \<noteq> panic \<and>
   snd (tool_run (demo_env\<lparr>config_file := Unreadable\<rparr>) (demo_world []) (CmdUnregister ''b'')) = panic"
proof -
  let ?w = "demo_world [demo_news False, demo_news True]" and ?cmd = "CmdSub demo_string (Some ''tcp:h:1'')"
  have valid: "valid_command demo_env ?cmd" by (simp add: valid_addr_def demo_addr)
  have client: "tool_client demo_env (demo_world ms) (Some ''tcp:h:1'') = returns (Inr (ResolvedTcp ''h:1''))" for ms
    by (simp add: tool_client_def build_client_def resolve_addr_parts [OF demo_env_laws demo_parts] demo_world_def)
  have first: "sub_prints (demo_world ms) (demo_news False)" "\<not> sub_panics (demo_world ms) (demo_news False)"
    "sub_panics (demo_world ms) (demo_news True)" for ms
    by (simp_all add: sub_prints_def sub_panics_def shown_def sub_line_def payload_into_bytes_def demo_world_def
        demo_news_def demo_string_def F32_PREFIX_def STRING_PREFIX_def deser_def)
  have feed: "tw_feed (demo_world ms) = (\<lambda>_ _. ms)" "tw_subscribed (demo_world ms) = (\<lambda>_ _. Inr ())" for ms
    by (simp_all add: demo_world_def)
  have "\<exists>xs m ys. [demo_news False, demo_news True] = xs @ m # ys \<and> (\<forall>x \<in> set xs. sub_prints ?w x) \<and> sub_panics ?w m"
    by (rule exI [of _ "[demo_news False]"]) (use first in simp)
  then have "snd (tool_run demo_env ?w ?cmd) = panic"
    using valid_commands_panic_exactly [OF demo_env_laws valid, of ?w] client feed by simp
  moreover have "snd (tool_run demo_env (demo_world [demo_news False]) ?cmd) \<noteq> panic"
  proof -
    have "\<not> names_unreadable demo_env" by (simp add: names_unreadable_def demo_env_def)
    then show ?thesis
      using valid_commands_panic_exactly [OF demo_env_laws valid, of "demo_world [demo_news False]"] client feed first
      by (auto simp: Cons_eq_append_conv)
  qed
  moreover have "snd (tool_run (demo_env\<lparr>config_file := Unreadable\<rparr>) (demo_world []) (CmdUnregister ''b'')) = panic"
  proof -
    have laws: "tool_laws (demo_env\<lparr>config_file := Unreadable\<rparr>)" using demo_env_laws by (simp add: tool_laws_def)
    have "valid_command (demo_env\<lparr>config_file := Unreadable\<rparr>) (CmdUnregister ''b'')"
      by (simp add: validate_bus_addr_name_def demo_env_def deriv_match_iff BUS_ADDR_NAME_RGX_def rmatch_Plus_Cls)
    from valid_commands_panic_exactly [OF laws this, of "demo_world []"]
    show ?thesis by (simp add: names_unreadable_def demo_env_def)
  qed
  ultimately show ?thesis by blast
qed

section \<open>Registered names\<close>

lemma valid_name:
  assumes "tool_laws env" and "validate_bus_addr_name env n = Inr n'"
  shows "n' = n" "n \<noteq> []" "one_line n" "CHR '' '' \<notin> set n"
proof -
  have r: "rmatch BUS_ADDR_NAME_RGX n" and n: "n' = n"
    using assms by (auto simp: validate_bus_addr_name_def tool_laws_def split: bool.splits)
  then show "n' = n" "n \<noteq> []" "one_line n" "CHR '' '' \<notin> set n"
    unfolding BUS_ADDR_NAME_RGX_def rmatch_Plus_Cls one_line_def by (auto dest!: bspec)
qed

lemma find_name:
  "List.find (\<lambda>(n, _). n = a) (filter (\<lambda>(n, _). n \<noteq> b) config) =
     (if a = b then None else List.find (\<lambda>(n, _). n = a) config)"
  by (induction config) auto

lemma find_app:
  "List.find P (xs @ ys) = (case List.find P xs of None \<Rightarrow> List.find P ys | Some x \<Rightarrow> Some x)"
  by (induction xs) auto

lemma resolve_name:
  assumes "tool_laws env" and "file_holds config env" and "a \<noteq> []" and "one_line a"
  shows "resolve_addr env (Some (''name:'' @ a)) =
    returns (case List.find (\<lambda>(name, _). name = a) config of
      Some (_, r) \<Rightarrow> Inr r | None \<Rightarrow> Inl (''Name is not registered: '' @ a))"
  using resolve_addr_parts [OF assms(1), of "''name:'' @ a" "''name''" a] assms
  by (simp add: addr_parts_def parse_config_holds)

lemma resolved_ok:
  assumes "tool_laws env" and "file_holds config env" and "resolve_addr env (Some s) = returns (Inr r)"
    and "addr_parts s kind a"
  shows "one_line (case r of ResolvedTcp a \<Rightarrow> a | ResolvedUnix a \<Rightarrow> a)"
proof -
  note p = resolve_addr_parts [OF assms(1,4)] parse_config_holds [OF assms(1,2)]
  consider "r = ResolvedTcp a" | "r = ResolvedUnix a"
    | n where "List.find (\<lambda>(name, _). name = a) config = Some (n, r)"
    using assms(3) unfolding p by (auto split: if_splits option.splits)
  then show ?thesis
  proof cases
    case 3
    then have "(n, r) \<in> set config" by (auto simp: find_Some_iff in_set_conv_nth)
    then show ?thesis using assms(2) by (auto simp: file_holds_def entry_ok_def)
  qed (use assms(4) in \<open>auto simp: addr_parts_def\<close>)
qed

definition with_file :: "string \<Rightarrow> tool_env \<Rightarrow> tool_env" where
  "with_file s env = env\<lparr>config_file := Contents s\<rparr>"

lemma with_file_laws: "tool_laws env \<Longrightarrow> tool_laws (with_file s env)"
  by (simp add: tool_laws_def with_file_def)

text \<open>
  C39: a name registered with a valid address stands, from then on, for what that address
  stood for; every other name keeps its meaning; a default registration is what commands
  without an address use, and an ordinary one does not change a default under another
  name. The file written is again one the tool reads back entry by entry.
\<close>

theorem registered_name_resolves:
  assumes "tool_laws env" and "file_holds config env"
    and "validate_bus_addr_name env name = Inr name" and "validate_bus_addr env addr = Inr addr"
    and "register env name addr is_default = returns (Inr s)"
  shows "\<exists>r config'. resolve_addr env (Some addr) = returns (Inr r) \<and>
     file_holds config' (with_file s env) \<and>
     resolve_addr (with_file s env) (Some (''name:'' @ name)) = returns (Inr r) \<and>
     (\<forall>n. n \<noteq> name \<and> n \<noteq> [] \<and> one_line n \<longrightarrow>
        resolve_addr (with_file s env) (Some (''name:'' @ n)) = resolve_addr env (Some (''name:'' @ n))) \<and>
     (is_default \<longrightarrow> resolve_addr (with_file s env) None = returns (Inr r)) \<and>
     (\<not> is_default \<and> config \<noteq> [] \<and> fst (hd config) \<noteq> name \<longrightarrow>
        resolve_addr (with_file s env) None = resolve_addr env None)"
proof -
  note name = valid_name [OF assms(1,3)]
  obtain kind a where k: "addr_parts addr kind a"
    using assms(1,4) by (auto simp: validate_bus_addr_Inr)
  let ?rest = "filter (\<lambda>(n, _). n \<noteq> name) config"
  obtain r where r: "resolve_addr env (Some addr) = returns (Inr r)"
    and s: "s = print_config (if is_default then (name, r) # ?rest else ?rest @ [(name, r)])"
    using assms(5) parse_config_holds [OF assms(1,2)]
    by (auto simp: register_def Let_def split: option.splits sum.splits Option.bind_splits)
  let ?config = "if is_default then (name, r) # ?rest else ?rest @ [(name, r)]"
  have "entry_ok (name, r)"
    using name resolved_ok [OF assms(1,2) r k] by (simp add: entry_ok_def)
  then have h: "file_holds ?config (with_file s env)"
    using assms(2) s by (auto simp: file_holds_def with_file_def)
  note laws = with_file_laws [OF assms(1), of s]
  have "resolve_addr (with_file s env) (Some (''name:'' @ name)) = returns (Inr r)"
    using resolve_name [OF laws h name(2,3)] by (simp add: find_app find_name)
  moreover have "resolve_addr (with_file s env) (Some (''name:'' @ n)) =
      resolve_addr env (Some (''name:'' @ n))" if "n \<noteq> name" "n \<noteq> []" "one_line n" for n
    using that resolve_name [OF laws h that(2,3)] resolve_name [OF assms(1,2) that(2,3)]
    by (auto simp: find_app find_name split: option.splits)
  moreover have "is_default \<longrightarrow> resolve_addr (with_file s env) None = returns (Inr r)"
    by (simp add: resolve_addr_def parse_config_holds [OF laws h])
  moreover have "resolve_addr (with_file s env) None = resolve_addr env None"
    if "\<not> is_default" "config \<noteq> []" "fst (hd config) \<noteq> name"
    using that parse_config_holds [OF laws h] parse_config_holds [OF assms(1,2)]
    by (cases config) (auto simp: resolve_addr_def)
  ultimately show ?thesis using r h by blast
qed

theorem registered_name_resolves_witness:
  "\<exists>s. register demo_env ''b'' ''tcp:h:1'' True = returns (Inr s) \<and>
     resolve_addr (with_file s demo_env) (Some (''name:'' @ ''b'')) = returns (Inr (ResolvedTcp ''h:1''))"
proof -
  have h: "file_holds [] demo_env" by (simp add: file_holds_def demo_env_def)
  have n: "validate_bus_addr_name demo_env ''b'' = Inr ''b''"
    by (simp add: validate_bus_addr_name_def demo_env_def deriv_match_iff BUS_ADDR_NAME_RGX_def
        rmatch_Plus_Cls)
  have r: "resolve_addr demo_env (Some ''tcp:h:1'') = returns (Inr (ResolvedTcp ''h:1''))"
    by (simp add: resolve_addr_parts [OF demo_env_laws demo_parts])
  then obtain s where "register demo_env ''b'' ''tcp:h:1'' True = returns (Inr s)"
    using parse_config_holds [OF demo_env_laws h] by (simp add: register_def demo_env_def)
  with registered_name_resolves [OF demo_env_laws h n demo_addr this] r show ?thesis by fastforce
qed

end
