(* ===== verification/Sockets.thy ===== *)
theory Sockets
  imports Lifecycle Client_Api
begin

text \<open>
  \<open>transport/tcp.rs\<close>, \<open>transport/unix.rs\<close>, \<open>transport/tls.rs\<close>: how a server or a client gets
  its socket, and the entry points of \<open>transport/memory.rs\<close>. The operating system and rustls are an environment: what each of their calls
  answers. Addresses, files and sockets are known by number or name; what a transport does
  with its socket is the framing of \<open>Codec\<close>.
\<close>

section \<open>The environment\<close>

datatype sock_addr = V4 nat | V6 nat

text \<open>A library error is its text (\<open>to_string\<close>).\<close>

record ('cert, 'key) sys =
  new_v4 :: "string option" \<comment> \<open>the error of \<open>TcpSocket::new_v4\<close>, if any\<close>
  set_keepalive :: "string option"
  lookup_host :: "string \<Rightarrow> string + sock_addr list"
  connect_v4 :: "sock_addr \<Rightarrow> string + nat" \<comment> \<open>connecting an IPv4 socket\<close>
  connect_stream :: "string \<Rightarrow> string + nat" \<comment> \<open>\<open>TcpStream::connect\<close>\<close>
  bind_tcp :: "string \<Rightarrow> string + nat"
  connect_unix :: "string \<Rightarrow> string + nat"
  bind_unix :: "string set \<Rightarrow> string \<Rightarrow> string + nat" \<comment> \<open>given the paths that exist\<close>
  remove_file :: "string set \<Rightarrow> string \<Rightarrow> string option"
  open_file :: "string \<Rightarrow> string + string"
  pem_certs :: "string \<Rightarrow> (string + 'cert) list" \<comment> \<open>the items of \<open>rustls_pemfile::certs\<close>\<close>
  pem_key :: "string \<Rightarrow> string + 'key option"
  root_error :: "'cert \<Rightarrow> string option" \<comment> \<open>why \<open>RootCertStore::add\<close> refuses\<close>
  client_auth :: "'cert list \<Rightarrow> 'cert list \<Rightarrow> 'key \<Rightarrow> string option"
  client_verifier :: "'cert list \<Rightarrow> string option"
  single_cert :: "'cert list \<Rightarrow> 'key \<Rightarrow> string option"
  valid_host :: "string \<Rightarrow> bool" \<comment> \<open>\<open>ServerName::try_from\<close>\<close>
  tls_connect_over :: "string \<Rightarrow> nat \<Rightarrow> string + nat"
  tls_accept_over :: "nat \<Rightarrow> string + nat"

definition io :: "string + 'a \<Rightarrow> 'a result" where
  \<comment> \<open>\<open>?\<close> on an \<open>std::io::Result\<close>\<close>
  "io r = (case r of Inl e \<Rightarrow> Inl (from_io_error e) | Inr x \<Rightarrow> Inr x)"

definition io_unit :: "string option \<Rightarrow> unit result" where
  "io_unit r = (case r of Some e \<Rightarrow> Inl (from_io_error e) | None \<Rightarrow> Inr ())"

definition tls :: "string option \<Rightarrow> unit result" where
  \<comment> \<open>\<open>map_err(|e| TlsConfigError(e.to_string()))?\<close>\<close>
  "tls r = (case r of Some e \<Rightarrow> Inl (TlsConfigError e) | None \<Rightarrow> Inr ())"

definition and_then :: "'a result \<Rightarrow> ('a \<Rightarrow> 'b result) \<Rightarrow> 'b result" where
  "and_then r f = (case r of Inl e \<Rightarrow> Inl e | Inr x \<Rightarrow> f x)"

lemma and_then_simps [simp]: "and_then (Inl e) f = Inl e" "and_then (Inr x) f = f x"
  by (simp_all add: and_then_def)

section \<open>Serving\<close>

datatype 'l serve_task = Listening 'l | CoreRunning

definition listen_and_serve :: "'l \<Rightarrow> 'l serve_task list result" where
  "listen_and_serve listener =
     (let listen_stopper = Listening listener;
          core_stopper = CoreRunning
      in Inr [listen_stopper, core_stopper])"

section \<open>Memory\<close>

text \<open>The listener and its connectors share the hub of \<open>Lifecycle\<close>; both are that hub.\<close>

definition memory_serve :: "(unit serve_task list \<times> hub) result" where
  "memory_serve =
     (let (listener, connector) = ((), hub_new)
      in case listen_and_serve listener of
           Inl e \<Rightarrow> Inl e
         | Inr stopper \<Rightarrow> Inr (stopper, connector))"

definition memory_connect :: "hub \<Rightarrow> (mem_transport \<times> client) result \<times> hub" where
  "memory_connect connector =
     (case mem_connect connector of
        (Inl e, h) \<Rightarrow> (Inl e, h)
      | (Inr transport, h) \<Rightarrow> (Inr (transport, new_client), h))"

section \<open>TCP\<close>

definition tcp_listener_new :: "('cert, 'key) sys \<Rightarrow> string \<Rightarrow> nat result" where
  "tcp_listener_new env addr = io (bind_tcp env addr)"

definition tcp_serve :: "('cert, 'key) sys \<Rightarrow> string \<Rightarrow> nat serve_task list result" where
  "tcp_serve env addr = and_then (tcp_listener_new env addr) listen_and_serve"

definition tcp_accept :: "string + nat \<Rightarrow> nat result" where
  \<comment> \<open>what the system's \<open>accept\<close> yields becomes the transport's socket\<close>
  "tcp_accept accepted = io accepted"

definition tcp_connect :: "('cert, 'key) sys \<Rightarrow> string \<Rightarrow> (nat \<times> client) result" where
  "tcp_connect env addr =
     and_then (io_unit (new_v4 env)) (\<lambda>_.
     and_then (io_unit (set_keepalive env)) (\<lambda>_.
     and_then (io (lookup_host env addr)) (\<lambda>addrs.
     and_then (case addrs of [] \<Rightarrow> Inl DnsLookupFailed | a # _ \<Rightarrow> Inr a) (\<lambda>a.
     and_then (io (connect_v4 env a)) (\<lambda>stream.
     Inr (stream, new_client))))))"

section \<open>Unix sockets\<close>

definition unix_listener_new ::
    "('cert, 'key) sys \<Rightarrow> string \<Rightarrow> string set \<Rightarrow> nat result \<times> string set" where
  \<comment> \<open>with the paths that exist; a failure to remove the old one is ignored\<close>
  "unix_listener_new env addr paths =
     (let paths = (case remove_file env paths addr of Some _ \<Rightarrow> paths | None \<Rightarrow> paths - {addr})
      in case io (bind_unix env paths addr) of
           Inl e \<Rightarrow> (Inl e, paths)
         | Inr l \<Rightarrow> (Inr l, insert addr paths))"

definition unix_serve ::
    "('cert, 'key) sys \<Rightarrow> string \<Rightarrow> string set \<Rightarrow> nat serve_task list result \<times> string set" where
  "unix_serve env addr paths =
     (case unix_listener_new env addr paths of
        (r, paths) \<Rightarrow> (and_then r listen_and_serve, paths))"

definition unix_accept :: "string + nat \<Rightarrow> nat result" where
  "unix_accept accepted = io accepted"

definition unix_connect :: "('cert, 'key) sys \<Rightarrow> string \<Rightarrow> (nat \<times> client) result" where
  "unix_connect env addr =
     and_then (io (connect_unix env addr)) (\<lambda>socket. Inr (socket, new_client))"

section \<open>TLS\<close>

definition load_certs :: "('cert, 'key) sys \<Rightarrow> string \<Rightarrow> 'cert list result" where
  "load_certs env path =
     and_then (io (open_file env path)) (\<lambda>text.
     collect_results (map (\<lambda>r. case r of Inl e \<Rightarrow> Inl (TlsConfigError e) | Inr c \<Rightarrow> Inr c)
       (pem_certs env text)))"

definition load_key :: "('cert, 'key) sys \<Rightarrow> string \<Rightarrow> 'key result run" where
  "load_key env path =
     (case io (open_file env path) of
        Inl e \<Rightarrow> returns (Inl e)
      | Inr text \<Rightarrow>
          (case pem_key env text of
             Inl _ \<Rightarrow> panic
           | Inr None \<Rightarrow> returns (Inl (TlsConfigError ''no private key found''))
           | Inr (Some k) \<Rightarrow> returns (Inr k)))"

fun add_roots :: "('cert, 'key) sys \<Rightarrow> 'cert list \<Rightarrow> 'cert list \<Rightarrow> 'cert list result" where
  \<comment> \<open>the loop of \<open>load_root_cert_store\<close>\<close>
  "add_roots env [] store = Inr store"
| "add_roots env (c # cs) store =
     (case root_error env c of
        Some e \<Rightarrow> Inl (TlsConfigError e)
      | None \<Rightarrow> add_roots env cs (store @ [c]))"

definition load_root_cert_store :: "('cert, 'key) sys \<Rightarrow> string \<Rightarrow> 'cert list result" where
  "load_root_cert_store env path =
     and_then (io (open_file env path)) (\<lambda>text.
     and_then (collect_results (map (\<lambda>r. case r of Inl e \<Rightarrow> Inl (TlsConfigError e) | Inr c \<Rightarrow> Inr c)
       (pem_certs env text))) (\<lambda>root_certs.
     add_roots env root_certs []))"

definition tls_listener_new ::
    "('cert, 'key) sys \<Rightarrow> string \<Rightarrow> string \<Rightarrow> string \<Rightarrow> string \<Rightarrow> (nat \<times> 'cert list) result run" where
  \<comment> \<open>the listener and the certificates the acceptor presents\<close>
  "tls_listener_new env addr certs_pem_file key_file root_cert_pem_file =
     (case and_then (io (bind_tcp env addr)) (\<lambda>listener.
           and_then (load_certs env certs_pem_file) (\<lambda>certs. Inr (listener, certs))) of
        Inl e \<Rightarrow> returns (Inl e)
      | Inr (listener, certs) \<Rightarrow> do {
          key \<leftarrow> load_key env key_file;
          returns
            (and_then key (\<lambda>key.
             and_then (load_root_cert_store env root_cert_pem_file) (\<lambda>roots.
             and_then (tls (client_verifier env roots)) (\<lambda>_.
             and_then (tls (single_cert env certs key)) (\<lambda>_.
             Inr (listener, certs))))))
        })"

definition tls_serve ::
    "('cert, 'key) sys \<Rightarrow> string \<Rightarrow> string \<Rightarrow> string \<Rightarrow> string \<Rightarrow>
     (nat \<times> 'cert list) serve_task list result run" where
  "tls_serve env addr certs_pem_file certs_key_file root_cert_pem_file = do {
     listener \<leftarrow> tls_listener_new env addr certs_pem_file certs_key_file root_cert_pem_file;
     returns (and_then listener listen_and_serve)
   }"

definition tls_accept :: "('cert, 'key) sys \<Rightarrow> string + nat \<Rightarrow> nat result" where
  "tls_accept env accepted =
     and_then (io accepted) (\<lambda>socket. io (tls_accept_over env socket))"

fun trust_all :: "('cert, 'key) sys \<Rightarrow> (string + 'cert) list \<Rightarrow> 'cert list \<Rightarrow> 'cert list result run" where
  \<comment> \<open>the loop of \<open>connect\<close> over the authorities' certificates\<close>
  "trust_all env [] store = returns (Inr store)"
| "trust_all env (Inl e # cs) store = returns (Inl (from_io_error e))"
| "trust_all env (Inr c # cs) store =
     (case root_error env c of
        Some _ \<Rightarrow> panic
      | None \<Rightarrow> trust_all env cs (store @ [c]))"

definition tls_connect ::
    "('cert, 'key) sys \<Rightarrow> string \<Rightarrow> string \<Rightarrow> string \<Rightarrow> string \<Rightarrow> string \<Rightarrow> nat result run" where
  \<comment> \<open>\<open>port\<close> is its decimal text\<close>
  "tls_connect env host port ca_file certs_pem_file key_file =
     (case io (open_file env ca_file) of
        Inl e \<Rightarrow> returns (Inl e)
      | Inr text \<Rightarrow> do {
          roots \<leftarrow> trust_all env (pem_certs env text) [];
          case and_then roots (\<lambda>roots.
               and_then (load_certs env certs_pem_file) (\<lambda>chain. Inr (roots, chain))) of
            Inl e \<Rightarrow> returns (Inl e)
          | Inr (roots, chain) \<Rightarrow> do {
              key \<leftarrow> load_key env key_file;
              returns
                (and_then key (\<lambda>key.
                 and_then (tls (client_auth env roots chain key)) (\<lambda>_.
                 and_then (io (connect_stream env (host @ '':'' @ port))) (\<lambda>socket.
                 and_then (if valid_host env host then Inr ()
                           else Inl (TlsConfigError ''invalid hostname'')) (\<lambda>_.
                 io (tls_connect_over env host socket))))))
            }
        })"

end
