(* ===== verification/Sockets_Properties.thy ===== *)
theory Sockets_Properties
  imports Sockets
begin

text \<open>
  What can go wrong when a socket transport is set up: which files make it panic, which
  error the others give, and what a second server on the same path or a host with several
  addresses meets.
\<close>

section \<open>TLS\<close>

definition malformed_key :: "('cert, 'key) sys \<Rightarrow> string \<Rightarrow> bool" where
  "malformed_key env path \<longleftrightarrow> (\<exists>text e. open_file env path = Inr text \<and> pem_key env text = Inl e)"

fun refused_root :: "('cert, 'key) sys \<Rightarrow> (string + 'cert) list \<Rightarrow> bool" where
  \<comment> \<open>the first item that is not an acceptable certificate is one that can be read\<close>
  "refused_root env [] \<longleftrightarrow> False"
| "refused_root env (Inl e # items) \<longleftrightarrow> False"
| "refused_root env (Inr c # items) \<longleftrightarrow> root_error env c \<noteq> None \<or> refused_root env items"

fun trusted_roots :: "('cert, 'key) sys \<Rightarrow> (string + 'cert) list \<Rightarrow> bool" where
  \<comment> \<open>every item is an acceptable certificate\<close>
  "trusted_roots env [] \<longleftrightarrow> True"
| "trusted_roots env (Inl e # items) \<longleftrightarrow> False"
| "trusted_roots env (Inr c # items) \<longleftrightarrow> root_error env c = None \<and> trusted_roots env items"

lemma bind_returns_panics: "(m \<bind> (\<lambda>x. returns (f x))) = panic \<longleftrightarrow> m = panic"
  by (cases m) simp_all

lemma load_key_panics: "load_key env path = panic \<longleftrightarrow> malformed_key env path"
  by (auto simp: load_key_def malformed_key_def io_def split: sum.splits option.splits)

lemma trust_all_panics: "trust_all env items store = panic \<longleftrightarrow> refused_root env items"
  by (induction env items store rule: trust_all.induct) (auto split: option.splits)

lemma trust_all_Inr:
  "(\<exists>roots. trust_all env items store = returns (Inr roots)) \<longleftrightarrow> trusted_roots env items"
  by (induction env items store rule: trust_all.induct) (auto split: option.splits)

text \<open>
  C34: setting up TLS panics exactly on two kinds of files. A server panics when it could
  bind and load its certificates and its key file is malformed. A client panics when the
  first certificate of the authorities' file that is not acceptable can be read but is
  refused, or when all are accepted, its own certificates load and its key file is
  malformed. Everything else, a missing key included, is an error value.
\<close>

theorem tls_setup_panics_exactly_on_bad_files:
  "(tls_listener_new env addr cert_file key_file root_file = panic \<longleftrightarrow>
      (\<exists>l. bind_tcp env addr = Inr l) \<and> (\<exists>cs. load_certs env cert_file = Inr cs) \<and>
      malformed_key env key_file) \<and>
   (tls_connect env host port ca_file cert_file key_file = panic \<longleftrightarrow>
      (\<exists>text. open_file env ca_file = Inr text \<and>
        (refused_root env (pem_certs env text) \<or>
         trusted_roots env (pem_certs env text) \<and>
         (\<exists>cs. load_certs env cert_file = Inr cs) \<and> malformed_key env key_file)))"
proof
  show "tls_listener_new env addr cert_file key_file root_file = panic \<longleftrightarrow>
      (\<exists>l. bind_tcp env addr = Inr l) \<and> (\<exists>cs. load_certs env cert_file = Inr cs) \<and>
      malformed_key env key_file"
    by (auto simp: tls_listener_new_def io_def and_then_def bind_returns_panics load_key_panics
        split: sum.splits prod.splits)
  show "tls_connect env host port ca_file cert_file key_file = panic \<longleftrightarrow>
      (\<exists>text. open_file env ca_file = Inr text \<and>
        (refused_root env (pem_certs env text) \<or>
         trusted_roots env (pem_certs env text) \<and>
         (\<exists>cs. load_certs env cert_file = Inr cs) \<and> malformed_key env key_file))"
  proof (cases "open_file env ca_file")
    case (Inr doc)
    show ?thesis
    proof (cases "trust_all env (pem_certs env doc) []")
      case None
      then show ?thesis using Inr trust_all_panics [of env "pem_certs env doc" "[]"]
        by (simp add: tls_connect_def io_def)
    next
      case (Some r)
      then have "\<not> refused_root env (pem_certs env doc)"
        using trust_all_panics [of env "pem_certs env doc" "[]"] by simp
      moreover have "trusted_roots env (pem_certs env doc) \<longleftrightarrow> (\<exists>roots. r = Inr roots)"
        using trust_all_Inr [of env "pem_certs env doc" "[]"] Some by auto
      ultimately show ?thesis using Inr Some load_key_panics [of env key_file]
        by (auto simp: tls_connect_def io_def and_then_def bind_returns_panics split: sum.splits prod.splits)
    qed
  qed (auto simp: tls_connect_def io_def)
qed

text \<open>A server reports the authority a client panics on.\<close>

lemma add_roots_refused:
  "refused_root env (map Inr cs) \<Longrightarrow> \<exists>e. add_roots env cs store = Inl (TlsConfigError e)"
  by (induction env cs store rule: add_roots.induct) (auto split: option.splits)

lemma server_reports_refused_root:
  assumes "open_file env path = Inr doc" and "pem_certs env doc = map Inr cs"
    and "refused_root env (map Inr cs)"
  shows "\<exists>e. load_root_cert_store env path = Inl (TlsConfigError e)"
    and "tls_connect env host port path cert_file key_file = panic"
proof -
  show "\<exists>e. load_root_cert_store env path = Inl (TlsConfigError e)"
    using assms add_roots_refused [of env cs "[]"] by (simp add: load_root_cert_store_def io_def o_def)
  show "tls_connect env host port path cert_file key_file = panic"
    using assms trust_all_panics [of env "map Inr cs" "[]"] by (simp add: tls_connect_def io_def)
qed

section \<open>TCP and Unix sockets\<close>

text \<open>
  A client tries only the first address of a host, over an IPv4 socket: where the first is
  one such a socket cannot reach, such as an IPv6 address, the others are not tried.
\<close>

lemma tcp_connect_tries_first_address_only:
  assumes "new_v4 env = None" and "set_keepalive env = None"
    and "lookup_host env addr = Inr (a # addrs)" and "connect_v4 env a = Inl e"
  shows "tcp_connect env addr = Inl (IOError e)"
  using assms by (simp add: tcp_connect_def io_def io_unit_def from_io_error_def)

lemma tcp_connect_Inr:
  "tcp_connect env addr = Inr (stream, cl) \<longleftrightarrow>
     new_v4 env = None \<and> set_keepalive env = None \<and> cl = new_client \<and>
     (\<exists>a addrs. lookup_host env addr = Inr (a # addrs) \<and> connect_v4 env a = Inr stream)"
  by (auto simp: tcp_connect_def io_def io_unit_def and_then_def split: sum.splits option.splits list.splits)

text \<open>
  The file a former server left at the path of a Unix socket is in no one's way, where the
  system refuses to bind only to a path that exists.
\<close>

lemma unix_listener_replaces_old_socket:
  assumes "remove_file env paths addr = None"
    and "\<And>ps. addr \<notin> ps \<Longrightarrow> bind_unix env ps addr = Inr l"
  shows "unix_listener_new env addr paths = (Inr l, insert addr paths)"
  using assms(1) assms(2) [of "paths - {addr}"] by (auto simp: unix_listener_new_def io_def)

end
