(* ===== verification/Debug.thy ===== *)
theory Debug
  imports Protocol
begin

text \<open>
  \<open>debug.rs\<close>: the lines the bus writes to its trace for each message, and that a line tells
  which message it is about.
\<close>

definition pad_left :: "nat \<Rightarrow> string \<Rightarrow> string" where
  \<comment> \<open>the format \<open>{:>n}\<close>\<close>
  "pad_left n s = replicate (n - length s) CHR '' '' @ s"

definition server_msg_to_string :: "protocol_server msg \<Rightarrow> string" where
  "server_msg_to_string m =
     (let cnt = (case content m of
          ServerPub params \<Rightarrow>
            ''PUB   '' @ display_topic (pub_topic params) @ '' ('' @
            display_payload (pub_payload params) @ '')''
        | ServerReq params \<Rightarrow>
            ''REQ   '' @ display_topic (req_topic params) @ '' ('' @
            display_payload (req_payload params) @ '')''
        | ServerRsp params \<Rightarrow>
            ''RSP   '' @ show_u32 (rsp_req_id params) @ '' ('' @
            display_payload (rsp_payload params) @ '')''
        | ServerAck params \<Rightarrow>
            ''ACK   '' @ show_u32 (ack_msg_id params) @ '' '' @
            (case ack_err params of Some e \<Rightarrow> display_error e | None \<Rightarrow> ''''))
      in pad_left 6 (show_u32 (mid m)) @ '' '' @ cnt)"

definition client_msg_to_string :: "protocol_client msg \<Rightarrow> string" where
  "client_msg_to_string m =
     (let cnt = (case content m of
          ClientSub params \<Rightarrow> ''SUB   '' @ display_topic (sub_topic params)
        | ClientUnsub params \<Rightarrow> ''UNSUB '' @ display_topic (unsub_topic params)
        | ClientPub params \<Rightarrow>
            ''PUB   '' @ display_topic (pub_topic params) @ '' ('' @
            display_payload (pub_payload params) @ '')''
        | ClientSrv params \<Rightarrow> ''SRV   '' @ display_topic (srv_topic params)
        | ClientUnsrv params \<Rightarrow> ''UNSRV '' @ display_topic (unsrv_topic params)
        | ClientReq params \<Rightarrow>
            ''REQ   '' @ display_topic (req_topic params) @ '' ('' @
            display_payload (req_payload params) @ '')''
        | ClientRsp params \<Rightarrow>
            ''RSP   #'' @ show_u32 (rsp_req_id params) @ '' ('' @
            display_payload (rsp_payload params) @ '')''
        | ClientStop \<Rightarrow> ''STOP''
        | ClientKeepAlive \<Rightarrow> ''KEEP_ALIVE'')
      in pad_left 6 (show_u32 (mid m)) @ '' '' @ cnt)"

section \<open>Reading the number of a line\<close>

lemma show_nat_no_blank: "CHR '' '' \<notin> set (show_nat n)"
proof (induction n rule: show_nat.induct)
  case (1 n)
  have d: "char_of (48 + k) \<noteq> CHR '' ''" if "k < 10" for k :: nat
  proof
    assume "char_of (48 + k) = CHR '' ''"
    then have "of_char (char_of (48 + k) :: char) = (32 :: nat)" by simp
    moreover have "of_char (char_of (48 + k) :: char) = (48 + k :: nat)" using that by simp
    ultimately show False by linarith
  qed
  show ?case
    using 1 d [of n] d [of "n mod 10"] by (subst show_nat.simps) auto
qed

definition line_number :: "string \<Rightarrow> string" where
  "line_number s = takeWhile (\<lambda>c. c \<noteq> CHR '' '') (dropWhile (\<lambda>c. c = CHR '' '') s)"

lemma line_number_padded:
  assumes "CHR '' '' \<notin> set w" and "w \<noteq> []"
  shows "line_number (pad_left n w @ '' '' @ rest) = w"
proof -
  obtain c v where w: "w = c # v" "c \<noteq> CHR '' ''" using assms by (cases w) auto
  have "dropWhile (\<lambda>c. c = CHR '' '') (replicate k CHR '' '' @ w @ s) = w @ s" for k s
    by (induction k) (use w in auto)
  moreover have "takeWhile (\<lambda>c. c \<noteq> CHR '' '') (w @ CHR '' '' # s) = w" for s
    using assms(1) by (induction w) auto
  ultimately show ?thesis by (simp add: line_number_def pad_left_def)
qed

lemma show_nat_nonempty: "show_nat n \<noteq> []"
  by (subst show_nat.simps) simp

lemma trace_line_number:
  "line_number (client_msg_to_string m) = show_u32 (mid m)"
  "line_number (server_msg_to_string s) = show_u32 (mid s)"
  unfolding client_msg_to_string_def server_msg_to_string_def Let_def
  by (rule line_number_padded; simp add: show_u32_def show_nat_no_blank show_nat_nonempty)+

lemma trace_lines_tell_messages_apart:
  "mid m \<noteq> mid n \<Longrightarrow> client_msg_to_string m \<noteq> client_msg_to_string n"
  using trace_line_number(1) [of m] trace_line_number(1) [of n] show_u32_inject by metis

end
