(* ===== verification/Bus_System.thy ===== *)
theory Bus_System
  imports Client_Properties Client_Stub
begin

text \<open>
  The whole bus: one server core, the queue of its tasks, a session (a client stub) per
  registered client, and an endpoint (a client core) per connection, in any interleaving.
  Every step is a step of one of the components' own functions; what this theory adds is
  only the wiring between them, which in the code is done by channels and \<open>tokio::spawn\<close>:
  \<open>register_client\<close> spawns the stub, \<open>request\<close> spawns the timer, the stub ends by dropping
  its receiver.

  A message in transit is one its sender has sent and its receiver has not yet read: each
  end keeps the list of all it sent, and the other end how many of them it has read.
  Connections are numbered; a session is known by its client id.

  The callers of a client act on it in two ways: they send it tasks, and they drop the
  receivers of the channels their calls have created, at any time (\<open>CallerDrops\<close>). What they
  take out of those channels stays in their buffers, which are the lists of all that was
  sent into them.
\<close>

section \<open>State\<close>

record endpoint =
  ep_client :: client_core
  ep_outcome :: client_outcome
  ep_read :: nat \<comment> \<open>how many of its messages the server's end has read\<close>
  ep_got :: nat \<comment> \<open>how many of the stub's messages it has read\<close>
  ep_services :: "topic list" \<comment> \<open>of the services handed to its loop and not yet given up\<close>

record session =
  ss_stub :: client_stub
  ss_serving :: bool
  ss_transport :: nat
  ss_chan :: nat \<comment> \<open>its channel from the core\<close>
  ss_taken :: nat \<comment> \<open>how many of the core's messages it has read\<close>

record bus =
  bus_core :: core
  bus_outcome :: outcome
  bus_tasks :: "task list" \<comment> \<open>sent to the core, not yet processed\<close>
  bus_sessions :: "u32 \<rightharpoonup> session"
  bus_endpoints :: "nat \<rightharpoonup> endpoint"
  bus_next :: nat \<comment> \<open>the number of the next connection\<close>
  bus_fired :: "nat set" \<comment> \<open>the request timers that have fired, by position\<close>

definition bus_new :: "core \<Rightarrow> bus" where
  "bus_new c =
     \<lparr>bus_core = c, bus_outcome = Running, bus_tasks = [], bus_sessions = Map.empty,
      bus_endpoints = Map.empty, bus_next = 0, bus_fired = {}\<rparr>"

section \<open>The steps\<close>

definition new_endpoint :: "client_core \<Rightarrow> endpoint" where
  "new_endpoint c =
     \<lparr>ep_client = c, ep_outcome = ClientRunning, ep_read = 0, ep_got = 0, ep_services = []\<rparr>"

fun open_session :: "task \<Rightarrow> nat \<Rightarrow> bus \<Rightarrow> u32 \<rightharpoonup> session" where
  \<comment> \<open>the stub that \<open>register_client\<close> spawns\<close>
  "open_session (Register n) now b =
     (bus_sessions b)(next_client_id (bus_core b) \<mapsto>
        \<lparr>ss_stub = stub_start (next_client_id (bus_core b)) now, ss_serving = True,
         ss_transport = n, ss_chan = next_chan (bus_core b), ss_taken = 0\<rparr>)"
| "open_session _ now b = bus_sessions b"

fun stub_offered :: "bus \<Rightarrow> session \<Rightarrow> stub_event \<Rightarrow> bool" where
  \<comment> \<open>what the stub's \<open>select!\<close> can yield; a transport may fail or end at any time\<close>
  "stub_offered b s (FromTransport (Some (Inr m))) \<longleftrightarrow>
     (case bus_endpoints b (ss_transport s) of
        None \<Rightarrow> False
      | Some e \<Rightarrow> ep_read e < length (sent (ep_client e)) \<and> m = sent (ep_client e) ! ep_read e)"
| "stub_offered b s (FromCore (Some m)) \<longleftrightarrow>
     ss_taken s < length (buffer (chans (bus_core b) (ss_chan s))) \<and>
     m = buffer (chans (bus_core b) (ss_chan s)) ! ss_taken s"
| "stub_offered b s (FromCore None) \<longleftrightarrow>
     ss_taken s = length (buffer (chans (bus_core b) (ss_chan s))) \<and>
     (\<not> tx_alive (chans (bus_core b) (ss_chan s)) \<or> bus_outcome b \<noteq> Running)"
| "stub_offered b s CoreGone \<longleftrightarrow> bus_outcome b \<noteq> Running"
| "stub_offered b s e \<longleftrightarrow> stub_enabled e (ss_stub s)"

definition close_chan :: "nat \<Rightarrow> core \<Rightarrow> core" where
  "close_chan h c = c\<lparr>chans := (chans c)(h := (chans c h)\<lparr>rx_alive := False\<rparr>)\<rparr>"

definition stub_reads :: "stub_event \<Rightarrow> nat" where
  "stub_reads e = (case e of FromTransport (Some (Inr _)) \<Rightarrow> 1 | _ \<Rightarrow> 0)"

definition stub_takes :: "stub_event \<Rightarrow> nat" where
  "stub_takes e = (case e of FromCore (Some _) \<Rightarrow> 1 | _ \<Rightarrow> 0)"

definition after_stub :: "u32 \<Rightarrow> session \<Rightarrow> stub_event \<Rightarrow> bus \<Rightarrow> bus" where
  \<comment> \<open>one turn of a session's stub\<close>
  "after_stub cid s e b =
     (case stub_serve [e] (ss_stub s) of
        (r, stub) \<Rightarrow>
          b\<lparr>bus_sessions := (bus_sessions b)(cid \<mapsto>
              s\<lparr>ss_stub := stub, ss_serving := (r = None), ss_taken := ss_taken s + stub_takes e\<rparr>),
            bus_endpoints := (bus_endpoints b)(ss_transport s :=
              map_option (\<lambda>p. p\<lparr>ep_read := ep_read p + stub_reads e\<rparr>)
                (bus_endpoints b (ss_transport s))),
            bus_tasks := bus_tasks b @ drop (length (cs_tasks (ss_stub s))) (cs_tasks stub),
            bus_core := (if r = None then bus_core b else close_chan (ss_chan s) (bus_core b))\<rparr>)"

fun gives_up_held :: "client_task \<Rightarrow> topic list \<Rightarrow> bool" where
  "gives_up_held (TaskUnsrv m) ts \<longleftrightarrow> unsrv_topic m \<in> set ts"
| "gives_up_held _ ts \<longleftrightarrow> True"

fun client_offered :: "(client_task \<Rightarrow> bool) \<Rightarrow> bus \<Rightarrow> nat \<Rightarrow> endpoint \<Rightarrow> client_event \<Rightarrow> bool" where
  \<comment> \<open>what a client's \<open>select!\<close> can yield. \<open>allowed\<close> are the tasks its callers issue. A
    \<open>TaskUnsrv\<close> comes only from the drop of a \<open>RequestSubscription\<close>: each is for a
    \<open>TaskSrv\<close> the loop has taken before it, and there is one for each (\<open>Client_Services\<close>)\<close>
  "client_offered allowed b n e (FromServer (Inr m)) \<longleftrightarrow>
     (\<exists>cid s. bus_sessions b cid = Some s \<and> ss_transport s = n \<and>
        ep_got e < length (cs_sent (ss_stub s)) \<and> m = cs_sent (ss_stub s) ! ep_got e)"
| "client_offered allowed b n e (FromClient t) \<longleftrightarrow>
     allowed t \<and> wf_task t \<and> gives_up_held t (ep_services e)"
| "client_offered allowed b n e ev \<longleftrightarrow> True"

definition client_gets :: "client_event \<Rightarrow> nat" where
  "client_gets ev = (case ev of FromServer (Inr _) \<Rightarrow> 1 | _ \<Rightarrow> 0)"

fun services_after :: "client_event \<Rightarrow> topic list \<Rightarrow> topic list" where
  \<comment> \<open>the objects of the services: \<open>serve\<close> makes one, its drop is the end of it\<close>
  "services_after (FromClient (TaskSrv m ack req)) ts = srv_topic m # ts"
| "services_after (FromClient (TaskUnsrv m)) ts = remove1 (unsrv_topic m) ts"
| "services_after _ ts = ts"

definition after_client ::
    "(u32 set \<Rightarrow> u32 list) \<Rightarrow> nat \<Rightarrow> endpoint \<Rightarrow> client_event \<Rightarrow> bus \<Rightarrow> bus" where
  "after_client ord n e ev b =
     (case client_step ord ev (ep_client e) of
        (out, c) \<Rightarrow>
          b\<lparr>bus_endpoints := (bus_endpoints b)(n \<mapsto>
              e\<lparr>ep_client := c, ep_outcome := out, ep_got := ep_got e + client_gets ev,
                ep_services := services_after ev (ep_services e)\<rparr>)\<rparr>)"

text \<open>
  A caller may drop the receiving end of any channel its calls created, at any time: of an
  acknowledgement or a response it stops waiting for, of a subscription's messages, of a
  service's requests.
\<close>

datatype receiver =
    AckReceiver nat
  | RspReceiver nat
  | PubReceiver nat
  | ReqReceiver nat

fun drop_receiver :: "receiver \<Rightarrow> client_core \<Rightarrow> client_core" where
  "drop_receiver (AckReceiver h) c =
     c\<lparr>ack_cells := (ack_cells c)(h := (ack_cells c h)\<lparr>os_rx := False\<rparr>)\<rparr>"
| "drop_receiver (RspReceiver h) c =
     c\<lparr>rsp_cells := (rsp_cells c)(h := (rsp_cells c h)\<lparr>os_rx := False\<rparr>)\<rparr>"
| "drop_receiver (PubReceiver h) c =
     c\<lparr>pub_chans := (pub_chans c)(h := (pub_chans c h)\<lparr>rx_alive := False\<rparr>)\<rparr>"
| "drop_receiver (ReqReceiver h) c =
     c\<lparr>req_chans := (req_chans c)(h := (req_chans c h)\<lparr>rx_alive := False\<rparr>)\<rparr>"

inductive bus_step ::
    "runtime \<Rightarrow> (u32 set \<Rightarrow> u32 list) \<Rightarrow> (client_task \<Rightarrow> bool) \<Rightarrow> bus \<Rightarrow> bus \<Rightarrow> bool"
  for rt ord allowed where
  Connect:
    "n = bus_next b \<Longrightarrow>
     bus_step rt ord allowed b (b\<lparr>bus_endpoints := (bus_endpoints b)(n \<mapsto>
          new_endpoint (client_start acks rsps pubs reqs)),
        bus_tasks := bus_tasks b @ [Register n], bus_next := n + 1\<rparr>)"
| CoreTask:
    "bus_outcome b = Running \<Longrightarrow> bus_tasks b = t # ts \<Longrightarrow>
     core_run rt [Task t] (bus_core b) = (out, c) \<Longrightarrow>
     bus_step rt ord allowed b (b\<lparr>bus_core := c, bus_outcome := out, bus_tasks := ts,
        bus_sessions := open_session t now b\<rparr>)"
| CoreStops:
    "bus_outcome b = Running \<Longrightarrow> core_run rt [StopSignal] (bus_core b) = (out, c) \<Longrightarrow>
     bus_step rt ord allowed b (b\<lparr>bus_core := c, bus_outcome := out\<rparr>)"
| Timer:
    "k < length (spawned_timers (bus_core b)) \<Longrightarrow> k \<notin> bus_fired b \<Longrightarrow>
     bus_step rt ord allowed b (b\<lparr>bus_fired := insert k (bus_fired b),
        bus_tasks := bus_tasks b @ [RequestTimeout (spawned_timers (bus_core b) ! k)]\<rparr>)"
| Stub:
    "bus_sessions b cid = Some s \<Longrightarrow> ss_serving s \<Longrightarrow> stub_offered b s e \<Longrightarrow>
     bus_step rt ord allowed b (after_stub cid s e b)"
| Client:
    "bus_endpoints b n = Some e \<Longrightarrow> ep_outcome e = ClientRunning \<Longrightarrow>
     client_offered allowed b n e ev \<Longrightarrow>
     bus_step rt ord allowed b (after_client ord n e ev b)"
| ClientSinkBreaks:
    "bus_endpoints b n = Some e \<Longrightarrow>
     bus_step rt ord allowed b (b\<lparr>bus_endpoints := (bus_endpoints b)(n \<mapsto>
        e\<lparr>ep_client := (ep_client e)\<lparr>sink_error := Some err\<rparr>\<rparr>)\<rparr>)"
| CallerDrops:
    "bus_endpoints b n = Some e \<Longrightarrow>
     bus_step rt ord allowed b (b\<lparr>bus_endpoints := (bus_endpoints b)(n \<mapsto>
        e\<lparr>ep_client := drop_receiver r (ep_client e)\<rparr>)\<rparr>)"

inductive_cases bus_stepE: "bus_step rt ord allowed b b'"

lemma drop_receiver_fields [simp]:
  "cl_next_msg_id (drop_receiver r c) = cl_next_msg_id c" "sent (drop_receiver r c) = sent c"
  "sink_error (drop_receiver r c) = sink_error c" "subscriptions (drop_receiver r c) = subscriptions c"
  "callbacks_ack (drop_receiver r c) = callbacks_ack c" "callbacks_rsp (drop_receiver r c) = callbacks_rsp c"
  "callbacks_pub (drop_receiver r c) = callbacks_pub c" "callbacks_req (drop_receiver r c) = callbacks_req c"
  "buffer (pub_chans (drop_receiver r c) h) = buffer (pub_chans c h)"
  "buffer (req_chans (drop_receiver r c) h) = buffer (req_chans c h)"
  by (cases r; simp)+

lemma drop_receiver_alive: "rx_alive (pub_chans (drop_receiver r c) h) \<Longrightarrow> rx_alive (pub_chans c h)"
  by (cases r) (auto split: if_splits)

text \<open>
  Ids wrap around after \<open>2 ^ 32\<close> messages or connections; runs are considered up to there.
\<close>

definition within_ids :: "bus \<Rightarrow> bool" where
  "within_ids b \<longleftrightarrow> bus_next b < 2 ^ 32 - 1 \<and>
     (\<forall>n e. bus_endpoints b n = Some e \<longrightarrow> length (sent (ep_client e)) < 2 ^ 32 - 1)"

definition bus_move ::
    "runtime \<Rightarrow> (u32 set \<Rightarrow> u32 list) \<Rightarrow> (client_task \<Rightarrow> bool) \<Rightarrow> bus \<Rightarrow> bus \<Rightarrow> bool" where
  "bus_move rt ord allowed b b' \<longleftrightarrow> bus_step rt ord allowed b b' \<and> within_ids b'"

definition bus_reachable ::
    "runtime \<Rightarrow> (u32 set \<Rightarrow> u32 list) \<Rightarrow> (client_task \<Rightarrow> bool) \<Rightarrow> core \<Rightarrow> bus \<Rightarrow> bool" where
  "bus_reachable rt ord allowed c b \<longleftrightarrow> (bus_move rt ord allowed)\<^sup>*\<^sup>* (bus_new c) b"

end
