(* ===== verification/Bus_Responses.thy ===== *)
theory Bus_Responses
  imports Bus_System
begin

text \<open>
  What one task of the server does to the responses on their way: it emits none, turns a
  request into a pending one, or turns a pending one into a response for its requester.
\<close>

section \<open>Ids of requests and responses\<close>

fun rsp_of :: "protocol_server \<Rightarrow> u32 list" where
  "rsp_of (ServerRsp r) = [rsp_req_id r]"
| "rsp_of _ = []"

definition rsp_ids :: "protocol_server msg list \<Rightarrow> u32 list" where
  "rsp_ids ms = concat (map (\<lambda>m. rsp_of (content m)) ms)"

fun req_of :: "protocol_client msg \<Rightarrow> u32 list" where
  "req_of (Msg i (ClientReq q)) = [i]"
| "req_of _ = []"

definition req_ids :: "protocol_client msg list \<Rightarrow> u32 list" where
  "req_ids ms = concat (map req_of ms)"

lemma ids_simps [simp]:
  "rsp_ids [] = []" "rsp_ids (m # ms) = rsp_of (content m) @ rsp_ids ms"
  "rsp_ids (ms @ ns) = rsp_ids ms @ rsp_ids ns"
  "req_ids [] = []" "req_ids (k # ks) = req_of k @ req_ids ks"
  "req_ids (ks @ ls) = req_ids ks @ req_ids ls"
  by (simp_all add: rsp_ids_def req_ids_def)

section \<open>Emitted responses\<close>

definition emits :: "core \<Rightarrow> core \<Rightarrow> (nat \<Rightarrow> u32 list) \<Rightarrow> bool" where
  "emits c c' F \<longleftrightarrow>
     (\<forall>k. \<exists>ns. buffer (chans c' k) = buffer (chans c k) @ ns \<and> rsp_ids ns = F k)"

abbreviation nothing :: "nat \<Rightarrow> u32 list" where
  "nothing \<equiv> \<lambda>k. []"

lemma emits_refl [simp]: "emits c c nothing"
  by (simp add: emits_def)

lemma emits_cong: "emits c c' F \<Longrightarrow> (\<And>k. F k = G k) \<Longrightarrow> emits c c' G"
  by (simp add: emits_def)

lemma emits_trans: "emits a b F \<Longrightarrow> emits b c G \<Longrightarrow> emits a c (\<lambda>k. F k @ G k)"
  unfolding emits_def by (metis append.assoc ids_simps(3))

lemma emits_quiet_trans: "emits a b nothing \<Longrightarrow> emits b c nothing \<Longrightarrow> emits a c nothing"
  using emits_trans [of a b nothing c nothing] by simp

lemma emits_irrelevant [simp]:
  "emits c (c'\<lparr>pending_responses := x\<rparr>) = emits c c'"
  "emits c (c'\<lparr>spawned_timers := ts\<rparr>) = emits c c'"
  "emits c (c'\<lparr>directory := d\<rparr>) = emits c c'"
  "emits (c\<lparr>pending_responses := x\<rparr>) c' = emits c c'"
  by (auto simp: emits_def fun_eq_iff)

lemma deliver_emits:
  assumes "deliver rt cid p c = (r, c')"
  shows "emits c c' (\<lambda>k. if r = Inr (next_msg_id c) \<and> protocol_server_senders c cid = Some k
      then rsp_of p else []) \<and>
    pending_responses c' \<subseteq>\<^sub>m pending_responses c"
proof (cases rule: deliver_cases [of c cid rt p])
  case (dead h)
  then show ?thesis using assms
    by (auto simp: emits_def map_le_def dom_def map_retain_def split: option.splits)
qed (use assms in \<open>auto simp: emits_def map_le_def\<close>)

lemma deliver_quiet:
  assumes "deliver rt cid p c = (r, c')" and "rsp_of p = []"
  shows "emits c c' nothing" "pending_responses c' \<subseteq>\<^sub>m pending_responses c"
  using deliver_emits [OF assms(1)] assms(2) by (auto elim: emits_cong)

lemma publish_to_quiet:
  "publish_to rt p ids c = returns (r, c') \<Longrightarrow> rsp_of p = [] \<Longrightarrow>
   emits c c' nothing \<and> pending_responses c' \<subseteq>\<^sub>m pending_responses c"
proof (induction ids arbitrary: c)
  case (Cons cid ids)
  obtain r1 c1 where d: "deliver rt cid p c = (r1, c1)" by fastforce
  note q = deliver_quiet [OF d Cons.prems(2)]
  show ?case
  proof (cases r1)
    case (Inr i)
    then have "publish_to rt p ids c1 = returns (r, c')"
      using Cons.prems(1) d by (auto split: if_splits)
    then show ?thesis
      using Cons.IH Cons.prems(2) q emits_quiet_trans map_le_trans by blast
  qed (use Cons.prems d q in \<open>auto split: if_splits\<close>)
qed simp

section \<open>One task\<close>

text \<open>\<open>task_effect t c c'\<close>: the three things a task can do.\<close>

definition quiet :: "core \<Rightarrow> core \<Rightarrow> bool" where
  "quiet c c' \<longleftrightarrow> emits c c' nothing \<and> pending_responses c' \<subseteq>\<^sub>m pending_responses c"

definition asked :: "task \<Rightarrow> core \<Rightarrow> core \<Rightarrow> bool" where
  "asked t c c' \<longleftrightarrow> (\<exists>cid i q j pr. t = Message cid (Msg i (ClientReq q)) \<and> emits c c' nothing \<and>
     pr_requester_id pr = cid \<and> pr_request_id pr = i \<and>
     pending_responses c' \<subseteq>\<^sub>m (pending_responses c)(j \<mapsto> pr))"

definition answered :: "core \<Rightarrow> core \<Rightarrow> bool" where
  "answered c c' \<longleftrightarrow> (\<exists>j pr h. pending_responses c j = Some pr \<and>
     protocol_server_senders c (pr_requester_id pr) = Some h \<and>
     emits c c' (\<lambda>k. if k = h then [pr_request_id pr] else []) \<and>
     pending_responses c' \<subseteq>\<^sub>m (pending_responses c)(j := None))"

definition task_effect :: "task \<Rightarrow> core \<Rightarrow> core \<Rightarrow> bool" where
  "task_effect t c c' \<longleftrightarrow> quiet c c' \<or> asked t c c' \<or> answered c c'"

lemma map_le_remove: "m(j := None) \<subseteq>\<^sub>m m"
  by (simp add: map_le_def)

lemma core_respond_effect:
  assumes "core_respond rt cid p c = (r, c')"
  shows "quiet c c' \<or> answered c c'"
proof (cases "pending_responses c (rsp_req_id p)")
  case (Some pr)
  let ?c = "c\<lparr>pending_responses := (pending_responses c)(rsp_req_id p := None)\<rparr>"
  let ?p = "ServerRsp \<lparr>rsp_req_id = pr_request_id pr, rsp_status = rsp_status p,
    rsp_payload = rsp_payload p\<rparr>"
  show ?thesis
  proof (cases "cid \<noteq> 0 \<and> pr_responder_id pr \<noteq> cid")
    case False
    obtain q c1 where d: "deliver rt (pr_requester_id pr) ?p ?c = (q, c1)" by fastforce
    have c1: "c' = c1" using assms Some False d by (auto simp: core_respond_def split: sum.splits)
    note e = deliver_emits [OF d]
    have e1: "emits c c1 (\<lambda>k. if q = Inr (next_msg_id c) \<and>
        protocol_server_senders c (pr_requester_id pr) = Some k then rsp_of ?p else [])"
      using e by simp
    have le: "pending_responses c1 \<subseteq>\<^sub>m (pending_responses c)(rsp_req_id p := None)" using e by simp
    show ?thesis
    proof (cases "q = Inr (next_msg_id c) \<and> (\<exists>h. protocol_server_senders c (pr_requester_id pr) = Some h)")
      case True
      then obtain h where "protocol_server_senders c (pr_requester_id pr) = Some h" by blast
      moreover have "emits c c1 (\<lambda>k. if k = h then [pr_request_id pr] else [])"
        by (rule emits_cong [OF e1]) (use True calculation in auto)
      ultimately show ?thesis using Some le c1 unfolding answered_def by blast
    next
      case False
      then have "emits c c1 nothing" by (intro emits_cong [OF e1]) auto
      then show ?thesis
        using c1 map_le_trans [OF le map_le_remove] by (simp add: quiet_def)
    qed
  qed (use assms Some in \<open>simp add: core_respond_def quiet_def\<close>)
qed (use assms in \<open>simp add: core_respond_def quiet_def\<close>)

lemma handled_effect:
  assumes "handled rt cid m c = returns (r, c')"
  shows "task_effect (Message cid m) c c'"
proof (cases "content m")
  case (ClientReq q)
  show ?thesis
  proof (cases "get_owner (req_topic q) (directory c)")
    case (Some b)
    obtain z c1 where d: "deliver rt b (ServerReq q) c = (z, c1)" by fastforce
    note e = deliver_quiet [OF d]
    show ?thesis
    proof (cases z)
      case (Inl x)
      then have "c' = c1" using assms ClientReq Some d
        by (auto simp: handled_def dispatch_def core_request_def)
      then show ?thesis using e by (simp add: task_effect_def quiet_def)
    next
      case (Inr i)
      then have "c' = c1\<lparr>pending_responses := (pending_responses c1)(i \<mapsto>
          \<lparr>pr_request_id = mid m, pr_responder_id = b, pr_requester_id = cid\<rparr>),
          spawned_timers := spawned_timers c1 @ [i]\<rparr>"
        using assms ClientReq Some d by (auto simp: handled_def dispatch_def core_request_def)
      then have "emits c c' nothing"
        "pending_responses c' = (pending_responses c1)(i \<mapsto>
           \<lparr>pr_request_id = mid m, pr_responder_id = b, pr_requester_id = cid\<rparr>)"
        using e by simp_all
      moreover have "m = Msg (mid m) (ClientReq q)" using ClientReq by (cases m) simp
      moreover have "(pending_responses c1)(i \<mapsto> x) \<subseteq>\<^sub>m (pending_responses c)(i \<mapsto> x)" for x
        using e by (auto simp: map_le_def)
      ultimately have "asked (Message cid m) c c'"
        unfolding asked_def
        by (intro exI [of _ cid] exI [of _ "mid m"] exI [of _ q] exI [of _ i]
            exI [of _ "\<lparr>pr_request_id = mid m, pr_responder_id = b, pr_requester_id = cid\<rparr>"]) simp
      then show ?thesis by (simp add: task_effect_def)
    qed
  qed (use assms ClientReq in \<open>auto simp: handled_def dispatch_def core_request_def task_effect_def quiet_def\<close>)
next
  case (ClientRsp p)
  then obtain q where "core_respond rt cid p c = (q, c')"
    using assms by (auto simp: handled_def dispatch_def bus_simps split: prod.splits)
  then have "quiet c c' \<or> answered c c'" by (rule core_respond_effect)
  then show ?thesis by (auto simp: task_effect_def)
next
  case (ClientPub p)
  then show ?thesis using assms
    by (auto simp: handled_def core_publish_def Let_def bus_simps task_effect_def quiet_def
        dest!: publish_to_quiet)
qed (use assms in \<open>auto simp: handled_def dispatch_def bus_simps task_effect_def quiet_def
      core_subscribe_def core_unsubscribe_def core_serve_def core_unserve_def split: prod.splits\<close>)

lemma effect_then_quiet:
  assumes "task_effect t a b" and "quiet b c"
  shows "task_effect t a c"
proof -
  have e: "emits a c F" if "emits a b F" for F
    using emits_trans [OF that, of c nothing] assms(2) by (simp add: quiet_def)
  have p: "pending_responses c \<subseteq>\<^sub>m m" if "pending_responses b \<subseteq>\<^sub>m m" for m
    using that assms(2) map_le_trans unfolding quiet_def by blast
  consider "quiet a b" | "asked t a b" | "answered a b"
    using assms(1) by (auto simp: task_effect_def)
  then show ?thesis
  proof cases
    case 1
    then have "quiet a c" using e p by (simp add: quiet_def)
    then show ?thesis by (simp add: task_effect_def)
  next
    case 2
    then have "asked t a c" unfolding asked_def using e p by blast
    then show ?thesis by (simp add: task_effect_def)
  next
    case 3
    then have "answered a c" unfolding answered_def using e p by blast
    then show ?thesis by (simp add: task_effect_def)
  qed
qed

lemma process_task_effect:
  assumes "process_task rt t c = returns (r, c')" and "\<forall>n. t \<noteq> Register n"
  shows "task_effect t c c'"
proof (cases t)
  case (Message cid m)
  then obtain q c1 where h: "handled rt cid m c = returns (q, c1)"
    and c': "c' = snd (deliver rt cid (ServerAck (ack_for (mid m) q)) c1)"
    using assms(1) by (auto simp: process_task_def process_msg_eq split: option.splits)
  have "quiet c1 c'"
    using deliver_quiet [of rt cid "ServerAck (ack_for (mid m) q)" c1] c'
    unfolding quiet_def by (metis prod.collapse rsp_of.simps(4))
  then show ?thesis using handled_effect [OF h] Message effect_then_quiet by blast
next
  case (Deregister cid)
  then have "c' = snd (deregister_client cid c)"
    using assms(1) by (simp add: process_task_def prod.case_eq_if)
  then show ?thesis
    by (auto simp: task_effect_def quiet_def emits_def map_le_def dom_def map_retain_def split: option.splits)
next
  case (RequestTimeout i)
  then obtain q p where "core_respond rt 0 p c = (q, c')"
    using assms(1) by (auto simp: process_task_def split: prod.splits sum.splits)
  then have "quiet c c' \<or> answered c c'" by (rule core_respond_effect)
  then show ?thesis by (auto simp: task_effect_def)
qed (use assms(2) in simp)

end
