(* ===== verification/Bus_Clients.thy ===== *)
theory Bus_Clients
  imports Bus_Responses
begin

text \<open>
  What one step of a client does to the requests it has waiting, and that a client whose
  callers use valid topics only ever sends valid topics.
\<close>

section \<open>What unsubscribing and notifying preserve\<close>

text \<open>
  A relation between client states that follows from forgetting a subscription, from
  appending to a subscription's channel and from sending an \<open>Unsub\<close> follows from \<open>notify\<close>.
\<close>

locale client_relation =
  fixes R :: "client_core \<Rightarrow> client_core \<Rightarrow> bool"
  assumes refl: "R c c" and trans: "R a b \<Longrightarrow> R b c \<Longrightarrow> R a c"
    and appended: "R c (c\<lparr>pub_chans := chs\<rparr>)"
    and forgotten: "R c (c\<lparr>callbacks_pub := m, subscriptions := d\<rparr>)"
    and unsubscribed: "client_send (TaskUnsub (UnsubMsg t)) c = returns (q, c') \<Longrightarrow> R c c'"
begin

lemma send_unsubs_rel: "send_unsubs ts c = returns (r, c') \<Longrightarrow> R c c'"
proof (induction ts arbitrary: c)
  case (Cons t ts)
  then obtain q c1 where s: "client_send (TaskUnsub (UnsubMsg t)) c = returns (q, c1)"
    and n: "(case q of Inl e \<Rightarrow> returns (Inl e, c1) | Inr _ \<Rightarrow> send_unsubs ts c1) = returns (r, c')"
    by (auto simp: bus_simps)
  show ?case using n Cons.IH [of c1] unsubscribed [OF s] trans by (cases q) auto
qed (simp add: refl)

lemma notify_rel: "notify p ids c = returns (r, c') \<Longrightarrow> R c c'"
proof (induction ids arbitrary: c)
  case (Cons k ids)
  obtain h where h: "callbacks_pub c k = Some h" using Cons.prems by (cases "callbacks_pub c k") auto
  show ?case
  proof (cases "rx_alive (pub_chans c h)")
    case True
    let ?c = "c\<lparr>pub_chans := (pub_chans c)(h := (pub_chans c h)\<lparr>buffer := buffer (pub_chans c h) @ [p]\<rparr>)\<rparr>"
    have "R ?c c'" using Cons.IH Cons.prems notify_step_live [OF h True] by simp
    then show ?thesis by (rule trans [OF appended])
  next
    case False
    obtain d ts where d: "drop_client k (subscriptions c) = (d, ts)" by fastforce
    let ?c = "c\<lparr>callbacks_pub := (callbacks_pub c)(k := None), subscriptions := d\<rparr>"
    obtain q c1 where s: "send_unsubs ts ?c = returns (q, c1)"
      and n: "(case q of Inl e \<Rightarrow> returns (Inl e, c1) | Inr _ \<Rightarrow> notify p ids c1) = returns (r, c')"
      using Cons.prems h False d by (auto simp: bus_simps)
    have "R c c1" by (rule trans [OF forgotten send_unsubs_rel [OF s]])
    then show ?thesis using n Cons.IH [of c1] trans by (cases q) auto
  qed
qed (simp add: refl)

end

section \<open>Requests waiting\<close>

definition calm :: "client_core \<Rightarrow> client_core \<Rightarrow> bool" where
  \<comment> \<open>nothing happens to the waiting requests\<close>
  "calm c c' \<longleftrightarrow> callbacks_rsp c' = callbacks_rsp c \<and> (\<exists>ns. sent c' = sent c @ ns \<and> req_ids ns = [])"

lemma calm_refl [simp]: "calm c c"
  by (simp add: calm_def)

lemma calm_trans: "calm a b \<Longrightarrow> calm b c \<Longrightarrow> calm a c"
  unfolding calm_def by (metis append.assoc append_Nil ids_simps(6))

lemma calm_irrelevant [simp]:
  "calm (c\<lparr>callbacks_pub := x\<rparr>) c' = calm c c'" "calm (c\<lparr>subscriptions := d\<rparr>) c' = calm c c'"
  "calm (c\<lparr>pub_chans := y\<rparr>) c' = calm c c'" "calm (c\<lparr>cl_next_msg_id := i\<rparr>) c' = calm c c'"
  "calm c (c'\<lparr>callbacks_pub := x\<rparr>) = calm c c'" "calm c (c'\<lparr>subscriptions := d\<rparr>) = calm c c'"
  "calm c (c'\<lparr>pub_chans := y\<rparr>) = calm c c'" "calm c (c'\<lparr>cl_next_msg_id := i\<rparr>) = calm c c'"
  "calm c (c'\<lparr>req_chans := z\<rparr>) = calm c c'" "calm c (c'\<lparr>ack_cells := w\<rparr>) = calm c c'"
  "calm c (c'\<lparr>callbacks_ack := v\<rparr>) = calm c c'"
  by (simp_all add: calm_def)

lemma transport_send_calm: "req_of m = [] \<Longrightarrow> calm c (snd (transport_send m c))"
  by (simp add: transport_send_def calm_def split: option.split)

lemma before_send_rsp:
  assumes "before_send task c = returns (r, c')"
  shows "callbacks_rsp c' = (case task of
      TaskReq q a h \<Rightarrow> (callbacks_rsp c)(cl_next_msg_id c + 1 \<mapsto> h) | _ \<Rightarrow> callbacks_rsp c) \<and>
    (\<forall>m. r = Inr m \<longrightarrow> (case task of
      TaskReq q a h \<Rightarrow> m = Msg (cl_next_msg_id c + 1) (ClientReq q) | _ \<Rightarrow> req_of m = []))"
  using assms
  by (cases task)
     (auto simp: before_send_srv split: option.splits sum.splits,
      auto simp: before_send_def Let_def bus_simps split: option.splits sum.splits prod.splits)

lemma client_send_effect:
  assumes "client_send task c = returns (r, c')"
  shows "case task of
      TaskReq q a h \<Rightarrow> r = Inr () \<longrightarrow> sent c' = sent c @ [Msg (cl_next_msg_id c + 1) (ClientReq q)] \<and>
        callbacks_rsp c' = (callbacks_rsp c)(cl_next_msg_id c + 1 \<mapsto> h)
    | _ \<Rightarrow> calm c c'"
proof -
  obtain q c1 where b: "before_send task c = returns (q, c1)"
    and c': "(r, c') = (case q of Inl e \<Rightarrow> (Inl e, c1) | Inr m \<Rightarrow> transport_send m c1)"
    using assms by (auto simp: client_send_def bus_simps)
  note e = before_send_rsp [OF b] and i = before_send_id [OF b]
  show ?thesis
  proof (cases q)
    case (Inl x)
    then show ?thesis using c' e i by (cases task) (auto simp: calm_def)
  next
    case (Inr m)
    then show ?thesis using c' e i
      by (cases task) (auto simp: calm_def transport_send_def split: option.splits)
  qed
qed

interpretation calm_client: client_relation calm
  by unfold_locales (auto simp: calm_def dest: client_send_effect elim: calm_trans [unfolded calm_def])

text \<open>The three things a step can do to the waiting requests, while the client runs on.\<close>

definition client_effect :: "client_event \<Rightarrow> client_core \<Rightarrow> client_core \<Rightarrow> bool" where
  "client_effect ev c c' \<longleftrightarrow>
     (case ev of
        FromServer (Inr m) \<Rightarrow>
          (case content m of
             ServerRsp r \<Rightarrow> sent c' = sent c \<and>
               callbacks_rsp c' = (callbacks_rsp c)(rsp_req_id r := None)
           | _ \<Rightarrow> calm c c')
      | FromClient (TaskReq q a h) \<Rightarrow>
          sent c' = sent c @ [Msg (cl_next_msg_id c + 1) (ClientReq q)] \<and>
          callbacks_rsp c' = (callbacks_rsp c)(cl_next_msg_id c + 1 \<mapsto> h)
      | _ \<Rightarrow> calm c c')"

lemma after_receive_effect:
  assumes "after_receive ord m c = returns (r, c')"
  shows "client_effect (FromServer (Inr m)) c c'"
  using assms
  by (cases "content m")
     (auto simp: after_receive_def client_effect_def dest: calm_client.notify_rel split: option.splits)

lemma client_step_effect:
  assumes "client_step ord ev c = (ClientRunning, c')"
  shows "client_effect ev c c'"
proof (cases ev)
  case (FromServer q)
  then obtain m r where "q = Inr m" "after_receive ord m c = returns (r, c')"
    using assms by (auto simp: client_step_def split: sum.splits option.splits)
  then show ?thesis using FromServer after_receive_effect by blast
next
  case (FromClient t)
  then obtain u where "client_send t c = returns (Inr u, c')"
    using assms by (auto simp: client_step_def split: sum.splits option.splits if_splits)
  from client_send_effect [OF this] FromClient show ?thesis
    by (cases t) (simp_all add: client_effect_def)
next
  case KeepAliveTick
  then obtain u where "client_send TaskKeepAlive c = returns (Inr u, c')"
    using assms by (auto simp: client_step_def split: sum.splits option.splits if_splits)
  from client_send_effect [OF this] KeepAliveTick show ?thesis by (simp add: client_effect_def)
qed (use assms in \<open>auto simp: client_step_def\<close>)

section \<open>Valid topics\<close>

definition client_valid :: "client_core \<Rightarrow> bool" where
  "client_valid c \<longleftrightarrow> client_inv c \<and> (\<forall>m \<in> set (sent c). wf_client_msg m) \<and>
     (\<forall>u. subs_of (subscriptions c) u \<noteq> {} \<longrightarrow> wf_topic u)"

lemma client_valid_start: "client_valid (client_start acks rsps pubs reqs)"
  unfolding client_valid_def using client_inv_start dir_inv_new(2) by (simp add: client_start_def)

lemma before_send_msg:
  "before_send task c = returns (Inr m, c') \<Longrightarrow> wf_task task \<Longrightarrow> wf_client_msg m"
  by (cases task)
     (auto simp: before_send_srv wf_client_msg_def wf_task_def split: option.splits sum.splits,
      auto simp: before_send_def Let_def bus_simps wf_client_msg_def wf_task_def
      split: option.splits sum.splits prod.splits)

lemma before_send_subs:
  assumes "before_send task c = returns (r, c')" and "client_inv c" and "wf_task task"
  shows "subs_of (subscriptions c') u \<noteq> {} \<Longrightarrow> subs_of (subscriptions c) u \<noteq> {} \<or> wf_topic u"
proof (cases task)
  case (TaskSub m a h)
  then have w: "wf_topic (sub_topic m)" using assms(3) by (simp add: wf_task_def)
  show "subs_of (subscriptions c') u \<noteq> {} \<Longrightarrow> subs_of (subscriptions c) u \<noteq> {} \<or> wf_topic u"
    using assms(1) TaskSub w tree.sub_frame(3) [OF client_inv_dir [OF assms(2)] w]
    by (auto simp: before_send_def Let_def bus_simps split: if_splits)
next
  case (TaskSrv m a h)
  then have w: "wf_topic (srv_topic m)" using assms(3) by (simp add: wf_task_def)
  show "subs_of (subscriptions c') u \<noteq> {} \<Longrightarrow> subs_of (subscriptions c) u \<noteq> {} \<or> wf_topic u"
    using assms(1) TaskSrv tree.clm_frame(3) [OF client_inv_dir [OF assms(2)] w]
    by (auto simp: before_send_srv split: option.splits)
next
  case (TaskUnsrv m)
  show "subs_of (subscriptions c') u \<noteq> {} \<Longrightarrow> subs_of (subscriptions c) u \<noteq> {} \<or> wf_topic u"
    using assms(1) TaskUnsrv tree.uncl_frame(3) [OF client_inv_dir [OF assms(2)]]
    by (auto simp: before_send_def Let_def split: option.splits sum.splits prod.splits)
qed (use assms(1) in \<open>auto simp: before_send_def Let_def\<close>)

lemma client_send_valid:
  assumes "client_send task c = returns (r, c')" and "client_valid c" and "wf_task task"
  shows "client_valid c'"
proof -
  have i: "client_inv c" using assms(2) by (simp add: client_valid_def)
  obtain q c1 where b: "before_send task c = returns (q, c1)"
    and c': "(r, c') = (case q of Inl e \<Rightarrow> (Inl e, c1) | Inr m \<Rightarrow> transport_send m c1)"
    using assms(1) by (auto simp: client_send_def bus_simps)
  have "\<forall>m \<in> set (sent c'). m \<in> set (sent c) \<or> wf_client_msg m"
    using c' before_send_id [OF b] before_send_msg b assms(3)
    by (cases q) (auto simp: transport_send_def split: option.splits)
  moreover have "subscriptions c' = subscriptions c1"
    using c' by (cases q) (auto simp: transport_send_def split: option.splits)
  moreover have "wf_topic u" if "subs_of (subscriptions c1) u \<noteq> {}" for u
    using before_send_subs [OF b i assms(3) that] assms(2) unfolding client_valid_def by blast
  ultimately show ?thesis
    using client_send_inv [OF assms(1) i assms(3)] assms(2) unfolding client_valid_def by auto
qed

lemma send_unsubs_valid:
  "send_unsubs ts c = returns (r, c') \<Longrightarrow> client_valid c \<Longrightarrow> \<forall>t \<in> set ts. wf_topic t \<Longrightarrow> client_valid c'"
proof (induction ts arbitrary: c)
  case (Cons t ts)
  then obtain q c1 where s: "client_send (TaskUnsub (UnsubMsg t)) c = returns (q, c1)"
    and n: "(case q of Inl e \<Rightarrow> returns (Inl e, c1) | Inr _ \<Rightarrow> send_unsubs ts c1) = returns (r, c')"
    by (auto simp: bus_simps)
  have "client_valid c1"
    using client_send_valid [OF s Cons.prems(2)] Cons.prems(3) by (simp add: wf_task_def)
  then show ?case using n Cons by (cases q) auto
qed simp

lemma client_valid_cong:
  "client_valid c \<Longrightarrow> subscriptions c' = subscriptions c \<Longrightarrow> callbacks_pub c' = callbacks_pub c \<Longrightarrow>
   callbacks_req c' = callbacks_req c \<Longrightarrow> sent c' = sent c \<Longrightarrow> client_valid c'"
  by (auto simp: client_valid_def elim: client_inv_cong)

lemma notify_valid:
  "notify p ids c = returns (r, c') \<Longrightarrow> client_valid c \<Longrightarrow> client_valid c'"
proof (induction ids arbitrary: c)
  case (Cons k ids)
  obtain h where h: "callbacks_pub c k = Some h" using Cons.prems by (cases "callbacks_pub c k") auto
  show ?case
  proof (cases "rx_alive (pub_chans c h)")
    case True
    let ?c = "c\<lparr>pub_chans := (pub_chans c)(h := (pub_chans c h)\<lparr>buffer := buffer (pub_chans c h) @ [p]\<rparr>)\<rparr>"
    have "client_valid ?c" using Cons.prems(2) by (rule client_valid_cong) simp_all
    then show ?thesis using Cons notify_step_live [OF h True] by simp
  next
    case False
    obtain d ts where d: "drop_client k (subscriptions c) = (d, ts)" by fastforce
    let ?c = "c\<lparr>callbacks_pub := (callbacks_pub c)(k := None), subscriptions := d\<rparr>"
    have i: "client_inv c" using Cons.prems(2) by (simp add: client_valid_def)
    note f = tree.drop_frame [OF client_inv_dir [OF i] d]
    obtain q c1 where s: "send_unsubs ts ?c = returns (q, c1)"
      and n: "(case q of Inl e \<Rightarrow> returns (Inl e, c1) | Inr _ \<Rightarrow> notify p ids c1) = returns (r, c')"
      using Cons.prems h False d by (auto simp: bus_simps)
    have "client_valid ?c"
      using client_inv_drop [OF i d] Cons.prems(2) f(4) by (auto simp: client_valid_def)
    moreover have "\<forall>t \<in> set ts. wf_topic t"
      using f(7) Cons.prems(2) by (auto simp: client_valid_def)
    ultimately have "client_valid c1" using send_unsubs_valid [OF s] by blast
    then show ?thesis using n Cons.IH by (cases q) auto
  qed
qed simp

lemma after_receive_valid:
  assumes "after_receive ord m c = returns (r, c')" and "client_valid c"
  shows "client_valid c'"
proof (cases "content m")
  case (ServerPub p)
  then show ?thesis using assms by (auto simp: after_receive_def intro: notify_valid)
qed (use assms in \<open>auto simp: after_receive_def elim!: client_valid_cong split: option.splits\<close>)

lemma client_step_valid:
  assumes "client_step ord ev c = (out, c')" and "client_valid c" and "wf_client_event ev"
  shows "client_valid c'"
proof (cases ev)
  case (FromServer q)
  show ?thesis
  proof (cases q)
    case (Inr m)
    then show ?thesis using assms FromServer after_receive_valid [of ord m c]
      by (cases "after_receive ord m c") (auto simp: client_step_def split: sum.splits)
  qed (use assms FromServer in \<open>auto simp: client_step_def\<close>)
next
  case (FromClient t)
  then show ?thesis using assms client_send_valid [of t c]
    by (cases "client_send t c") (auto simp: client_step_def split: sum.splits if_splits)
next
  case KeepAliveTick
  then show ?thesis using assms client_send_valid [of TaskKeepAlive c]
    by (cases "client_send TaskKeepAlive c") (auto simp: client_step_def wf_task_def split: sum.splits)
qed (use assms in \<open>auto simp: client_step_def\<close>)

end
