(* ===== verification/Bus_System_Inv.thy ===== *)
theory Bus_System_Inv
  imports Bus_Clients
begin

text \<open>
  The invariant of the whole bus. \<open>wired\<close> says how the parts refer to each other: sessions,
  connections, channels and ids correspond one to one, and nothing in a queue or table
  names a client that never existed. \<open>balanced\<close> follows every request of a client from
  the client's queue over the server's table of pending responses and back: there is at
  most one token of it anywhere, and the client still waits for it.
\<close>

section \<open>Queues\<close>

definition regs_of :: "task list \<Rightarrow> nat list" where
  "regs_of ts = concat (map (\<lambda>t. case t of Register n \<Rightarrow> [n] | _ \<Rightarrow> []) ts)"

definition home :: "bus \<Rightarrow> u32 \<Rightarrow> nat option" where
  \<comment> \<open>the connection of a client\<close>
  "home b cid = map_option ss_transport (bus_sessions b cid)"

definition queue_of :: "(u32 \<Rightarrow> nat option) \<Rightarrow> nat \<Rightarrow> task list \<Rightarrow> protocol_client msg list" where
  \<comment> \<open>the messages of connection \<open>n\<close> in a queue of tasks\<close>
  "queue_of hm n ts = concat (map (\<lambda>t. case t of
     Message cid m \<Rightarrow> if hm cid = Some n then [m] else [] | _ \<Rightarrow> []) ts)"

lemma queue_simps [simp]:
  "regs_of [] = []" "regs_of (ts @ us) = regs_of ts @ regs_of us"
  "regs_of (t # ts) = (case t of Register n \<Rightarrow> [n] | _ \<Rightarrow> []) @ regs_of ts"
  "queue_of hm n [] = []" "queue_of hm n (ts @ us) = queue_of hm n ts @ queue_of hm n us"
  "queue_of hm n (t # ts) = (case t of Message cid m \<Rightarrow> if hm cid = Some n then [m] else [] | _ \<Rightarrow> []) @
     queue_of hm n ts"
  by (simp_all add: regs_of_def queue_of_def)

lemma queue_of_cong:
  "(\<And>cid m. Message cid m \<in> set ts \<Longrightarrow> hm cid = Some n \<longleftrightarrow> hm' cid = Some n) \<Longrightarrow>
   queue_of hm n ts = queue_of hm' n ts"
  by (induction ts) (auto split: task.split)

lemma queue_of_empty: "(\<And>cid. hm cid \<noteq> Some n) \<Longrightarrow> queue_of hm n ts = []"
  by (induction ts) (auto split: task.split)

section \<open>How the parts refer to each other\<close>

fun task_client :: "task \<Rightarrow> u32 option" where
  "task_client (Message cid m) = Some cid"
| "task_client (Deregister cid) = Some cid"
| "task_client _ = None"

fun task_valid :: "task \<Rightarrow> bool" where
  "task_valid (Message cid m) \<longleftrightarrow> wf_client_msg m"
| "task_valid _ \<longleftrightarrow> True"

definition ids_ok :: "bus \<Rightarrow> bool" where
  "ids_ok b \<longleftrightarrow> (\<exists>k. next_client_id (bus_core b) = of_nat (Suc k) \<and>
     k + length (regs_of (bus_tasks b)) = bus_next b \<and>
     (\<forall>cid. bus_sessions b cid \<noteq> None \<longrightarrow> 0 < unat cid \<and> unat cid \<le> k))"

definition regs_ok :: "bus \<Rightarrow> bool" where
  "regs_ok b \<longleftrightarrow> distinct (regs_of (bus_tasks b)) \<and>
     (\<forall>n \<in> set (regs_of (bus_tasks b)). n < bus_next b \<and> (\<forall>cid. home b cid \<noteq> Some n))"

definition sessions_ok :: "bus \<Rightarrow> bool" where
  "sessions_ok b \<longleftrightarrow>
     (\<forall>cid s. bus_sessions b cid = Some s \<longrightarrow> cs_id (ss_stub s) = cid \<and>
        ss_transport s < bus_next b \<and> ss_chan s < next_chan (bus_core b) \<and>
        ss_taken s \<le> length (buffer (chans (bus_core b) (ss_chan s)))) \<and>
     (\<forall>c1 s1 c2 s2. bus_sessions b c1 = Some s1 \<longrightarrow> bus_sessions b c2 = Some s2 \<longrightarrow>
        ss_transport s1 = ss_transport s2 \<or> ss_chan s1 = ss_chan s2 \<longrightarrow> c1 = c2)"

definition routes_ok :: "bus \<Rightarrow> bool" where
  "routes_ok b \<longleftrightarrow>
     (\<forall>cid h. protocol_server_senders (bus_core b) cid = Some h \<longrightarrow>
        (\<exists>s. bus_sessions b cid = Some s \<and> ss_chan s = h)) \<and>
     (\<forall>t \<in> set (bus_tasks b). task_valid t \<and>
        (\<forall>cid. task_client t = Some cid \<longrightarrow> bus_sessions b cid \<noteq> None)) \<and>
     (\<forall>j pr. pending_responses (bus_core b) j = Some pr \<longrightarrow>
        bus_sessions b (pr_requester_id pr) \<noteq> None)"

definition client_ok :: "client_outcome \<Rightarrow> client_core \<Rightarrow> bool" where
  "client_ok out c \<longleftrightarrow> client_valid c \<and>
     (out = ClientRunning \<longrightarrow> numbered c \<and> dom (callbacks_rsp c) \<subseteq> of_nat ` {1..length (sent c)})"

definition got_ok :: "bus \<Rightarrow> nat \<Rightarrow> nat \<Rightarrow> bool" where
  \<comment> \<open>connection \<open>n\<close> has read \<open>k\<close> of its session's messages\<close>
  "got_ok b n k \<longleftrightarrow>
     (\<forall>cid s. bus_sessions b cid = Some s \<and> ss_transport s = n \<longrightarrow> k \<le> length (cs_sent (ss_stub s))) \<and>
     ((\<forall>cid. home b cid \<noteq> Some n) \<longrightarrow> k = 0)"

definition endpoint_ok :: "bus \<Rightarrow> nat \<Rightarrow> endpoint \<Rightarrow> bool" where
  "endpoint_ok b n e \<longleftrightarrow> client_ok (ep_outcome e) (ep_client e) \<and>
     ep_read e \<le> length (sent (ep_client e)) \<and> got_ok b n (ep_got e)"

definition wired :: "bus \<Rightarrow> bool" where
  "wired b \<longleftrightarrow> core_inv (bus_core b) \<and> ids_ok b \<and> regs_ok b \<and> sessions_ok b \<and> routes_ok b \<and>
     (\<forall>n. bus_endpoints b n \<noteq> None \<longleftrightarrow> n < bus_next b) \<and>
     (\<forall>n e. bus_endpoints b n = Some e \<longrightarrow> endpoint_ok b n e)"

lemma home_simps [simp]:
  "home (b\<lparr>bus_core := c\<rparr>) = home b" "home (b\<lparr>bus_outcome := out\<rparr>) = home b"
  "home (b\<lparr>bus_tasks := ts\<rparr>) = home b" "home (b\<lparr>bus_endpoints := es\<rparr>) = home b"
  "home (b\<lparr>bus_next := k\<rparr>) = home b" "home (b\<lparr>bus_fired := f\<rparr>) = home b"
  by (simp_all add: home_def fun_eq_iff)

lemma home_Some: "home b cid = Some n \<longleftrightarrow> (\<exists>s. bus_sessions b cid = Some s \<and> ss_transport s = n)"
  by (auto simp: home_def)

section \<open>Frames of the components' steps\<close>

lemma core_run_one:
  assumes "core_run rt [Task t] c = (out, c')"
  shows "process_task rt t c = panic \<and> out = Panicked \<and> c' = c \<or>
     (\<exists>r. process_task rt t c = returns (r, c') \<and> out \<noteq> Panicked)"
proof (cases rule: core_run_cases [of rt t c "[]"])
qed (use assms in auto)

lemma grows_frame:
  assumes "grows P c c'"
  shows "next_client_id c' = next_client_id c \<and> next_chan c' = next_chan c \<and>
     (\<forall>a h. protocol_server_senders c' a = Some h \<longrightarrow> protocol_server_senders c a = Some h)"
proof (intro conjI allI impI)
  show "next_client_id c' = next_client_id c" "next_chan c' = next_chan c"
    using assms by (simp_all add: grows_def)
qed (rule grows_senders [OF assms])

lemma process_task_frame:
  assumes "process_task rt t c = returns (r, c')" and "\<forall>n. t \<noteq> Register n"
  shows "next_client_id c' = next_client_id c \<and> next_chan c' = next_chan c \<and>
     (\<forall>a h. protocol_server_senders c' a = Some h \<longrightarrow> protocol_server_senders c a = Some h)"
proof (cases "\<exists>a. t = Deregister a")
  case True
  then obtain a where a: "t = Deregister a" by blast
  then have "c' = snd (deregister_client a c)"
    using assms(1) by (simp add: process_task_def prod.case_eq_if)
  then show ?thesis by simp
next
  case False
  then show ?thesis using process_task_grows [OF assms] by (intro grows_frame) blast
qed

lemma core_task_moves:
  assumes "core_run rt [Task t] c = (out, c')" and "\<forall>n. t \<noteq> Register n"
  shows "task_effect t c c'" and "next_client_id c' = next_client_id c" and "next_chan c' = next_chan c"
    and "\<And>a h. protocol_server_senders c' a = Some h \<Longrightarrow> protocol_server_senders c a = Some h"
proof -
  have "task_effect t c c' \<and> next_client_id c' = next_client_id c \<and> next_chan c' = next_chan c \<and>
     (\<forall>a h. protocol_server_senders c' a = Some h \<longrightarrow> protocol_server_senders c a = Some h)"
    using core_run_one [OF assms(1)] process_task_effect [OF _ assms(2)]
      process_task_frame [OF _ assms(2)]
    by (auto simp: task_effect_def quiet_def)
  then show "task_effect t c c'" "next_client_id c' = next_client_id c" "next_chan c' = next_chan c"
    "\<And>a h. protocol_server_senders c' a = Some h \<Longrightarrow> protocol_server_senders c a = Some h" by auto
qed

lemma core_register_moves:
  assumes "core_run rt [Task (Register n)] c = (out, c')"
  shows "c' = snd (register_client n c)" and "out = Running"
  using assms by (auto simp: process_task_def prod.case_eq_if)

lemma task_effect_buffer: "task_effect t c c' \<Longrightarrow> \<exists>ns. buffer (chans c' k) = buffer (chans c k) @ ns"
  unfolding task_effect_def quiet_def asked_def answered_def emits_def by blast

lemma task_effect_pending:
  "task_effect t c c' \<Longrightarrow> pending_responses c' j = Some pr \<Longrightarrow>
   pending_responses c j = Some pr \<or> task_client t = Some (pr_requester_id pr)"
  unfolding task_effect_def quiet_def asked_def answered_def
  by (auto simp: map_le_def dom_def split: if_splits)
     (metis fun_upd_apply option.inject option.distinct(1))+

end
