(* ===== verification/Bus_Wiring.thy ===== *)
theory Bus_Wiring
  imports Bus_System_Inv
begin

text \<open>
  Every step of the bus keeps its parts wired together (\<open>wired\<close>), as long as the run stays
  within the ids.
\<close>

section \<open>Access to the parts of the invariant\<close>

lemma wiredD:
  assumes "wired b"
  shows "core_inv (bus_core b)" "ids_ok b" "regs_ok b" "sessions_ok b" "routes_ok b"
    "bus_endpoints b n \<noteq> None \<longleftrightarrow> n < bus_next b"
    "bus_endpoints b n = Some e \<Longrightarrow> endpoint_ok b n e"
  using assms unfolding wired_def by blast+

lemma sessions_okD:
  assumes "wired b" "bus_sessions b cid = Some s"
  shows "cs_id (ss_stub s) = cid" "ss_transport s < bus_next b" "ss_chan s < next_chan (bus_core b)"
    "ss_taken s \<le> length (buffer (chans (bus_core b) (ss_chan s)))"
  using wiredD(4) [OF assms(1)] assms(2) unfolding sessions_ok_def by blast+

lemma session_unique:
  assumes "wired b" "bus_sessions b c1 = Some s1" "bus_sessions b c2 = Some s2"
    and "ss_transport s1 = ss_transport s2 \<or> ss_chan s1 = ss_chan s2"
  shows "c1 = c2" "s1 = s2"
proof -
  show "c1 = c2" using wiredD(4) [OF assms(1)] assms(2-4) unfolding sessions_ok_def by blast
  then show "s1 = s2" using assms(2,3) by simp
qed

lemma session_endpoint:
  assumes "wired b" "bus_sessions b cid = Some s"
  obtains e where "bus_endpoints b (ss_transport s) = Some e" "endpoint_ok b (ss_transport s) e"
  using wiredD(6) [OF assms(1), of "ss_transport s"] wiredD(7) [OF assms(1)]
    sessions_okD(2) [OF assms] by blast

lemma queued_task:
  assumes "wired b" "t \<in> set (bus_tasks b)"
  shows "task_valid t" "task_client t = Some cid \<Longrightarrow> bus_sessions b cid \<noteq> None"
  using wiredD(5) [OF assms(1)] assms(2) unfolding routes_ok_def by blast+

lemma task_valid_event: "task_valid t \<longleftrightarrow> wf_event (Task t)"
  by (cases t) simp_all

lemma core_run_one_inv:
  assumes "core_run rt [Task t] c = (out, c')" and "core_inv c" and "task_valid t"
  shows "core_inv c'"
  using core_run_inv_lemma [of "[Task t]" c rt] assms by (simp add: task_valid_event)

section \<open>Steps that open no session\<close>

definition same_session :: "session \<Rightarrow> session \<Rightarrow> bool" where
  "same_session s s' \<longleftrightarrow> cs_id (ss_stub s') = cs_id (ss_stub s) \<and> ss_transport s' = ss_transport s \<and>
     ss_chan s' = ss_chan s \<and> length (cs_sent (ss_stub s)) \<le> length (cs_sent (ss_stub s'))"

definition same_sessions :: "bus \<Rightarrow> bus \<Rightarrow> bool" where
  "same_sessions b b' \<longleftrightarrow>
     (\<forall>cid. rel_option same_session (bus_sessions b cid) (bus_sessions b' cid))"

lemma same_session_refl [simp]: "same_session s s"
  by (simp add: same_session_def)

lemma same_sessions_refl [simp]: "bus_sessions b' = bus_sessions b \<Longrightarrow> same_sessions b b'"
  by (simp add: same_sessions_def option.rel_refl)

lemma same_sessions_upd:
  "bus_sessions b cid = Some s \<Longrightarrow> same_session s s' \<Longrightarrow>
   bus_sessions b' = (bus_sessions b)(cid \<mapsto> s') \<Longrightarrow> same_sessions b b'"
  by (simp add: same_sessions_def option.rel_refl)

lemma same_sessionsD:
  assumes "same_sessions b b'"
  shows "bus_sessions b' cid = Some s' \<Longrightarrow> \<exists>s. bus_sessions b cid = Some s \<and> same_session s s'"
    "bus_sessions b cid = Some s \<Longrightarrow> \<exists>s'. bus_sessions b' cid = Some s' \<and> same_session s s'"
    "bus_sessions b' cid = None \<longleftrightarrow> bus_sessions b cid = None"
  using assms unfolding same_sessions_def
  by (metis option.rel_distinct(1) option.rel_inject(2) not_None_eq option.rel_sel option.sel)+

lemma same_sessions_home: "same_sessions b b' \<Longrightarrow> home b' = home b"
proof
  fix cid
  assume "same_sessions b b'"
  then have "rel_option same_session (bus_sessions b cid) (bus_sessions b' cid)"
    by (simp add: same_sessions_def)
  then show "home b' cid = home b cid"
    by (cases rule: option.rel_cases) (auto simp: home_def same_session_def)
qed

lemma got_ok_frame:
  assumes "got_ok b n k" and "same_sessions b b'"
  shows "got_ok b' n k"
proof -
  have "k \<le> length (cs_sent (ss_stub s'))"
    if s': "bus_sessions b' cid = Some s'" "ss_transport s' = n" for cid s'
  proof -
    obtain s where "bus_sessions b cid = Some s" "same_session s s'"
      using same_sessionsD(1) [OF assms(2) s'(1)] by blast
    moreover have "k \<le> length (cs_sent (ss_stub s))"
      using assms(1) calculation s'(2) unfolding got_ok_def same_session_def by metis
    ultimately show ?thesis unfolding same_session_def by linarith
  qed
  then show ?thesis using assms(1) unfolding got_ok_def same_sessions_home [OF assms(2)] by blast
qed

lemma endpoint_ok_frame:
  "endpoint_ok b n e \<Longrightarrow> same_sessions b b' \<Longrightarrow> endpoint_ok b' n e"
  unfolding endpoint_ok_def by (blast intro: got_ok_frame)

lemma wired_frame:
  assumes w: "wired b" and same: "same_sessions b b'" and core: "core_inv (bus_core b')"
    and ids: "next_client_id (bus_core b') = next_client_id (bus_core b)"
      "next_chan (bus_core b') = next_chan (bus_core b)" "bus_next b' = bus_next b"
      "regs_of (bus_tasks b') = regs_of (bus_tasks b)"
    and taken: "\<And>cid s. bus_sessions b' cid = Some s \<Longrightarrow>
      ss_taken s \<le> length (buffer (chans (bus_core b') (ss_chan s)))"
    and senders: "\<And>a h. protocol_server_senders (bus_core b') a = Some h \<Longrightarrow>
      protocol_server_senders (bus_core b) a = Some h"
    and tasks: "\<And>t. t \<in> set (bus_tasks b') \<Longrightarrow> task_valid t \<and>
      (\<forall>cid. task_client t = Some cid \<longrightarrow> bus_sessions b cid \<noteq> None)"
    and pend: "\<And>j pr. pending_responses (bus_core b') j = Some pr \<Longrightarrow>
      bus_sessions b (pr_requester_id pr) \<noteq> None"
    and ends: "\<And>n. bus_endpoints b' n = None \<longleftrightarrow> bus_endpoints b n = None"
      "\<And>n e. bus_endpoints b' n = Some e \<Longrightarrow> endpoint_ok b' n e"
  shows "wired b'"
proof -
  note d = same_sessionsD [OF same]
  have "ids_ok b'" using wiredD(2) [OF w] by (simp add: ids_ok_def ids d(3))
  moreover have "regs_ok b'"
    using wiredD(3) [OF w] by (simp add: regs_ok_def ids same_sessions_home [OF same])
  moreover have "sessions_ok b'"
  proof -
    have "cs_id (ss_stub s') = cid \<and> ss_transport s' < bus_next b' \<and> ss_chan s' < next_chan (bus_core b')"
      if s': "bus_sessions b' cid = Some s'" for cid s'
    proof -
      obtain s where s: "bus_sessions b cid = Some s" and e: "same_session s s'"
        using d(1) [OF s'] by blast
      show ?thesis using sessions_okD [OF w s] e by (simp add: same_session_def ids)
    qed
    moreover have "c1 = c2" if q: "bus_sessions b' c1 = Some s1'" "bus_sessions b' c2 = Some s2'"
      "ss_transport s1' = ss_transport s2' \<or> ss_chan s1' = ss_chan s2'" for c1 c2 s1' s2'
    proof -
      obtain s1 s2 where s: "bus_sessions b c1 = Some s1" "bus_sessions b c2 = Some s2"
        and e: "same_session s1 s1'" "same_session s2 s2'"
        using d(1) [OF q(1)] d(1) [OF q(2)] by blast
      show ?thesis
        by (rule session_unique(1) [OF w s]) (use q(3) e in \<open>simp add: same_session_def\<close>)
    qed
    ultimately show ?thesis using taken unfolding sessions_ok_def by blast
  qed
  moreover have "routes_ok b'"
  proof -
    have "\<exists>s'. bus_sessions b' cid = Some s' \<and> ss_chan s' = h"
      if h: "protocol_server_senders (bus_core b') cid = Some h" for cid h
    proof -
      obtain s where s: "bus_sessions b cid = Some s" "ss_chan s = h"
        using wiredD(5) [OF w] senders [OF h] unfolding routes_ok_def by blast
      then show ?thesis using d(2) [OF s(1)] by (auto simp: same_session_def)
    qed
    then show ?thesis using tasks pend d(3) unfolding routes_ok_def by blast
  qed
  moreover have "bus_endpoints b' n \<noteq> None \<longleftrightarrow> n < bus_next b'" for n
    using wiredD(6) [OF w, of n] ends(1) [of n] by (simp add: ids)
  ultimately show ?thesis using core ends(2) unfolding wired_def by blast
qed

lemma regs_of_unregister: "\<forall>n. t \<noteq> Register n \<Longrightarrow> regs_of [t] = []"
  by (cases t) simp_all

lemma wired_core_task:
  assumes w: "wired b" and t: "bus_tasks b = t # ts" "\<forall>n. t \<noteq> Register n"
    and run: "core_run rt [Task t] (bus_core b) = (out, c)"
  shows "wired (b\<lparr>bus_core := c, bus_outcome := out, bus_tasks := ts\<rparr>)"
proof (rule wired_frame [OF w])
  note m = core_task_moves [OF run t(2)]
  have known: "task_valid t" "task_client t = Some cid \<Longrightarrow> bus_sessions b cid \<noteq> None" for cid
    using queued_task [OF w, of t] t(1) by simp_all
  show "regs_of (bus_tasks (b\<lparr>bus_core := c, bus_outcome := out, bus_tasks := ts\<rparr>)) = regs_of (bus_tasks b)"
    using regs_of_unregister [OF t(2)] t(1) queue_simps(2) [of "[t]" ts] by simp
  show "core_inv (bus_core (b\<lparr>bus_core := c, bus_outcome := out, bus_tasks := ts\<rparr>))"
    using core_run_one_inv [OF run wiredD(1) [OF w] known(1)] by simp
  show "ss_taken s \<le> length (buffer (chans (bus_core (b\<lparr>bus_core := c, bus_outcome := out, bus_tasks := ts\<rparr>)) (ss_chan s)))"
    if "bus_sessions (b\<lparr>bus_core := c, bus_outcome := out, bus_tasks := ts\<rparr>) cid = Some s" for cid s
  proof -
    obtain ns where "buffer (chans c (ss_chan s)) = buffer (chans (bus_core b) (ss_chan s)) @ ns"
      using task_effect_buffer [OF m(1), of "ss_chan s"] by blast
    moreover have "ss_taken s \<le> length (buffer (chans (bus_core b) (ss_chan s)))"
      using sessions_okD(4) [OF w] that by simp
    ultimately show ?thesis by simp
  qed
  show "bus_sessions b (pr_requester_id pr) \<noteq> None"
    if p: "pending_responses (bus_core (b\<lparr>bus_core := c, bus_outcome := out, bus_tasks := ts\<rparr>)) j = Some pr" for j pr
  proof -
    have "pending_responses c j = Some pr" using p by simp
    from task_effect_pending [OF m(1) this] show ?thesis
      using wiredD(5) [OF w] known(2) unfolding routes_ok_def by blast
  qed
  show "task_valid u \<and> (\<forall>cid. task_client u = Some cid \<longrightarrow> bus_sessions b cid \<noteq> None)"
    if "u \<in> set (bus_tasks (b\<lparr>bus_core := c, bus_outcome := out, bus_tasks := ts\<rparr>))" for u
    using queued_task [OF w, of u] t(1) that by simp
  show "endpoint_ok (b\<lparr>bus_core := c, bus_outcome := out, bus_tasks := ts\<rparr>) n e"
    if "bus_endpoints (b\<lparr>bus_core := c, bus_outcome := out, bus_tasks := ts\<rparr>) n = Some e" for n e
    by (rule endpoint_ok_frame [OF wiredD(7) [OF w]]) (use that in simp_all)
qed (use core_task_moves [OF run t(2)] in simp_all)

lemma wired_timer:
  assumes w: "wired b"
  shows "wired (b\<lparr>bus_fired := f, bus_tasks := bus_tasks b @ [RequestTimeout i]\<rparr>)" (is "wired ?b")
proof (rule wired_frame [OF w])
  show "task_valid u \<and> (\<forall>cid. task_client u = Some cid \<longrightarrow> bus_sessions b cid \<noteq> None)"
    if "u \<in> set (bus_tasks ?b)" for u
    using queued_task [OF w, of u] that by auto
  show "endpoint_ok ?b n e" if "bus_endpoints ?b n = Some e" for n e
    by (rule endpoint_ok_frame [OF wiredD(7) [OF w]]) (use that in simp_all)
  show "bus_sessions b (pr_requester_id pr) \<noteq> None"
    if "pending_responses (bus_core ?b) j = Some pr" for j pr
    using wiredD(5) [OF w] that unfolding routes_ok_def by simp
qed (use wiredD(1) [OF w] sessions_okD(4) [OF w] in simp_all)

lemma wired_outcome:
  assumes w: "wired b"
  shows "wired (b\<lparr>bus_outcome := out\<rparr>)" (is "wired ?b")
proof (rule wired_frame [OF w])
  show "endpoint_ok ?b n e" if "bus_endpoints ?b n = Some e" for n e
    by (rule endpoint_ok_frame [OF wiredD(7) [OF w]]) (use that in simp_all)
  show "bus_sessions b (pr_requester_id pr) \<noteq> None"
    if "pending_responses (bus_core ?b) j = Some pr" for j pr
    using wiredD(5) [OF w] that unfolding routes_ok_def by simp
qed (use wiredD(1) [OF w] sessions_okD(4) [OF w] queued_task [OF w] in simp_all)

lemma wired_endpoint:
  \<comment> \<open>a step of a client\<close>
  assumes w: "wired b" and n: "bus_endpoints b n = Some e"
    and ok: "endpoint_ok b n e'"
  shows "wired (b\<lparr>bus_endpoints := (bus_endpoints b)(n \<mapsto> e')\<rparr>)" (is "wired ?b")
proof (rule wired_frame [OF w])
  show "endpoint_ok ?b k f" if "bus_endpoints ?b k = Some f" for k f
  proof (rule endpoint_ok_frame)
    show "endpoint_ok b k f"
      using that ok wiredD(7) [OF w, of k f] by (cases "k = n") simp_all
  qed simp
  show "bus_sessions b (pr_requester_id pr) \<noteq> None"
    if "pending_responses (bus_core ?b) j = Some pr" for j pr
    using wiredD(5) [OF w] that unfolding routes_ok_def by simp
qed (use wiredD(1) [OF w] sessions_okD(4) [OF w] queued_task [OF w] n in simp_all)

lemma wired_sink_breaks:
  assumes "wired b" and "bus_endpoints b n = Some e"
  shows "wired (b\<lparr>bus_endpoints := (bus_endpoints b)(n \<mapsto>
     e\<lparr>ep_client := (ep_client e)\<lparr>sink_error := x\<rparr>\<rparr>)\<rparr>)"
proof (rule wired_endpoint [OF assms])
  have "client_ok (ep_outcome e) ((ep_client e)\<lparr>sink_error := x\<rparr>)"
    if "client_ok (ep_outcome e) (ep_client e)"
    using that by (auto simp: client_ok_def elim: client_valid_cong numbered_cong)
  then show "endpoint_ok b n (e\<lparr>ep_client := (ep_client e)\<lparr>sink_error := x\<rparr>\<rparr>)"
    using wiredD(7) [OF assms] by (simp add: endpoint_ok_def)
qed

lemma wired_caller_drops:
  assumes "wired b" and "bus_endpoints b n = Some e"
  shows "wired (b\<lparr>bus_endpoints := (bus_endpoints b)(n \<mapsto> e\<lparr>ep_client := drop_receiver r (ep_client e)\<rparr>)\<rparr>)"
proof (rule wired_endpoint [OF assms])
  have "client_ok (ep_outcome e) (drop_receiver r (ep_client e))"
    if "client_ok (ep_outcome e) (ep_client e)"
    using that by (auto simp: client_ok_def elim: client_valid_cong numbered_cong)
  then show "endpoint_ok b n (e\<lparr>ep_client := drop_receiver r (ep_client e)\<rparr>)"
    using wiredD(7) [OF assms] by (simp add: endpoint_ok_def)
qed

section \<open>A session's stub\<close>

lemma stub_turn:
  assumes "stub_serve [e] s = (r, s')" and "cs_id s = cid"
  shows "cs_id s' = cid"
    "\<exists>ts. cs_tasks s' = cs_tasks s @ ts \<and>
      (ts = [] \<or> ts = [Deregister cid] \<or> (\<exists>m. e = FromTransport (Some (Inr m)) \<and> ts = [Message cid m]))"
    "\<exists>ms. cs_sent s' = cs_sent s @ ms \<and> (ms = [] \<or> (\<exists>m. e = FromCore (Some m) \<and> ms = [m]))"
proof -
  have "cs_id s' = cid \<and> (\<exists>ts. cs_tasks s' = cs_tasks s @ ts \<and>
      (ts = [] \<or> ts = [Deregister cid] \<or> (\<exists>m. e = FromTransport (Some (Inr m)) \<and> ts = [Message cid m]))) \<and>
    (\<exists>ms. cs_sent s' = cs_sent s @ ms \<and> (ms = [] \<or> (\<exists>m. e = FromCore (Some m) \<and> ms = [m])))"
    using assms
    by (auto simp: stub_serve_def stub_step_def send_task_def stub_transport_send_def Let_def
        split: stub_event.splits option.splits sum.splits if_splits)
  then show "cs_id s' = cid"
    "\<exists>ts. cs_tasks s' = cs_tasks s @ ts \<and>
      (ts = [] \<or> ts = [Deregister cid] \<or> (\<exists>m. e = FromTransport (Some (Inr m)) \<and> ts = [Message cid m]))"
    "\<exists>ms. cs_sent s' = cs_sent s @ ms \<and> (ms = [] \<or> (\<exists>m. e = FromCore (Some m) \<and> ms = [m]))"
    by blast+
qed

lemma core_inv_close_chan: "core_inv c \<Longrightarrow> h < next_chan c \<Longrightarrow> core_inv (close_chan h c)"
  by (simp add: core_inv_def close_chan_def)

lemma close_chan_simps [simp]:
  "next_client_id (close_chan h c) = next_client_id c" "next_chan (close_chan h c) = next_chan c"
  "protocol_server_senders (close_chan h c) = protocol_server_senders c"
  "pending_responses (close_chan h c) = pending_responses c"
  "buffer (chans (close_chan h c) k) = buffer (chans c k)"
  by (simp_all add: close_chan_def)

lemma stub_reads_offered:
  assumes "stub_offered b s e" and "bus_endpoints b (ss_transport s) = Some p"
    and "ep_read p \<le> length (sent (ep_client p))"
  shows "ep_read p + stub_reads e \<le> length (sent (ep_client p))"
  using assms by (cases "(b, s, e)" rule: stub_offered.cases) (auto simp: stub_reads_def)

lemma stub_takes_offered:
  assumes "stub_offered b s e" and "ss_taken s \<le> length (buffer (chans (bus_core b) (ss_chan s)))"
  shows "ss_taken s + stub_takes e \<le> length (buffer (chans (bus_core b) (ss_chan s)))"
  using assms by (cases "(b, s, e)" rule: stub_offered.cases) (auto simp: stub_takes_def)

lemma after_stub_parts:
  assumes w: "wired b" and s: "bus_sessions b cid = Some s" and off: "stub_offered b s e"
  obtains r stub ts ms p where "stub_serve [e] (ss_stub s) = (r, stub)"
    and "bus_endpoints b (ss_transport s) = Some p"
    and "after_stub cid s e b =
      b\<lparr>bus_sessions := (bus_sessions b)(cid \<mapsto>
          s\<lparr>ss_stub := stub, ss_serving := (r = None), ss_taken := ss_taken s + stub_takes e\<rparr>),
        bus_endpoints := (bus_endpoints b)(ss_transport s \<mapsto> p\<lparr>ep_read := ep_read p + stub_reads e\<rparr>),
        bus_tasks := bus_tasks b @ ts,
        bus_core := (if r = None then bus_core b else close_chan (ss_chan s) (bus_core b))\<rparr>"
    and "cs_id stub = cid" and "cs_sent stub = cs_sent (ss_stub s) @ ms"
    and "ts = [] \<or> ts = [Deregister cid] \<or> (\<exists>m. e = FromTransport (Some (Inr m)) \<and>
      m \<in> set (sent (ep_client p)) \<and> ep_read p < length (sent (ep_client p)) \<and>
      m = sent (ep_client p) ! ep_read p \<and> ts = [Message cid m])"
    and "ms = [] \<or> (\<exists>m. e = FromCore (Some m) \<and> ms = [m])"
proof -
  obtain p where p: "bus_endpoints b (ss_transport s) = Some p"
    using session_endpoint [OF w s] by blast
  obtain r stub where r: "stub_serve [e] (ss_stub s) = (r, stub)" by fastforce
  note t = stub_turn [OF r sessions_okD(1) [OF w s]]
  obtain ts where ts: "cs_tasks stub = cs_tasks (ss_stub s) @ ts"
    "ts = [] \<or> ts = [Deregister cid] \<or> (\<exists>m. e = FromTransport (Some (Inr m)) \<and> ts = [Message cid m])"
    using t(2) by blast
  obtain ms where ms: "cs_sent stub = cs_sent (ss_stub s) @ ms"
    "ms = [] \<or> (\<exists>m. e = FromCore (Some m) \<and> ms = [m])"
    using t(3) by blast
  have "ts = [] \<or> ts = [Deregister cid] \<or> (\<exists>m. e = FromTransport (Some (Inr m)) \<and>
      m \<in> set (sent (ep_client p)) \<and> ep_read p < length (sent (ep_client p)) \<and>
      m = sent (ep_client p) ! ep_read p \<and> ts = [Message cid m])"
    using ts(2) off p by auto
  then show ?thesis
    by (intro that [OF r p _ t(1) ms(1) _ ms(2)]) (simp_all add: after_stub_def r ts(1) p)
qed

lemma after_stub_same:
  assumes w: "wired b" and s: "bus_sessions b cid = Some s" and off: "stub_offered b s e"
  shows "same_sessions b (after_stub cid s e b)"
proof -
  obtain r stub ts ms p where "stub_serve [e] (ss_stub s) = (r, stub)"
    and "bus_endpoints b (ss_transport s) = Some p"
    and b': "after_stub cid s e b =
      b\<lparr>bus_sessions := (bus_sessions b)(cid \<mapsto>
          s\<lparr>ss_stub := stub, ss_serving := (r = None), ss_taken := ss_taken s + stub_takes e\<rparr>),
        bus_endpoints := (bus_endpoints b)(ss_transport s \<mapsto> p\<lparr>ep_read := ep_read p + stub_reads e\<rparr>),
        bus_tasks := bus_tasks b @ ts,
        bus_core := (if r = None then bus_core b else close_chan (ss_chan s) (bus_core b))\<rparr>"
    and i: "cs_id stub = cid" and ms: "cs_sent stub = cs_sent (ss_stub s) @ ms"
    by (rule after_stub_parts [OF assms])
  show ?thesis
    by (rule same_sessions_upd [OF s, of
        "s\<lparr>ss_stub := stub, ss_serving := (r = None), ss_taken := ss_taken s + stub_takes e\<rparr>"])
       (use i ms sessions_okD(1) [OF w s] in \<open>simp_all add: same_session_def b'\<close>)
qed

lemma wired_stub:
  assumes w: "wired b" and s: "bus_sessions b cid = Some s" and off: "stub_offered b s e"
  shows "wired (after_stub cid s e b)"
proof (rule wired_frame [OF w])
  obtain r stub ts ms p where r: "stub_serve [e] (ss_stub s) = (r, stub)"
    and p: "bus_endpoints b (ss_transport s) = Some p"
    and b': "after_stub cid s e b =
      b\<lparr>bus_sessions := (bus_sessions b)(cid \<mapsto>
          s\<lparr>ss_stub := stub, ss_serving := (r = None), ss_taken := ss_taken s + stub_takes e\<rparr>),
        bus_endpoints := (bus_endpoints b)(ss_transport s \<mapsto> p\<lparr>ep_read := ep_read p + stub_reads e\<rparr>),
        bus_tasks := bus_tasks b @ ts,
        bus_core := (if r = None then bus_core b else close_chan (ss_chan s) (bus_core b))\<rparr>"
    and "cs_id stub = cid" "cs_sent stub = cs_sent (ss_stub s) @ ms"
    and ts: "ts = [] \<or> ts = [Deregister cid] \<or> (\<exists>m. e = FromTransport (Some (Inr m)) \<and>
      m \<in> set (sent (ep_client p)) \<and> ep_read p < length (sent (ep_client p)) \<and>
      m = sent (ep_client p) ! ep_read p \<and> ts = [Message cid m])"
    by (rule after_stub_parts [OF assms])
  let ?b = "after_stub cid s e b"
  note k = sessions_okD [OF w s]
  have pok: "endpoint_ok b (ss_transport s) p" by (rule wiredD(7) [OF w p])
  show same: "same_sessions b ?b" by (rule after_stub_same [OF assms])
  show "core_inv (bus_core ?b)"
    using wiredD(1) [OF w] core_inv_close_chan k(3) by (simp add: b')
  show "ss_taken s' \<le> length (buffer (chans (bus_core ?b) (ss_chan s')))"
    if "bus_sessions ?b c = Some s'" for c s'
    using that stub_takes_offered [OF off k(4)] sessions_okD(4) [OF w, of c s']
    by (auto simp: b' split: if_splits)
  show "regs_of (bus_tasks ?b) = regs_of (bus_tasks b)" using ts by (auto simp: b')
  show "task_valid u \<and> (\<forall>c. task_client u = Some c \<longrightarrow> bus_sessions b c \<noteq> None)"
    if "u \<in> set (bus_tasks ?b)" for u
  proof -
    have "\<forall>m \<in> set (sent (ep_client p)). wf_client_msg m"
      using pok by (simp add: endpoint_ok_def client_ok_def client_valid_def)
    then show ?thesis using that ts s queued_task [OF w, of u] by (auto simp: b')
  qed
  show "endpoint_ok ?b n q" if "bus_endpoints ?b n = Some q" for n q
  proof (rule endpoint_ok_frame [OF _ same])
    have "endpoint_ok b (ss_transport s) (p\<lparr>ep_read := ep_read p + stub_reads e\<rparr>)"
      using pok stub_reads_offered [OF off p] by (simp add: endpoint_ok_def)
    then show "endpoint_ok b n q"
      using that wiredD(7) [OF w, of n q] by (cases "n = ss_transport s") (simp_all add: b')
  qed
  show "bus_endpoints ?b n = None \<longleftrightarrow> bus_endpoints b n = None" for n
    using p by (simp add: b')
  show "bus_sessions b (pr_requester_id pr) \<noteq> None"
    if "pending_responses (bus_core ?b) j = Some pr" for j pr
    using wiredD(5) [OF w] that unfolding routes_ok_def by (simp add: b' split: if_splits)
  show "protocol_server_senders (bus_core b) a = Some h"
    if "protocol_server_senders (bus_core ?b) a = Some h" for a h
    using that by (simp add: b' split: if_splits)
qed (simp_all add: after_stub_def split: prod.split)

section \<open>A client\<close>

definition sends_on :: "client_core \<Rightarrow> client_core \<Rightarrow> bool" where
  "sends_on c c' \<longleftrightarrow> (\<exists>ns. sent c' = sent c @ ns)"

lemma client_send_on:
  assumes "client_send task c = returns (r, c')"
  shows "sends_on c c'"
proof -
  obtain q c1 where b: "before_send task c = returns (q, c1)"
    and c': "(r, c') = (case q of Inl e \<Rightarrow> (Inl e, c1) | Inr m \<Rightarrow> transport_send m c1)"
    using assms by (auto simp: client_send_def bus_simps)
  show ?thesis using c' before_send_id [OF b]
    by (cases q) (auto simp: sends_on_def transport_send_def split: option.splits)
qed

interpretation sending_client: client_relation sends_on
proof
  show "sends_on a c" if "sends_on a b" "sends_on b c" for a b c
    using that unfolding sends_on_def by (metis append.assoc)
qed (auto simp: sends_on_def dest: client_send_on [unfolded sends_on_def])

lemma after_receive_on:
  assumes "after_receive ord m c = returns (r, c')"
  shows "sends_on c c'"
  using assms sending_client.notify_rel by (cases "content m")
    (auto simp: after_receive_def sends_on_def split: option.splits)

lemma client_step_on:
  assumes "client_step ord ev c = (out, c')"
  shows "sends_on c c'"
proof (cases ev)
  case (FromServer q)
  show ?thesis
  proof (cases q)
    case (Inr m)
    then show ?thesis using assms FromServer after_receive_on [of ord m c] sending_client.refl
      by (cases "after_receive ord m c") (auto simp: client_step_def split: sum.splits)
  qed (use assms FromServer sending_client.refl in \<open>auto simp: client_step_def\<close>)
next
  case (FromClient t)
  then show ?thesis using assms client_send_on [of t c] sending_client.refl
    by (cases "client_send t c") (auto simp: client_step_def split: sum.splits if_splits)
next
  case KeepAliveTick
  then show ?thesis using assms client_send_on [of TaskKeepAlive c] sending_client.refl
    by (cases "client_send TaskKeepAlive c") (auto simp: client_step_def split: sum.splits)
qed (use assms sending_client.refl in \<open>auto simp: client_step_def\<close>)

lemma client_effect_ids:
  assumes "client_effect ev c c'" and "numbered c" and "dom (callbacks_rsp c) \<subseteq> of_nat ` {1..length (sent c)}"
  shows "dom (callbacks_rsp c') \<subseteq> of_nat ` {1..length (sent c')}"
proof -
  have calm: "dom (callbacks_rsp c') \<subseteq> of_nat ` {1..length (sent c')}" if "calm c c'"
    using that assms(3) unfolding calm_def
    by (metis atLeastatMost_subset_iff image_mono le_add1 length_append order_refl order_trans)
  show ?thesis
  proof (cases ev)
    case (FromServer q)
    then show ?thesis using assms(1,3) calm
      by (auto simp: client_effect_def split: sum.splits protocol_server.splits)
  next
    case (FromClient t)
    show ?thesis
    proof (cases t)
      case (TaskReq q a h)
      then have "sent c' = sent c @ [Msg (cl_next_msg_id c + 1) (ClientReq q)]"
        "dom (callbacks_rsp c') = insert (of_nat (Suc (length (sent c)))) (dom (callbacks_rsp c))"
        using assms(1,2) FromClient by (auto simp: client_effect_def numbered_def add.commute)
      then show ?thesis using assms(3) by fastforce
    qed (use assms(1) FromClient calm in \<open>simp_all add: client_effect_def\<close>)
  qed (use assms(1) calm in \<open>simp_all add: client_effect_def\<close>)
qed

lemma client_step_ok:
  assumes "client_step ord ev c = (out, c')" and "client_ok ClientRunning c" and "wf_client_event ev"
  shows "client_ok out c'"
  using client_step_valid [OF assms(1) _ assms(3)] client_step_numbered [of ord ev c c']
    client_effect_ids [OF client_step_effect, of ord ev c c'] assms(1,2)
  unfolding client_ok_def by blast

lemma client_offered_wf: "client_offered allowed b n e ev \<Longrightarrow> wf_client_event ev"
  by (cases ev) simp_all

lemma client_gets_offered:
  assumes w: "wired b" and off: "client_offered allowed b n e ev" and ok: "got_ok b n (ep_got e)"
  shows "got_ok b n (ep_got e + client_gets ev)"
proof (cases "client_gets ev = 0")
  case False
  then obtain m where m: "ev = FromServer (Inr m)" "client_gets ev = 1"
    by (auto simp: client_gets_def split: client_event.splits sum.splits)
  then obtain cid s where s: "bus_sessions b cid = Some s" "ss_transport s = n"
    "ep_got e < length (cs_sent (ss_stub s))"
    using off by auto
  moreover have "s' = s" if "bus_sessions b c' = Some s'" "ss_transport s' = n" for c' s'
    using session_unique(2) [OF w that(1) s(1)] that(2) s(2) by simp
  ultimately show ?thesis using m(2) unfolding got_ok_def home_Some by fastforce
qed (use ok in simp)

lemma wired_client:
  assumes w: "wired b" and n: "bus_endpoints b n = Some e" and run: "ep_outcome e = ClientRunning"
    and off: "client_offered allowed b n e ev"
  shows "wired (after_client ord n e ev b)"
proof -
  obtain out c where s: "client_step ord ev (ep_client e) = (out, c)" by fastforce
  have ok: "endpoint_ok b n e" by (rule wiredD(7) [OF w n])
  have "endpoint_ok b n (e\<lparr>ep_client := c, ep_outcome := out, ep_got := ep_got e + client_gets ev,
      ep_services := services_after ev (ep_services e)\<rparr>)"
    using ok run client_step_ok [OF s _ client_offered_wf [OF off]] client_gets_offered [OF w off]
      client_step_on [OF s]
    by (auto simp: endpoint_ok_def sends_on_def)
  then show ?thesis using wired_endpoint [OF w n] by (simp add: after_client_def s)
qed

end
