(* ===== verification/Bus_Connect.thy ===== *)
theory Bus_Connect
  imports Bus_Wiring
begin

text \<open>
  New connections: the acceptor's task, and the session the server opens for it, keep the
  bus wired. A new session gets an id and a channel no other has.
\<close>

lemma transport_below: "wired b \<Longrightarrow> bus_sessions b cid = Some s \<Longrightarrow> ss_transport s < bus_next b"
  by (rule sessions_okD(2))

lemma home_below: "wired b \<Longrightarrow> home b cid = Some n \<Longrightarrow> n < bus_next b"
  by (auto simp: home_Some transport_below)

lemma wired_connect:
  assumes w: "wired b" and n: "n = bus_next b"
  shows "wired (b\<lparr>bus_endpoints := (bus_endpoints b)(n \<mapsto> new_endpoint (client_start acks rsps pubs reqs)),
    bus_tasks := bus_tasks b @ [Register n], bus_next := n + 1\<rparr>)" (is "wired ?b")
proof -
  note p = wiredD [OF w]
  have fresh: "home b cid \<noteq> Some n" for cid
    using home_below [OF w, of cid n] n by auto
  have "ids_ok ?b" using p(2) n by (simp add: ids_ok_def)
  moreover have "regs_ok ?b"
  proof -
    have "distinct (regs_of (bus_tasks b)) \<and> n \<notin> set (regs_of (bus_tasks b))"
      using p(3) n unfolding regs_ok_def by auto
    moreover have "k < n + 1 \<and> (\<forall>cid. home b cid \<noteq> Some k)"
      if "k \<in> set (regs_of (bus_tasks b))" for k
      using p(3) n that unfolding regs_ok_def by fastforce
    ultimately show ?thesis using fresh by (simp add: regs_ok_def)
  qed
  moreover have "sessions_ok ?b"
    unfolding sessions_ok_def
  proof (intro conjI allI impI)
    fix cid s assume "bus_sessions ?b cid = Some s"
    then have s: "bus_sessions b cid = Some s" by simp
    show "cs_id (ss_stub s) = cid" "ss_transport s < bus_next ?b" "ss_chan s < next_chan (bus_core ?b)"
      "ss_taken s \<le> length (buffer (chans (bus_core ?b) (ss_chan s)))"
      using sessions_okD [OF w s] n by simp_all
  next
    fix c1 s1 c2 s2
    assume "bus_sessions ?b c1 = Some s1" "bus_sessions ?b c2 = Some s2"
      "ss_transport s1 = ss_transport s2 \<or> ss_chan s1 = ss_chan s2"
    then show "c1 = c2" using session_unique(1) [OF w, of c1 s1 c2 s2] by simp
  qed
  moreover have "routes_ok ?b"
  proof -
    have "task_valid t \<and> (\<forall>cid. task_client t = Some cid \<longrightarrow> bus_sessions b cid \<noteq> None)"
      if "t \<in> set (bus_tasks b @ [Register n])" for t
      using that queued_task [OF w, of t] by auto
    moreover have "routes_ok b" by (rule p(5))
    ultimately show ?thesis unfolding routes_ok_def by simp
  qed
  moreover have "endpoint_ok ?b k e" if e: "bus_endpoints ?b k = Some e" for k e
  proof (rule endpoint_ok_frame)
    have "got_ok b n 0" by (simp add: got_ok_def)
    then have "endpoint_ok b n (new_endpoint (client_start acks rsps pubs reqs))"
      using client_valid_start
      by (simp add: endpoint_ok_def client_ok_def new_endpoint_def numbered_def client_start_def)
    then show "endpoint_ok b k e" using e p(7) by (cases "k = n") simp_all
  qed simp
  moreover have "bus_endpoints ?b k \<noteq> None \<longleftrightarrow> k < bus_next ?b" for k
    using p(6) [of k] n by (cases "k = n") auto
  ultimately show ?thesis using p(1) unfolding wired_def by simp
qed

section \<open>Registration\<close>

definition opened :: "nat \<Rightarrow> nat \<Rightarrow> core \<Rightarrow> session" where
  "opened n now c = \<lparr>ss_stub = stub_start (next_client_id c) now, ss_serving = True,
     ss_transport = n, ss_chan = next_chan c, ss_taken = 0\<rparr>"

lemma opened_simps [simp]:
  "ss_transport (opened n now c) = n" "ss_chan (opened n now c) = next_chan c"
  "ss_taken (opened n now c) = 0" "cs_id (ss_stub (opened n now c)) = next_client_id c"
  "cs_sent (ss_stub (opened n now c)) = []"
  by (simp_all add: opened_def stub_start_def)

lemma register_frame:
  fixes n :: nat and c :: core
  defines "c' \<equiv> snd (register_client n c)"
  shows "next_client_id c' = next_client_id c + 1" "next_chan c' = next_chan c + 1"
    "pending_responses c' = pending_responses c"
    "protocol_server_senders c' = (protocol_server_senders c)(next_client_id c \<mapsto> next_chan c)"
    "buffer (chans c' h) = (if h = next_chan c then [] else buffer (chans c h))"
  by (simp_all add: c'_def register_client_def drop_sender_def new_chan_def Let_def split: option.split)

lemma unat_small: "n < 2 ^ 32 \<Longrightarrow> unat (of_nat n :: u32) = n"
  by (simp add: unat_of_nat take_bit_nat_eq_self)

lemma fresh_id:
  assumes "wired b" and "within_ids b" and "bus_tasks b = Register n # ts"
  obtains k where "next_client_id (bus_core b) = of_nat (Suc k)" "Suc k < 2 ^ 32"
    "unat (next_client_id (bus_core b)) = Suc k"
    "k + length (regs_of (bus_tasks b)) = bus_next b"
    "\<forall>cid. bus_sessions b cid \<noteq> None \<longrightarrow> 0 < unat cid \<and> unat cid \<le> k"
    "bus_sessions b (next_client_id (bus_core b)) = None"
proof -
  obtain k where k: "next_client_id (bus_core b) = of_nat (Suc k)"
    "k + length (regs_of (bus_tasks b)) = bus_next b"
    "\<forall>cid. bus_sessions b cid \<noteq> None \<longrightarrow> 0 < unat cid \<and> unat cid \<le> k"
    using wiredD(2) [OF assms(1)] unfolding ids_ok_def by blast
  have lt: "Suc k < 2 ^ 32" using k(2) assms(2,3) by (simp add: within_ids_def)
  then have u: "unat (next_client_id (bus_core b)) = Suc k"
    unfolding k(1) by (rule unat_small)
  have "bus_sessions b (next_client_id (bus_core b)) = None" using k(3) u by fastforce
  then show ?thesis using that k lt u by blast
qed

lemma home_opened:
  "home (b'\<lparr>bus_sessions := (bus_sessions b)(cid \<mapsto> opened n now c)\<rparr>) = (home b)(cid \<mapsto> n)"
  by (auto simp: home_def)

lemma wired_register:
  assumes w: "wired b" and wi: "within_ids b" and t: "bus_tasks b = Register n # ts"
  shows "wired (b\<lparr>bus_core := snd (register_client n (bus_core b)), bus_outcome := out, bus_tasks := ts,
     bus_sessions := open_session (Register n) now b\<rparr>)" (is "wired ?b")
proof -
  let ?c = "bus_core b" and ?cid = "next_client_id (bus_core b)"
  note p = wiredD [OF w] and r = register_frame [of n "bus_core b"]
  obtain k where k: "?cid = of_nat (Suc k)" "Suc k < 2 ^ 32" "unat ?cid = Suc k"
    "k + length (regs_of (bus_tasks b)) = bus_next b"
    "\<forall>cid. bus_sessions b cid \<noteq> None \<longrightarrow> 0 < unat cid \<and> unat cid \<le> k"
    "bus_sessions b ?cid = None"
    by (rule fresh_id [OF w wi t])
  have ss: "bus_sessions ?b = (bus_sessions b)(?cid \<mapsto> opened n now ?c)" by (simp add: opened_def)
  have old: "bus_sessions ?b cid = Some s \<Longrightarrow> (cid, s) = (?cid, opened n now ?c) \<or>
      cid \<noteq> ?cid \<and> bus_sessions b cid = Some s" for cid s
    unfolding ss by (auto split: if_splits)
  have kept: "bus_sessions b cid \<noteq> None \<Longrightarrow> bus_sessions ?b cid = bus_sessions b cid" for cid
    using k(6) unfolding ss by auto
  have hm: "home ?b = (home b)(?cid \<mapsto> n)" by (auto simp: home_def)
  have nn: "n < bus_next b" "home b cid \<noteq> Some n" for cid
    using p(3) t unfolding regs_ok_def by simp_all
  have "ids_ok ?b"
    unfolding ids_ok_def
  proof (intro exI [of _ "Suc k"] conjI allI impI)
    fix cid assume "bus_sessions ?b cid \<noteq> None"
    then have "0 < unat cid \<and> unat cid \<le> Suc k"
      using k(3) k(5) unfolding ss by (auto split: if_splits)
    then show "0 < unat cid" "unat cid \<le> Suc k" by simp_all
  qed (use r k(1,4) t in simp_all)
  moreover have "regs_ok ?b"
  proof -
    have "distinct (n # regs_of ts)" "\<forall>m \<in> set (regs_of ts). m < bus_next b \<and> (\<forall>cid. home b cid \<noteq> Some m)"
      using p(3) t unfolding regs_ok_def by simp_all
    then show ?thesis unfolding regs_ok_def hm by auto
  qed
  moreover have "sessions_ok ?b"
  proof -
    have one: "cs_id (ss_stub s) = cid \<and> ss_transport s < bus_next b \<and> ss_chan s < next_chan ?c + 1 \<and>
        ss_taken s \<le> length (buffer (chans (snd (register_client n ?c)) (ss_chan s)))"
      if s: "bus_sessions ?b cid = Some s" for cid s
      using old [OF s] nn(1) sessions_okD [OF w, of cid s] r(5) [of "ss_chan s"] by auto
    have two: "c1 = c2"
      if q: "bus_sessions ?b c1 = Some s1" "bus_sessions ?b c2 = Some s2"
        "ss_transport s1 = ss_transport s2 \<or> ss_chan s1 = ss_chan s2" for c1 c2 s1 s2
    proof -
      have away: "ss_transport s \<noteq> n \<and> ss_chan s \<noteq> next_chan ?c" if "bus_sessions b cid = Some s" for cid s
        using that nn(2) [of cid] sessions_okD(3) [OF w that] by (auto simp: home_Some)
      show ?thesis
        using old [OF q(1)] old [OF q(2)] q(3) away [of c1 s1] away [of c2 s2]
          session_unique(1) [OF w, of c1 s1 c2 s2] by auto
    qed
    show ?thesis
      unfolding sessions_ok_def
    proof (intro conjI allI impI)
      fix cid s assume "bus_sessions ?b cid = Some s"
      from one [OF this] r(2)
      show "cs_id (ss_stub s) = cid" "ss_transport s < bus_next ?b" "ss_chan s < next_chan (bus_core ?b)"
        "ss_taken s \<le> length (buffer (chans (bus_core ?b) (ss_chan s)))" by simp_all
    qed (rule two)
  qed
  moreover have "routes_ok ?b"
  proof -
    have "\<exists>s. bus_sessions ?b cid = Some s \<and> ss_chan s = h"
      if "protocol_server_senders (bus_core ?b) cid = Some h" for cid h
    proof (cases "cid = ?cid")
      case True
      then show ?thesis using that r(4) unfolding ss by simp
    next
      case False
      then have "protocol_server_senders ?c cid = Some h" using that r(4) by simp
      then obtain s where "bus_sessions b cid = Some s" "ss_chan s = h"
        using p(5) unfolding routes_ok_def by blast
      then show ?thesis using kept [of cid] by auto
    qed
    moreover have "task_valid u \<and> (\<forall>cid. task_client u = Some cid \<longrightarrow> bus_sessions ?b cid \<noteq> None)"
      if "u \<in> set (bus_tasks ?b)" for u
      using queued_task [OF w, of u] that t kept by auto
    moreover have "bus_sessions ?b (pr_requester_id pr) \<noteq> None"
      if "pending_responses (bus_core ?b) j = Some pr" for j pr
      using p(5) that r(3) kept unfolding routes_ok_def by auto
    ultimately show ?thesis unfolding routes_ok_def by blast
  qed
  moreover have "endpoint_ok ?b m e" if "bus_endpoints ?b m = Some e" for m e
  proof -
    have e: "endpoint_ok b m e" using p(7) that by simp
    have "got_ok ?b m (ep_got e)"
      unfolding got_ok_def
    proof (intro conjI allI impI)
      fix cid s assume s: "bus_sessions ?b cid = Some s \<and> ss_transport s = m"
      show "ep_got e \<le> length (cs_sent (ss_stub s))"
        using old [of cid s] s e nn(2) unfolding endpoint_ok_def got_ok_def by auto
    next
      assume "\<forall>cid. home ?b cid \<noteq> Some m"
      then have "\<forall>cid. home b cid \<noteq> Some m"
        using k(6) unfolding hm by (metis fun_upd_apply home_Some option.distinct(1))
      then show "ep_got e = 0" using e unfolding endpoint_ok_def got_ok_def by blast
    qed
    then show ?thesis using e by (simp add: endpoint_ok_def)
  qed
  moreover have "core_inv (bus_core ?b)" using register_inv [OF p(1)] by simp
  ultimately show ?thesis using p(6) unfolding wired_def by simp
qed

end
