(* ===== verification/Bus_Balance.thy ===== *)
theory Bus_Balance
  imports Bus_Connect "HOL-Library.Multiset"
begin

text \<open>
  Every request of a client has at most one token in the bus: in the client's unread
  messages, in the server's queue, in its table of pending responses, or as a response on
  its way back; and the client waits for every request that has one.
\<close>

section \<open>Tokens\<close>

definition once :: "'a multiset \<Rightarrow> bool" where
  "once T \<longleftrightarrow> (\<forall>i. count T i \<le> 1)"

lemma once_mono: "once T \<Longrightarrow> T' \<subseteq># T \<Longrightarrow> once T'"
  unfolding once_def subseteq_mset_def by (meson le_trans)

lemma once_add: "once T \<Longrightarrow> i \<notin># T \<Longrightarrow> once (add_mset i T)"
  by (simp add: once_def not_in_iff)

lemma once_take:
  assumes "once T" and "add_mset i T' \<subseteq># T"
  shows "i \<in># T" "i \<notin># T'" "T' \<subseteq># T"
proof -
  have o: "once (add_mset i T')" using once_mono [OF assms] .
  show "i \<in># T" using mset_subset_eqD [OF assms(2)] by simp
  show "i \<notin># T'" using o [unfolded once_def, rule_format, of i] by (simp add: not_in_iff)
  have "T' \<subseteq># add_mset i T'" by simp
  then show "T' \<subseteq># T" using assms(2) by (rule subset_mset.order_trans)
qed

definition balanced :: "u32 multiset \<Rightarrow> (u32 \<Rightarrow> u32 \<Rightarrow> bool) \<Rightarrow> u32 set \<Rightarrow> bool" where
  \<comment> \<open>\<open>T\<close> the requests and responses in transit, \<open>P i j\<close> the request \<open>i\<close> held at the server's
    entry \<open>j\<close>, \<open>W\<close> the requests the client waits for\<close>
  "balanced T P W \<longleftrightarrow> once T \<and> set_mset T \<subseteq> W \<and>
     (\<forall>i j. P i j \<longrightarrow> i \<in> W \<and> i \<notin># T) \<and> (\<forall>i j k. P i j \<longrightarrow> P i k \<longrightarrow> j = k)"

lemma balancedD:
  assumes "balanced T P W"
  shows "once T" "i \<in># T \<Longrightarrow> i \<in> W" "P i j \<Longrightarrow> i \<in> W" "P i j \<Longrightarrow> i \<notin># T" "P i j \<Longrightarrow> P i k \<Longrightarrow> j = k"
  using assms unfolding balanced_def by blast+

lemma balancedI:
  assumes "once T" and "\<And>i. i \<in># T \<Longrightarrow> i \<in> W" and "\<And>i j. P i j \<Longrightarrow> i \<in> W"
    and "\<And>i j. P i j \<Longrightarrow> i \<notin># T" and "\<And>i j k. P i j \<Longrightarrow> P i k \<Longrightarrow> j = k"
  shows "balanced T P W"
  using assms unfolding balanced_def by blast

lemma balanced_mono:
  assumes "balanced T P W" and "T' \<subseteq># T" and "\<And>i j. P' i j \<Longrightarrow> P i j"
  shows "balanced T' P' W"
  by (rule balancedI)
     (use balancedD [OF assms(1)] once_mono mset_subset_eqD [OF assms(2)] assms(2,3) in blast)+

lemma balanced_ask:
  assumes "balanced T P W" and "add_mset i T' \<subseteq># T" and "\<And>a k. P' a k \<Longrightarrow> P a k \<or> a = i \<and> k = j"
  shows "balanced T' P' W"
proof -
  note b = balancedD [OF assms(1)] and t = once_take [OF balancedD(1) [OF assms(1)] assms(2)]
  have p: "\<not> P i k" for k using b(4) t(1) by blast
  have sub: "a \<in># T" if "a \<in># T'" for a using mset_subset_eqD [OF t(3) that] .
  show ?thesis
  proof (rule balancedI)
    show "once T'" using once_mono [OF b(1) t(3)] .
    show "a \<in> W" if "a \<in># T'" for a using sub [OF that] b(2) by blast
    show "a \<in> W" if "P' a k" for a k using assms(3) [OF that] b(2,3) t(1) by blast
    show "a \<notin># T'" if "P' a k" for a k using assms(3) [OF that] b(4) sub t(2) by blast
    show "k = l" if "P' a k" "P' a l" for a k l
      using assms(3) [OF that(1)] assms(3) [OF that(2)] b(5) p by blast
  qed
qed

lemma balanced_answer:
  assumes "balanced T P W" and "T' \<subseteq># add_mset i T" and "P i j"
    and "\<And>a k. P' a k \<Longrightarrow> P a k \<and> k \<noteq> j"
  shows "balanced T' P' W"
proof -
  note b = balancedD [OF assms(1)]
  have o: "once T'" using once_mono [OF once_add [OF b(1)] assms(2)] b(4) assms(3) by blast
  have sub: "a = i \<or> a \<in># T" if "a \<in># T'" for a using mset_subset_eqD [OF assms(2) that] by simp
  have "a \<noteq> i" if "P' a k" for a k using b(5) assms(3) assms(4) [OF that] by blast
  then show ?thesis by (intro balancedI) (use b o sub assms(3,4) in blast)+
qed

lemma balanced_deliver:
  assumes "balanced T P W" and "add_mset i T' \<subseteq># T" and "\<And>a k. P' a k \<Longrightarrow> P a k"
  shows "i \<in> W" "balanced T' P' (W - {i})"
proof -
  note b = balancedD [OF assms(1)] and t = once_take [OF balancedD(1) [OF assms(1)] assms(2)]
  show "i \<in> W" using b(2) t(1) by blast
  have p: "\<not> P i k" for k using b(4) t(1) by blast
  show "balanced T' P' (W - {i})"
    by (rule balancedI) (use b t p assms(3) once_mono mset_subset_eqD [OF t(3)] in blast)+
qed

lemma balanced_new:
  assumes "balanced T P W" and "T' \<subseteq># add_mset i T" and "i \<notin> W" and "\<And>a k. P' a k \<Longrightarrow> P a k"
  shows "balanced T' P' (insert i W)"
proof -
  note b = balancedD [OF assms(1)]
  have o: "once T'" using once_mono [OF once_add [OF b(1)] assms(2)] b(2) assms(3) by blast
  have sub: "a = i \<or> a \<in># T" if "a \<in># T'" for a using mset_subset_eqD [OF assms(2) that] by simp
  show ?thesis by (rule balancedI) (use b o sub assms(3,4) in blast)+
qed

section \<open>Where the tokens are\<close>

definition asked_ids :: "bus \<Rightarrow> nat \<Rightarrow> endpoint \<Rightarrow> u32 list" where
  "asked_ids b n e =
     req_ids (queue_of (home b) n (bus_tasks b) @ drop (ep_read e) (sent (ep_client e)))"

definition held :: "bus \<Rightarrow> nat \<Rightarrow> u32 \<Rightarrow> u32 \<Rightarrow> bool" where
  "held b n i j \<longleftrightarrow> (\<exists>pr. pending_responses (bus_core b) j = Some pr \<and>
     home b (pr_requester_id pr) = Some n \<and> pr_request_id pr = i)"

definition coming :: "bus \<Rightarrow> endpoint \<Rightarrow> session \<Rightarrow> u32 list" where
  "coming b e s = rsp_ids (drop (ep_got e) (cs_sent (ss_stub s)) @
     drop (ss_taken s) (buffer (chans (bus_core b) (ss_chan s))))"

definition on_way :: "bus \<Rightarrow> nat \<Rightarrow> endpoint \<Rightarrow> u32 list \<Rightarrow> bool" where
  "on_way b n e D \<longleftrightarrow> D = [] \<or>
     (\<exists>cid s. bus_sessions b cid = Some s \<and> ss_transport s = n \<and> D = coming b e s)"

definition account :: "bus \<Rightarrow> nat \<Rightarrow> endpoint \<Rightarrow> bool" where
  "account b n e \<longleftrightarrow> (\<forall>D. on_way b n e D \<longrightarrow>
     balanced (mset (asked_ids b n e @ D)) (held b n) (dom (callbacks_rsp (ep_client e))))"

definition tokens_ok :: "bus \<Rightarrow> bool" where
  "tokens_ok b \<longleftrightarrow>
     (\<forall>n e. bus_endpoints b n = Some e \<and> ep_outcome e = ClientRunning \<longrightarrow> account b n e)"

lemma on_way_empty [simp]: "on_way b n e []"
  by (simp add: on_way_def)

lemma accountD: "account b n e \<Longrightarrow> on_way b n e D \<Longrightarrow>
   balanced (mset (asked_ids b n e @ D)) (held b n) (dom (callbacks_rsp (ep_client e)))"
  by (simp add: account_def)

lemma account_frame:
  \<comment> \<open>nothing gained\<close>
  assumes "account b n e"
    and "dom (callbacks_rsp (ep_client e')) = dom (callbacks_rsp (ep_client e))"
    and "\<And>i j. held b' n i j \<Longrightarrow> held b n i j"
    and "\<And>D'. on_way b' n e' D' \<Longrightarrow>
      \<exists>D. on_way b n e D \<and> mset (asked_ids b' n e' @ D') \<subseteq># mset (asked_ids b n e @ D)"
  shows "account b' n e'"
  unfolding account_def
proof (intro allI impI)
  fix D' assume "on_way b' n e' D'"
  then obtain D where "on_way b n e D" "mset (asked_ids b' n e' @ D') \<subseteq># mset (asked_ids b n e @ D)"
    using assms(4) by blast
  then show "balanced (mset (asked_ids b' n e' @ D')) (held b' n) (dom (callbacks_rsp (ep_client e')))"
    unfolding assms(2) using balanced_mono accountD [OF assms(1)] assms(3) by blast
qed

lemma account_same:
  \<comment> \<open>a step that leaves everything about connection \<open>n\<close> alone\<close>
  assumes "account b n e" and "home b' = home b"
    and "queue_of (home b) n (bus_tasks b') = queue_of (home b) n (bus_tasks b)"
    and "pending_responses (bus_core b') = pending_responses (bus_core b)"
    and "ep_read e' = ep_read e" "ep_client e' = ep_client e"
    and "\<And>D. on_way b' n e' D \<Longrightarrow> on_way b n e D"
  shows "account b' n e'"
proof (rule account_frame [OF assms(1)])
  have "asked_ids b' n e' = asked_ids b n e" using assms(2-6) by (simp add: asked_ids_def)
  then show "on_way b' n e' D' \<Longrightarrow> \<exists>D. on_way b n e D \<and>
      mset (asked_ids b' n e' @ D') \<subseteq># mset (asked_ids b n e @ D)" for D'
    using assms(7) by auto
qed (use assms(2,4,6) in \<open>simp_all add: held_def\<close>)

end
