(* ===== verification/Bus_Tokens.thy ===== *)
theory Bus_Tokens
  imports Bus_Balance
begin

text \<open>
  Every step of the bus keeps the accounts of all its running clients balanced
  (\<open>tokens_ok\<close>). The step of a client shows what the account is for: a response that
  arrives is one the client still waits for.
\<close>

lemma tokens_okD:
  "tokens_ok b \<Longrightarrow> bus_endpoints b n = Some e \<Longrightarrow> ep_outcome e = ClientRunning \<Longrightarrow> account b n e"
  unfolding tokens_ok_def by blast

lemma tokens_okI:
  "(\<And>n e. bus_endpoints b n = Some e \<Longrightarrow> ep_outcome e = ClientRunning \<Longrightarrow> account b n e) \<Longrightarrow> tokens_ok b"
  unfolding tokens_ok_def by blast

lemma on_way_simps [simp]:
  "on_way (b\<lparr>bus_tasks := ts\<rparr>) n e = on_way b n e"
  "on_way (b\<lparr>bus_fired := f\<rparr>) n e = on_way b n e"
  "on_way (b\<lparr>bus_outcome := out\<rparr>) n e = on_way b n e"
  "on_way (b\<lparr>bus_endpoints := es\<rparr>) n e = on_way b n e"
  "on_way (b\<lparr>bus_next := k\<rparr>) n e = on_way b n e"
  by (simp_all add: on_way_def coming_def fun_eq_iff)

lemma on_way_got: "ep_got e' = ep_got e \<Longrightarrow> on_way b n e' = on_way b n e"
  by (simp add: on_way_def coming_def fun_eq_iff)

lemma no_home_on_way: "(\<And>cid. home b cid \<noteq> Some n) \<Longrightarrow> on_way b n e D \<Longrightarrow> D = []"
  by (auto simp: on_way_def home_Some)

section \<open>Steps that move no token\<close>

lemma tokens_timer:
  assumes t: "tokens_ok b"
  shows "tokens_ok (b\<lparr>bus_fired := f, bus_tasks := bus_tasks b @ [RequestTimeout i]\<rparr>)" (is "tokens_ok ?b")
proof (rule tokens_okI)
  fix n e assume e: "bus_endpoints ?b n = Some e" "ep_outcome e = ClientRunning"
  show "account ?b n e"
    by (rule account_same [OF tokens_okD [OF t, of n e]])
       (use e in simp_all)
qed

lemma tokens_outcome:
  assumes t: "tokens_ok b"
  shows "tokens_ok (b\<lparr>bus_outcome := out\<rparr>)" (is "tokens_ok ?b")
proof (rule tokens_okI)
  fix n e assume e: "bus_endpoints ?b n = Some e" "ep_outcome e = ClientRunning"
  show "account ?b n e"
    by (rule account_same [OF tokens_okD [OF t, of n e]])
       (use e in simp_all)
qed

lemma tokens_same_endpoint:
  assumes t: "tokens_ok b" and n: "bus_endpoints b n = Some e"
    and c: "sent c = sent (ep_client e)" "callbacks_rsp c = callbacks_rsp (ep_client e)"
  shows "tokens_ok (b\<lparr>bus_endpoints := (bus_endpoints b)(n \<mapsto> e\<lparr>ep_client := c\<rparr>)\<rparr>)" (is "tokens_ok ?b")
proof (rule tokens_okI)
  fix k f assume f: "bus_endpoints ?b k = Some f" "ep_outcome f = ClientRunning"
  obtain g where g: "bus_endpoints b k = Some g" "ep_outcome g = ClientRunning" "ep_got f = ep_got g"
    "asked_ids ?b k f = asked_ids b k g" "callbacks_rsp (ep_client f) = callbacks_rsp (ep_client g)"
    using f n c by (cases "k = n") (auto simp: asked_ids_def)
  show "account ?b k f"
  proof (rule account_frame [OF tokens_okD [OF t g(1,2)]])
    fix D assume "on_way ?b k f D"
    then have "on_way b k g D" using on_way_got [OF g(3), of b k] by simp
    then show "\<exists>D'. on_way b k g D' \<and> mset (asked_ids ?b k f @ D) \<subseteq># mset (asked_ids b k g @ D')"
      using g(4) by auto
  qed (simp_all add: held_def g(5))
qed

lemma tokens_connect:
  assumes w: "wired b" and t: "tokens_ok b" and n: "n = bus_next b"
  shows "tokens_ok (b\<lparr>bus_endpoints := (bus_endpoints b)(n \<mapsto> new_endpoint (client_start acks rsps pubs reqs)),
    bus_tasks := bus_tasks b @ [Register n], bus_next := n + 1\<rparr>)" (is "tokens_ok ?b")
proof (rule tokens_okI)
  fix k e assume e: "bus_endpoints ?b k = Some e" "ep_outcome e = ClientRunning"
  have fresh: "home b cid \<noteq> Some n" for cid using home_below [OF w, of cid n] n by auto
  show "account ?b k e"
  proof (cases "k = n")
    case True
    have "asked_ids ?b n e = []"
      using e(1) True fresh
      by (auto simp: asked_ids_def queue_of_empty new_endpoint_def client_start_def)
    moreover have "\<not> held ?b n i j" for i j using fresh by (simp add: held_def)
    ultimately have "balanced (mset (asked_ids ?b n e @ D)) (held ?b n) W" if "D = []" for D W
      using that by (simp add: balanced_def once_def)
    moreover have "D = []" if "on_way ?b n e D" for D
      using no_home_on_way [OF _ that] fresh by simp
    ultimately show ?thesis unfolding account_def True by blast
  next
    case False
    show ?thesis
      by (rule account_same [OF tokens_okD [OF t, of k e]])
         (use e False in simp_all)
  qed
qed

lemma tokens_register:
  assumes w: "wired b" and t: "tokens_ok b" and wi: "within_ids b" and q: "bus_tasks b = Register n # ts"
  shows "tokens_ok (b\<lparr>bus_core := snd (register_client n (bus_core b)), bus_outcome := out, bus_tasks := ts,
     bus_sessions := open_session (Register n) now b\<rparr>)" (is "tokens_ok ?b")
proof (rule tokens_okI)
  fix k e assume e: "bus_endpoints ?b k = Some e" "ep_outcome e = ClientRunning"
  let ?cid = "next_client_id (bus_core b)"
  note r = register_frame [of n "bus_core b"]
  have new: "bus_sessions b ?cid = None" by (rule fresh_id [OF w wi q])
  have hm: "home ?b = (home b)(?cid \<mapsto> n)" by (auto simp: home_def)
  have ss: "bus_sessions ?b = (bus_sessions b)(?cid \<mapsto> opened n now (bus_core b))" by (simp add: opened_def)
  have hn: "home b cid \<noteq> Some n" for cid
    using wiredD(3) [OF w] q unfolding regs_ok_def by simp
  have "queue_of (home ?b) k ts = queue_of (home b) k ts"
  proof (rule queue_of_cong)
    fix cid m assume "Message cid m \<in> set ts"
    then have "bus_sessions b cid \<noteq> None" using queued_task(2) [OF w, of "Message cid m" cid] q by simp
    then show "home ?b cid = Some k \<longleftrightarrow> home b cid = Some k" using new unfolding hm by auto
  qed
  then have asked: "asked_ids ?b k e = asked_ids b k e" using q by (simp add: asked_ids_def)
  have held: "held ?b k i j \<Longrightarrow> held b k i j" for i j
  proof -
    assume "held ?b k i j"
    then obtain pr where pr: "pending_responses (bus_core b) j = Some pr"
      "((home b)(?cid \<mapsto> n)) (pr_requester_id pr) = Some k" "pr_request_id pr = i"
      using r(3) unfolding held_def hm by auto
    then have "pr_requester_id pr \<noteq> ?cid"
      using wiredD(5) [OF w] new unfolding routes_ok_def by metis
    then show "held b k i j" using pr unfolding held_def by auto
  qed
  have way: "on_way ?b k e D \<Longrightarrow> D = [] \<or> on_way b k e D" for D
  proof -
    assume "on_way ?b k e D"
    then consider "D = []" | cid s where "bus_sessions ?b cid = Some s" "ss_transport s = k" "D = coming ?b e s"
      unfolding on_way_def by blast
    then show "D = [] \<or> on_way b k e D"
    proof cases
      case (2 cid s)
      show ?thesis
      proof (cases "cid = ?cid")
        case True
        then have "s = opened n now (bus_core b)" using 2(1) unfolding ss by simp
        then show ?thesis using 2(3) r(5) by (simp add: coming_def)
      next
        case False
        then have s: "bus_sessions b cid = Some s" using 2(1) unfolding ss by simp
        then have "ss_chan s \<noteq> next_chan (bus_core b)" using sessions_okD(3) [OF w s] by simp
        then have "coming ?b e s = coming b e s" using r(5) by (simp add: coming_def)
        then show ?thesis using s 2 unfolding on_way_def by auto
      qed
    qed simp
  qed
  show "account ?b k e"
  proof (rule account_frame [OF tokens_okD [OF t, of k e]])
    fix D assume "on_way ?b k e D"
    from way [OF this] have "on_way b k e D" by auto
    then show "\<exists>D'. on_way b k e D' \<and> mset (asked_ids ?b k e @ D) \<subseteq># mset (asked_ids b k e @ D')"
      using asked by auto
  qed (use e held in simp_all)
qed

section \<open>A task of the core\<close>

lemma asked_popped:
  assumes "bus_tasks b = t # ts"
  shows "asked_ids b n e = req_ids (queue_of (home b) n [t]) @
    asked_ids (b\<lparr>bus_core := c, bus_outcome := out, bus_tasks := ts\<rparr>) n e"
  using assms by (simp add: asked_ids_def)

lemma coming_grows:
  assumes "wired b" "bus_sessions b cid = Some s"
    and "buffer (chans c (ss_chan s)) = buffer (chans (bus_core b) (ss_chan s)) @ ns"
  shows "coming (b\<lparr>bus_core := c, bus_outcome := out, bus_tasks := ts\<rparr>) e s = coming b e s @ rsp_ids ns"
  using sessions_okD(4) [OF assms(1,2)] assms(3) by (simp add: coming_def)

lemma on_way_emits:
  assumes w: "wired b" and em: "emits (bus_core b) c F"
    and d: "on_way (b\<lparr>bus_core := c, bus_outcome := out, bus_tasks := ts\<rparr>) n e D"
  shows "D = [] \<or> (\<exists>cid s. bus_sessions b cid = Some s \<and> ss_transport s = n \<and>
    D = coming b e s @ F (ss_chan s))"
proof -
  consider "D = []" | cid s where "bus_sessions b cid = Some s" "ss_transport s = n"
      "D = coming (b\<lparr>bus_core := c, bus_outcome := out, bus_tasks := ts\<rparr>) e s"
    using d unfolding on_way_def by auto
  then show ?thesis
  proof cases
    case (2 cid s)
    obtain ns where ns: "buffer (chans c (ss_chan s)) = buffer (chans (bus_core b) (ss_chan s)) @ ns"
      "rsp_ids ns = F (ss_chan s)"
      using em [unfolded emits_def, rule_format, of "ss_chan s"] by blast
    have "D = coming b e s @ F (ss_chan s)" using coming_grows [OF w 2(1) ns(1)] 2(3) ns(2) by simp
    then show ?thesis using 2(1,2) by blast
  qed simp
qed

lemma on_way_silent:
  assumes "wired b" and "emits (bus_core b) c nothing"
    and "on_way (b\<lparr>bus_core := c, bus_outcome := out, bus_tasks := ts\<rparr>) n e D"
  shows "on_way b n e D"
  using on_way_emits [OF assms] unfolding on_way_def by auto

lemma account_quiet:
  assumes w: "wired b" and a: "account b n e" and q: "bus_tasks b = t # ts" "quiet (bus_core b) c"
  shows "account (b\<lparr>bus_core := c, bus_outcome := out, bus_tasks := ts\<rparr>) n e" (is "account ?b n e")
proof (rule account_frame [OF a])
  show "held ?b n i j \<Longrightarrow> held b n i j" for i j
    using map_leD [of "pending_responses c" "pending_responses (bus_core b)" j] q(2)
    unfolding quiet_def held_def by auto
  fix D assume "on_way ?b n e D"
  then have "on_way b n e D" using on_way_silent [OF w] q(2) unfolding quiet_def by blast
  moreover have "mset (asked_ids ?b n e @ D) \<subseteq># mset (asked_ids b n e @ D)"
    using asked_popped [OF q(1), of n e out c] by simp
  ultimately show "\<exists>D'. on_way b n e D' \<and> mset (asked_ids ?b n e @ D) \<subseteq># mset (asked_ids b n e @ D')"
    by blast
qed simp

lemma account_asked:
  assumes w: "wired b" and a: "account b n e" and q: "bus_tasks b = t # ts" "asked t (bus_core b) c"
  shows "account (b\<lparr>bus_core := c, bus_outcome := out, bus_tasks := ts\<rparr>) n e" (is "account ?b n e")
  unfolding account_def
proof (intro allI impI)
  fix D assume d: "on_way ?b n e D"
  obtain cid i r j pr where t: "t = Message cid (Msg i (ClientReq r))" and em: "emits (bus_core b) c nothing"
    and pr: "pr_requester_id pr = cid" "pr_request_id pr = i"
    and le: "pending_responses c \<subseteq>\<^sub>m (pending_responses (bus_core b))(j \<mapsto> pr)"
    using q(2) unfolding asked_def by blast
  have "on_way b n e D" using on_way_silent [OF w em d] .
  note bal = accountD [OF a this]
  have p: "pending_responses c k = Some x \<Longrightarrow> pending_responses (bus_core b) k = Some x \<and> k \<noteq> j \<or> k = j \<and> x = pr" for k x
    using map_leD [OF le, of k x] by (cases "k = j") simp_all
  show "balanced (mset (asked_ids ?b n e @ D)) (held ?b n) (dom (callbacks_rsp (ep_client e)))"
  proof (cases "home b cid = Some n")
    case True
    then have "mset (asked_ids b n e @ D) = add_mset i (mset (asked_ids ?b n e @ D))"
      using asked_popped [OF q(1), of n e out c] t by simp
    moreover have "held ?b n x k \<Longrightarrow> held b n x k \<or> x = i \<and> k = j" for x k
      using p pr unfolding held_def by auto
    ultimately show ?thesis using balanced_ask [OF bal] by (metis subset_mset.order_refl)
  next
    case False
    have "held ?b n x k \<Longrightarrow> held b n x k" for x k
      using p pr False unfolding held_def by auto
    moreover have "mset (asked_ids ?b n e @ D) \<subseteq># mset (asked_ids b n e @ D)"
      using asked_popped [OF q(1), of n e out c] by simp
    ultimately show ?thesis using balanced_mono [OF bal] by blast
  qed
qed

lemma account_answered:
  assumes w: "wired b" and a: "account b n e" and q: "bus_tasks b = t # ts" "answered (bus_core b) c"
  shows "account (b\<lparr>bus_core := c, bus_outcome := out, bus_tasks := ts\<rparr>) n e" (is "account ?b n e")
  unfolding account_def
proof (intro allI impI)
  fix D assume d: "on_way ?b n e D"
  obtain j pr h where pr: "pending_responses (bus_core b) j = Some pr"
    and h: "protocol_server_senders (bus_core b) (pr_requester_id pr) = Some h"
    and em: "emits (bus_core b) c (\<lambda>k. if k = h then [pr_request_id pr] else [])"
    and le: "pending_responses c \<subseteq>\<^sub>m (pending_responses (bus_core b))(j := None)"
    using q(2) unfolding answered_def by blast
  obtain s where s: "bus_sessions b (pr_requester_id pr) = Some s" "ss_chan s = h"
    using wiredD(5) [OF w] h unfolding routes_ok_def by blast
  have p: "pending_responses (bus_core b) k = Some x \<and> k \<noteq> j" if "pending_responses c k = Some x" for k x
    using map_leD [OF le that] by (simp split: if_splits)
  have held: "held ?b n x k \<Longrightarrow> held b n x k \<and> k \<noteq> j" for x k
    using p unfolding held_def by auto
  have less: "mset (asked_ids ?b n e) \<subseteq># mset (asked_ids b n e)"
    using asked_popped [OF q(1), of n e out c] by simp
  have rest: "balanced (mset (asked_ids ?b n e @ D)) (held ?b n) (dom (callbacks_rsp (ep_client e)))"
    if "on_way b n e D"
    by (rule balanced_mono [OF accountD [OF a that]]) (use less held in auto)
  consider "D = []" | cid u where "bus_sessions b cid = Some u" "ss_transport u = n"
    "D = coming b e u @ (if ss_chan u = h then [pr_request_id pr] else [])"
    using on_way_emits [OF w em d] by blast
  then show "balanced (mset (asked_ids ?b n e @ D)) (held ?b n) (dom (callbacks_rsp (ep_client e)))"
  proof cases
    case (2 cid u)
    then have way: "on_way b n e (coming b e u)" unfolding on_way_def by blast
    show ?thesis
    proof (cases "ss_chan u = h")
      case True
      then have "cid = pr_requester_id pr" using session_unique(1) [OF w 2(1) s(1)] s(2) by simp
      then have "held b n (pr_request_id pr) j" using pr 2(1,2) unfolding held_def home_Some by blast
      moreover have "mset (asked_ids ?b n e @ D) \<subseteq>#
          add_mset (pr_request_id pr) (mset (asked_ids b n e @ coming b e u))"
        using less 2(3) True by simp
      ultimately show ?thesis using balanced_answer [OF accountD [OF a way]] held by blast
    qed (use rest way 2(3) in simp)
  qed (use rest in simp)
qed

lemma tokens_core_task:
  assumes w: "wired b" and t: "tokens_ok b" and q: "bus_tasks b = u # ts" and eff: "task_effect u (bus_core b) c"
  shows "tokens_ok (b\<lparr>bus_core := c, bus_outcome := out, bus_tasks := ts\<rparr>)" (is "tokens_ok ?b")
proof (rule tokens_okI)
  fix n e assume "bus_endpoints ?b n = Some e" "ep_outcome e = ClientRunning"
  then have a: "account b n e" using tokens_okD [OF t] by simp
  show "account ?b n e"
    using eff account_quiet [OF w a q] account_asked [OF w a q] account_answered [OF w a q]
    unfolding task_effect_def by blast
qed

section \<open>A turn of a stub\<close>

lemma mset_drop_Suc: "mset (req_ids (drop (Suc k) ms)) \<subseteq># mset (req_ids (drop k ms))"
proof (cases "k < length ms")
  case True
  then have "drop k ms = ms ! k # drop (Suc k) ms" by (simp add: Cons_nth_drop_Suc)
  then show ?thesis by simp
qed simp

lemma asked_stub:
  assumes "hm cid = Some n"
    and "ts = [] \<or> ts = [Deregister cid] \<or> (\<exists>m. k < length ms \<and> j = 1 \<and> m = ms ! k \<and> ts = [Message cid m])"
    and "j \<le> 1"
  shows "mset (req_ids (queue_of hm n (qs @ ts) @ drop (k + j) ms)) \<subseteq>#
    mset (req_ids (queue_of hm n qs @ drop k ms))"
proof -
  have le: "mset (req_ids (drop (k + j) ms)) \<subseteq># mset (req_ids (drop k ms))"
    using assms(3) mset_drop_Suc [of k ms] by (cases j) simp_all
  show ?thesis
  proof (cases "queue_of hm n ts = []")
    case True
    then show ?thesis using le by simp
  next
    case False
    then have "k < length ms" "j = 1" "ts = [Message cid (ms ! k)]" using assms(2) by auto
    then show ?thesis using assms(1) Cons_nth_drop_Suc [of k ms, symmetric] by simp
  qed
qed

lemma coming_stub:
  assumes "ep_got e \<le> length (cs_sent (ss_stub s))"
    and "ms = [] \<or> (\<exists>m. ms = [m] \<and> j = 1 \<and> ss_taken s < length buf \<and> m = buf ! ss_taken s)"
    and "j \<le> 1"
  shows "mset (rsp_ids (drop (ep_got e) (cs_sent (ss_stub s) @ ms) @ drop (ss_taken s + j) buf)) \<subseteq>#
    mset (rsp_ids (drop (ep_got e) (cs_sent (ss_stub s)) @ drop (ss_taken s) buf))"
proof -
  have "mset (rsp_ids (drop (ss_taken s + j) buf)) \<subseteq># mset (rsp_ids (drop (ss_taken s) buf))"
  proof (cases "j = 1 \<and> ss_taken s < length buf")
    case True
    then show ?thesis using Cons_nth_drop_Suc [of "ss_taken s" buf, symmetric] by simp
  qed (use assms(3) in \<open>auto simp: le_Suc_eq\<close>)
  then show ?thesis
    using assms(1,2) Cons_nth_drop_Suc [of "ss_taken s" buf, symmetric] by auto
qed

end
