(* ===== verification/Bus_Services.thy ===== *)
theory Bus_Services
  imports Bus_Connect
begin

text \<open>
  The services a client holds: while its loop runs, every service that was handed to it and
  not given up has its entry in the client's own directory, whatever else the client is told
  or asked. So the loop finds the owner it unwraps when a service is given up, and a
  subscription that is forgotten takes no service with it.
\<close>

lemma new_id_fresh:
  assumes "numbered c" and "length (sent c) < 2 ^ 32 - 1" and "k \<in> mid ` set (sent c)"
  shows "k \<noteq> cl_next_msg_id c + 1"
proof
  assume k: "k = cl_next_msg_id c + 1"
  have "mid ` set (sent c) = of_nat ` {1..<Suc (length (sent c))}"
    using arg_cong [OF conjunct2 [OF assms(1) [unfolded numbered_def]], of set] by auto
  then obtain j where "j \<in> {1..<Suc (length (sent c))}" "k = of_nat j" using assms(3) by blast
  moreover have "k = of_nat (length (sent c) + 1)" using k assms(1) by (simp add: numbered_def add.commute)
  ultimately have "unat (of_nat j :: u32) = unat (of_nat (length (sent c) + 1) :: u32)" by simp
  then show False using assms(2) \<open>j \<in> _\<close> unat_small [of j] unat_small [of "length (sent c) + 1"] by simp
qed

section \<open>The entries of the services\<close>

definition holds_services :: "u32 set \<Rightarrow> topic list \<Rightarrow> client_core \<Rightarrow> bool" where
  \<comment> \<open>each service is entered under the id of a message, not that of a subscription\<close>
  "holds_services ids ts c \<longleftrightarrow> distinct ts \<and> dom (callbacks_pub c) \<subseteq> ids \<and>
     (\<forall>t \<in> set ts. \<exists>i \<in> ids. get_owner t (subscriptions c) = Some i \<and> callbacks_pub c i = None)"

abbreviation services_held :: "topic list \<Rightarrow> client_core \<Rightarrow> bool" where
  "services_held ts c \<equiv> holds_services (mid ` set (sent c)) ts c"

lemma holds_servicesD:
  assumes "holds_services ids ts c"
  shows "distinct ts" and "dom (callbacks_pub c) \<subseteq> ids"
    and "t \<in> set ts \<Longrightarrow> \<exists>i \<in> ids. get_owner t (subscriptions c) = Some i \<and> callbacks_pub c i = None"
  using assms unfolding holds_services_def by blast+

lemma holds_services_frame:
  assumes "holds_services ids ts c" and "ids \<subseteq> ids'" and "dom (callbacks_pub c') \<subseteq> dom (callbacks_pub c)"
    and "\<And>t i. t \<in> set ts \<Longrightarrow> get_owner t (subscriptions c) = Some i \<Longrightarrow> callbacks_pub c i = None \<Longrightarrow>
      get_owner t (subscriptions c') = Some i"
  shows "holds_services ids' ts c'"
proof -
  have "\<exists>i \<in> ids'. get_owner t (subscriptions c') = Some i \<and> callbacks_pub c' i = None" if t: "t \<in> set ts" for t
  proof -
    obtain i where "i \<in> ids" "get_owner t (subscriptions c) = Some i" "callbacks_pub c i = None"
      using holds_servicesD(3) [OF assms(1) t] by blast
    then show ?thesis using assms(2,3) assms(4) [OF t] by blast
  qed
  then show ?thesis using holds_servicesD(1,2) [OF assms(1)] assms(2,3) unfolding holds_services_def by blast
qed

lemma holds_services_same:
  "holds_services ids ts c \<Longrightarrow> ids \<subseteq> ids' \<Longrightarrow> callbacks_pub c' = callbacks_pub c \<Longrightarrow>
   subscriptions c' = subscriptions c \<Longrightarrow> holds_services ids' ts c'"
  by (erule holds_services_frame) simp_all

section \<open>Receiving\<close>

lemma notify_services:
  assumes "notify p ids c = returns (r, c')" and "client_inv c"
  shows "dom (callbacks_pub c') \<subseteq> dom (callbacks_pub c) \<and>
    (\<forall>u i. owner_of (subscriptions c) u = Some i \<and> callbacks_pub c i = None \<longrightarrow>
       owner_of (subscriptions c') u = Some i)"
  using assms
proof (induction ids arbitrary: c)
  case (Cons k ids)
  obtain h where h: "callbacks_pub c k = Some h" using Cons.prems by (cases "callbacks_pub c k") auto
  show ?case
  proof (cases "rx_alive (pub_chans c h)")
    case True
    let ?c = "c\<lparr>pub_chans := (pub_chans c)(h := (pub_chans c h)\<lparr>buffer := buffer (pub_chans c h) @ [p]\<rparr>)\<rparr>"
    have "client_inv ?c" using Cons.prems(2) by (auto elim: client_inv_cong)
    then show ?thesis using Cons.IH [of ?c] Cons.prems(1) notify_step_live [OF h True] by simp
  next
    case False
    obtain c1 d ts and q :: "unit result" where c1: "notify p (k # ids) c =
        (case q of Inl e \<Rightarrow> returns (Inl e, c1) | Inr _ \<Rightarrow> notify p ids c1)"
      "drop_client k (subscriptions c) = (d, ts)" "client_inv c1" "subscriptions c1 = d"
      "callbacks_pub c1 = (callbacks_pub c)(k := None)"
        by (rule notify_step_dead [OF Cons.prems(2) h False, of p ids]) (rule that)
    have first: "dom (callbacks_pub c1) \<subseteq> dom (callbacks_pub c)"
      "owner_of (subscriptions c) u = Some i \<Longrightarrow> callbacks_pub c i = None \<Longrightarrow>
         owner_of (subscriptions c1) u = Some i \<and> callbacks_pub c1 i = None" for u i
      using c1(4,5) h tree.drop_frame(5) [OF client_inv_dir [OF Cons.prems(2)] c1(2)] by auto
    show ?thesis
    proof (cases q)
      case (Inl e)
      then show ?thesis using c1(1) Cons.prems(1) first by auto
    next
      case (Inr u)
      then have "notify p ids c1 = returns (r, c')" using c1(1) Cons.prems(1) by simp
      from Cons.IH [OF this c1(3)] show ?thesis using first by blast
    qed
  qed
qed simp

lemma after_receive_services:
  assumes rcv: "after_receive ord m c = returns (r, c')" and inv: "client_inv c" and h: "services_held ts c"
  shows "services_held ts c'"
proof -
  have ids: "mid ` set (sent c) \<subseteq> mid ` set (sent c')"
    using after_receive_on [OF rcv] by (auto simp: sends_on_def)
  show ?thesis
  proof (cases "content m")
    case (ServerPub p)
    then have "notify p (get_subscribers ord (pub_topic p) (subscriptions c)) c = returns (r, c')"
      using rcv by (simp add: after_receive_def)
    from notify_services [OF this inv] show ?thesis
      by (intro holds_services_frame [OF h ids]) (auto simp: get_owner_eq split: if_splits)
  qed (rule holds_services_same [OF h ids];
       use rcv in \<open>auto simp: after_receive_def split: option.splits\<close>)+
qed

section \<open>Sending\<close>

lemma before_send_plain:
  assumes "before_send task c = returns (q, c')"
  shows "case task of TaskSub _ _ _ \<Rightarrow> True | TaskSrv _ _ _ \<Rightarrow> True | TaskUnsrv _ \<Rightarrow> True
    | _ \<Rightarrow> callbacks_pub c' = callbacks_pub c \<and> subscriptions c' = subscriptions c"
  using assms by (cases task) (auto simp: before_send_def Let_def)

lemma before_send_services:
  assumes b: "before_send task c = returns (Inr m, c')" and inv: "client_inv c" and wf: "wf_task task"
    and fresh: "cl_next_msg_id c + 1 \<notin> ids" and h: "holds_services ids ts c"
  shows "holds_services (insert (cl_next_msg_id c + 1) ids) (services_after (FromClient task) ts) c'"
    (is "holds_services ?ids _ _")
proof (cases task)
  case (TaskSub s a g)
  then obtain d where d: "subscribe (cl_next_msg_id c + 1) (sub_topic s) (subscriptions c) = returns d"
    and c': "subscriptions c' = d" "callbacks_pub c' = (callbacks_pub c)(cl_next_msg_id c + 1 \<mapsto> g)"
    using b by (auto simp: before_send_def Let_def bus_simps)
  have "wf_topic (sub_topic s)" using TaskSub wf by (simp add: wf_task_def)
  note own = tree.sub_frame(4) [OF client_inv_dir [OF inv] this d]
  have "\<exists>i \<in> ?ids. get_owner t (subscriptions c') = Some i \<and> callbacks_pub c' i = None" if t: "t \<in> set ts" for t
  proof -
    obtain i where i: "i \<in> ids" "get_owner t (subscriptions c) = Some i" "callbacks_pub c i = None"
      using holds_servicesD(3) [OF h t] by blast
    then have "i \<noteq> cl_next_msg_id c + 1" using fresh by blast
    then show ?thesis using i c' own by (intro bexI [of _ i]) (auto simp: get_owner_eq split: if_splits)
  qed
  moreover have "dom (callbacks_pub c') \<subseteq> ?ids" using holds_servicesD(2) [OF h] c'(2) by auto
  ultimately show ?thesis using holds_servicesD(1) [OF h] TaskSub unfolding holds_services_def by simp
next
  case (TaskSrv s a g)
  then have wf': "wf_topic (srv_topic s)" using wf by (simp add: wf_task_def)
  obtain d where d: "claim (cl_next_msg_id c + 1) (srv_topic s) (subscriptions c) = returns (Inr (), d)"
    and c': "subscriptions c' = d" "callbacks_pub c' = callbacks_pub c"
    using b TaskSrv by (auto simp: before_send_srv split: option.splits sum.splits)
  obtain d' where spec: "claim (cl_next_msg_id c + 1) (srv_topic s) (subscriptions c) =
      returns (claim_result (cl_next_msg_id c + 1) (srv_topic s) (subscriptions c), d')"
    and own: "\<And>u. owner_of d' u = (if u = srv_topic s \<and>
      claim_result (cl_next_msg_id c + 1) (srv_topic s) (subscriptions c) = Inr ()
      then Some (cl_next_msg_id c + 1) else owner_of (subscriptions c) u)"
    by (rule claim_spec [OF client_inv_dir [OF inv] wf']) (rule that)
  have ok: "claim_result (cl_next_msg_id c + 1) (srv_topic s) (subscriptions c) = Inr ()" and "d' = d"
    using spec d by simp_all
  then have free: "\<not> topic_wild (srv_topic s)" "owner_of (subscriptions c) (srv_topic s) \<in> {None, Some (cl_next_msg_id c + 1)}"
    by (auto simp: claim_result_def split: if_splits)
  have new: "srv_topic s \<notin> set ts"
    using holds_servicesD(3) [OF h, of "srv_topic s"] free fresh by (auto simp: get_owner_eq)
  have keep: "get_owner t d = Some i" if "t \<in> set ts" "get_owner t (subscriptions c) = Some i" for t i
    using that new own [of t] \<open>d' = d\<close> by (auto simp: get_owner_eq split: if_splits)
  have "holds_services ?ids ts c'"
    by (rule holds_services_frame [OF h]) (use c' keep in auto)
  moreover have "get_owner (srv_topic s) (subscriptions c') = Some (cl_next_msg_id c + 1)"
    using free(1) own ok \<open>d' = d\<close> c'(1) by (simp add: get_owner_eq)
  moreover have "callbacks_pub c' (cl_next_msg_id c + 1) = None"
    using holds_servicesD(2) [OF h] fresh c'(2) by auto
  ultimately show ?thesis using new TaskSrv unfolding holds_services_def by simp
next
  case (TaskUnsrv s)
  then obtain k u where u: "get_owner (unsrv_topic s) (subscriptions c) = Some k"
    "unclaim k (unsrv_topic s) (subscriptions c) = (Inr u, subscriptions c')" "callbacks_pub c' = callbacks_pub c"
    using b by (auto simp: before_send_def Let_def split: option.splits sum.splits prod.splits)
  obtain q d where q: "unclaim k (unsrv_topic s) (subscriptions c) = (q, d)"
    and own: "\<And>v. owner_of d v = (if v = unsrv_topic s \<and> \<not> topic_wild (unsrv_topic s) \<and>
      owner_of (subscriptions c) (unsrv_topic s) = Some k then None else owner_of (subscriptions c) v)"
    by (rule unclaim_spec [OF client_inv_dir [OF inv]]) (rule that)
  have d: "subscriptions c' = d" using u(2) q by simp
  have "distinct ts" by (rule holds_servicesD(1) [OF h])
  then have s: "set (remove1 (unsrv_topic s) ts) = set ts - {unsrv_topic s}" by simp
  have keep: "get_owner t (subscriptions c') = Some i"
    if "t \<in> set (remove1 (unsrv_topic s) ts)" "get_owner t (subscriptions c) = Some i" for t i
    using that own [of t] d s by (auto simp: get_owner_eq split: if_splits)
  have rest: "holds_services ids (remove1 (unsrv_topic s) ts) c"
    using h \<open>distinct ts\<close> s unfolding holds_services_def by simp
  have "holds_services ?ids (remove1 (unsrv_topic s) ts) c'"
    by (rule holds_services_frame [OF rest]) (use u(3) keep in auto)
  then show ?thesis using TaskUnsrv by simp
qed (use before_send_plain [OF b] holds_services_same [OF h, of ?ids c'] in auto)

lemma client_send_services:
  assumes s: "client_send task c = returns (Inr (), c')" and "client_ok ClientRunning c" and wf: "wf_task task"
    and len: "length (sent c) < 2 ^ 32 - 1" and h: "services_held ts c"
  shows "services_held (services_after (FromClient task) ts) c'"
proof -
  have inv: "client_inv c" and num: "numbered c"
    using assms(2) by (simp_all add: client_ok_def client_valid_def)
  obtain m c1 where b: "before_send task c = returns (Inr m, c1)" and t: "transport_send m c1 = (Inr (), c')"
    using s by (auto simp: client_send_def bus_simps case_sum_eq_iff)
  have "sent c1 = sent c" "mid m = cl_next_msg_id c + 1" using before_send_id [OF b] by auto
  then have c': "sent c' = sent c @ [m]" "callbacks_pub c' = callbacks_pub c1" "subscriptions c' = subscriptions c1"
    using t by (auto simp: transport_send_def split: option.splits)
  have "cl_next_msg_id c + 1 \<notin> mid ` set (sent c)" using new_id_fresh [OF num len] by blast
  from before_send_services [OF b inv wf this h]
  show ?thesis by (rule holds_services_same) (use c' \<open>mid m = _\<close> in auto)
qed

section \<open>A step of a client\<close>

lemma client_step_services:
  assumes step: "client_step ord ev c = (ClientRunning, c')" and ok: "client_ok ClientRunning c"
    and ev: "wf_client_event ev" and len: "length (sent c) < 2 ^ 32 - 1" and h: "services_held ts c"
  shows "services_held (services_after ev ts) c'"
proof (cases ev)
  case (FromServer q)
  then obtain m where m: "q = Inr m" "after_receive ord m c = returns (Inr (), c')"
    using step by (auto simp: client_step_def split: sum.splits option.splits)
  have "client_inv c" using ok by (simp add: client_ok_def client_valid_def)
  then show ?thesis using after_receive_services [OF m(2) _ h] FromServer by simp
next
  case (FromClient t)
  then obtain u where "client_send t c = returns (Inr u, c')" "wf_task t"
    using step ev by (auto simp: client_step_def split: sum.splits option.splits if_splits)
  then show ?thesis using client_send_services [OF _ ok _ len h] FromClient by simp
next
  case KeepAliveTick
  then obtain u where "client_send TaskKeepAlive c = returns (Inr u, c')"
    using step by (auto simp: client_step_def split: sum.splits option.splits if_splits)
  moreover have "wf_task TaskKeepAlive" by (simp add: wf_task_def)
  ultimately show ?thesis using client_send_services [OF _ ok _ len h, of TaskKeepAlive c'] KeepAliveTick by simp
qed (use step h in \<open>auto simp: client_step_def\<close>)

section \<open>The bus\<close>

definition services_ok :: "bus \<Rightarrow> bool" where
  "services_ok b \<longleftrightarrow> (\<forall>n e. bus_endpoints b n = Some e \<and> ep_outcome e = ClientRunning \<longrightarrow>
     services_held (ep_services e) (ep_client e))"

lemma services_okD:
  "services_ok b \<Longrightarrow> bus_endpoints b n = Some e \<Longrightarrow> ep_outcome e = ClientRunning \<Longrightarrow>
   services_held (ep_services e) (ep_client e)"
  unfolding services_ok_def by blast

lemma services_ok_endpoint:
  assumes "services_ok b" and "bus_endpoints b' = (bus_endpoints b)(n \<mapsto> e)"
    and "ep_outcome e = ClientRunning \<Longrightarrow> services_held (ep_services e) (ep_client e)"
  shows "services_ok b'"
  using assms unfolding services_ok_def by (metis fun_upd_apply option.inject)

lemma bus_step_services:
  assumes "bus_step rt ord allowed b b'" and w: "wired b" and wi: "within_ids b" and s: "services_ok b"
  shows "services_ok b'"
  using assms(1)
proof cases
  case (Connect n acks rsps pubs reqs)
  show ?thesis
    by (rule services_ok_endpoint [OF s, of _ n "new_endpoint (client_start acks rsps pubs reqs)"])
       (simp_all add: Connect holds_services_def new_endpoint_def client_start_def)
next
  case (Stub cid u ev)
  show ?thesis
  proof (cases "bus_endpoints b (ss_transport u)")
    case None
    then have "bus_endpoints b' = bus_endpoints b"
      by (auto simp: Stub(1) after_stub_def split: prod.split)
    then show ?thesis using s by (simp add: services_ok_def)
  next
    case (Some e)
    show ?thesis
      by (rule services_ok_endpoint [OF s, of _ "ss_transport u" "e\<lparr>ep_read := ep_read e + stub_reads ev\<rparr>"])
         (use Some services_okD [OF s Some] in \<open>simp_all add: Stub(1) after_stub_def split: prod.split\<close>)
  qed
next
  case (Client n e ev)
  obtain out c where st: "client_step ord ev (ep_client e) = (out, c)" by fastforce
  have ok: "client_ok ClientRunning (ep_client e)"
    using wiredD(7) [OF w Client(2)] Client(3) by (simp add: endpoint_ok_def)
  have len: "length (sent (ep_client e)) < 2 ^ 32 - 1" using wi Client(2) unfolding within_ids_def by blast
  show ?thesis
    by (rule services_ok_endpoint [OF s, of _ n "e\<lparr>ep_client := c, ep_outcome := out,
        ep_got := ep_got e + client_gets ev, ep_services := services_after ev (ep_services e)\<rparr>"])
       (use client_step_services [OF _ ok client_offered_wf [OF Client(4)] len services_okD [OF s Client(2,3)]] st
        in \<open>simp_all add: Client(1) after_client_def\<close>)
next
  case (ClientSinkBreaks n e err)
  then show ?thesis using services_okD [OF s, of n e]
    by (intro services_ok_endpoint [OF s]) (auto intro: holds_services_same)
next
  case (CallerDrops n e r)
  then show ?thesis using services_okD [OF s, of n e]
    by (intro services_ok_endpoint [OF s]) (auto intro: holds_services_same)
qed (use s in \<open>simp_all add: services_ok_def\<close>)

lemma services_ok_new: "services_ok (bus_new c)"
  by (simp add: services_ok_def bus_new_def)

end
