(* ===== verification/Bus_Invariant.thy ===== *)
theory Bus_Invariant
  imports Bus_Tokens Bus_Services
begin

text \<open>
  The turns of stubs and clients keep the accounts too, so the invariant of the whole bus
  holds in every reachable state.
\<close>

section \<open>A turn of a stub\<close>

lemma tokens_stub:
  assumes w: "wired b" and t: "tokens_ok b" and s: "bus_sessions b cid = Some s" and off: "stub_offered b s ev"
  shows "tokens_ok (after_stub cid s ev b)" (is "tokens_ok ?b")
proof (rule tokens_okI)
  fix n e assume e: "bus_endpoints ?b n = Some e" "ep_outcome e = ClientRunning"
  obtain r stub ts ms p where "stub_serve [ev] (ss_stub s) = (r, stub)"
    and p: "bus_endpoints b (ss_transport s) = Some p"
    and b': "?b = b\<lparr>bus_sessions := (bus_sessions b)(cid \<mapsto>
          s\<lparr>ss_stub := stub, ss_serving := (r = None), ss_taken := ss_taken s + stub_takes ev\<rparr>),
        bus_endpoints := (bus_endpoints b)(ss_transport s \<mapsto> p\<lparr>ep_read := ep_read p + stub_reads ev\<rparr>),
        bus_tasks := bus_tasks b @ ts,
        bus_core := (if r = None then bus_core b else close_chan (ss_chan s) (bus_core b))\<rparr>"
    and "cs_id stub = cid" and ms: "cs_sent stub = cs_sent (ss_stub s) @ ms"
    and ts: "ts = [] \<or> ts = [Deregister cid] \<or> (\<exists>m. ev = FromTransport (Some (Inr m)) \<and>
      m \<in> set (sent (ep_client p)) \<and> ep_read p < length (sent (ep_client p)) \<and>
      m = sent (ep_client p) ! ep_read p \<and> ts = [Message cid m])"
    and mc: "ms = [] \<or> (\<exists>m. ev = FromCore (Some m) \<and> ms = [m])"
    by (rule after_stub_parts [OF w s off])
  let ?s = "s\<lparr>ss_stub := stub, ss_serving := (r = None), ss_taken := ss_taken s + stub_takes ev\<rparr>"
  have same: "same_sessions b ?b" by (rule after_stub_same [OF w s off])
  note hm = same_sessions_home [OF same]
  obtain f where f: "bus_endpoints b n = Some f" "ep_outcome f = ClientRunning"
    "ep_client e = ep_client f" "ep_got e = ep_got f"
    "ep_read e = (if n = ss_transport s then ep_read f + stub_reads ev else ep_read f)"
    using e p by (cases "n = ss_transport s") (auto simp: b')
  have buf: "buffer (chans (bus_core ?b) h) = buffer (chans (bus_core b) h)" for h
    by (simp add: b')
  have asked: "mset (asked_ids ?b n e) \<subseteq># mset (asked_ids b n f)"
  proof (cases "n = ss_transport s")
    case True
    then have "p = f" using p f(1) by simp
    moreover have "stub_reads ev \<le> 1"
      by (auto simp: stub_reads_def split: stub_event.split option.split sum.split)
    moreover have "home b cid = Some n" using s True by (simp add: home_def)
    moreover have "bus_tasks ?b = bus_tasks b @ ts" by (simp add: b')
    ultimately show ?thesis
      using asked_stub [of "home b" cid n ts "ep_read f" "sent (ep_client f)" "stub_reads ev" "bus_tasks b"]
        ts True f(3,5) unfolding asked_ids_def hm by (auto simp: stub_reads_def)
  next
    case False
    then have "queue_of (home b) n ts = []" using ts s by (auto simp: home_def)
    then show ?thesis using False f(3,5) by (simp add: asked_ids_def hm) (simp add: b')
  qed
  have coming: "\<exists>D. on_way b n f D \<and> mset D' \<subseteq># mset D" if D': "on_way ?b n e D'" for D'
  proof -
    consider "D' = []" | c u where "bus_sessions ?b c = Some u" "ss_transport u = n" "D' = coming ?b e u"
      using D' unfolding on_way_def by blast
    then show ?thesis
    proof cases
      case (2 c u)
      show ?thesis
      proof (cases "c = cid")
        case True
        then have u: "u = ?s" using 2(1) by (simp add: b')
        have n: "ss_transport s = n" using 2(2) u by simp
        have got: "ep_got f \<le> length (cs_sent (ss_stub s))"
          using wiredD(7) [OF w f(1)] s n unfolding endpoint_ok_def got_ok_def by blast
        have "ms = [] \<or> (\<exists>m. ms = [m] \<and> stub_takes ev = 1 \<and>
            ss_taken s < length (buffer (chans (bus_core b) (ss_chan s))) \<and>
            m = buffer (chans (bus_core b) (ss_chan s)) ! ss_taken s)"
          using mc off by (auto simp: stub_takes_def)
        moreover have "stub_takes ev \<le> 1"
          by (auto simp: stub_takes_def split: stub_event.split option.split)
        ultimately have "mset (coming ?b e ?s) \<subseteq># mset (coming b f s)"
          using coming_stub [OF got] ms f(4) unfolding coming_def buf by simp
        then show ?thesis using s n 2(3) u unfolding on_way_def by blast
      next
        case False
        then have "bus_sessions b c = Some u" using 2(1) by (simp add: b')
        moreover have "coming ?b e u = coming b f u" using f(4) unfolding coming_def buf by simp
        ultimately show ?thesis using 2(2,3) unfolding on_way_def by auto
      qed
    qed (auto intro: exI [of _ "[]"])
  qed
  show "account ?b n e"
  proof (rule account_frame [OF tokens_okD [OF t f(1,2)]])
    show "held ?b n i j \<Longrightarrow> held b n i j" for i j
      by (simp add: held_def hm) (simp add: b' split: if_splits)
    fix D' assume "on_way ?b n e D'"
    then obtain D where "on_way b n f D" "mset D' \<subseteq># mset D" using coming by blast
    then show "\<exists>D. on_way b n f D \<and> mset (asked_ids ?b n e @ D') \<subseteq># mset (asked_ids b n f @ D)"
      using asked by (auto intro: subset_mset.add_mono)
  qed (use f(3) in simp)
qed

section \<open>A step of a client\<close>

lemma not_yet_used:
  assumes "client_ok ClientRunning c" and "length (sent c) + 1 < 2 ^ 32"
  shows "cl_next_msg_id c + 1 \<notin> dom (callbacks_rsp c)"
proof
  assume "cl_next_msg_id c + 1 \<in> dom (callbacks_rsp c)"
  moreover have "dom (callbacks_rsp c) \<subseteq> of_nat ` {1..length (sent c)}"
    and "cl_next_msg_id c + 1 = of_nat (length (sent c) + 1)"
    using assms(1) by (simp_all add: client_ok_def numbered_def)
  ultimately have "(of_nat (length (sent c) + 1) :: u32) \<in> of_nat ` {1..length (sent c)}" by auto
  then obtain k where k: "k \<le> length (sent c)" "(of_nat (length (sent c) + 1) :: u32) = of_nat k"
    by (meson atLeastAtMost_iff imageE)
  then have "unat (of_nat (length (sent c) + 1) :: u32) = unat (of_nat k :: u32)" by simp
  then show False
    using k(1) assms(2) unat_small [of k] unat_small [of "length (sent c) + 1"] by linarith
qed

lemma mset_rsp_drop_Suc: "mset (rsp_ids (drop (Suc k) ms)) \<subseteq># mset (rsp_ids (drop k ms))"
proof (cases "k < length ms")
  case True
  then have "drop k ms = ms ! k # drop (Suc k) ms" by (simp add: Cons_nth_drop_Suc)
  then show ?thesis by simp
qed simp

definition stepped :: "endpoint \<Rightarrow> client_event \<Rightarrow> client_outcome \<Rightarrow> client_core \<Rightarrow> endpoint" where
  "stepped e ev out c = e\<lparr>ep_client := c, ep_outcome := out, ep_got := ep_got e + client_gets ev,
     ep_services := services_after ev (ep_services e)\<rparr>"

lemma stepped_simps [simp]:
  "ep_client (stepped e ev out c) = c" "ep_outcome (stepped e ev out c) = out"
  "ep_got (stepped e ev out c) = ep_got e + client_gets ev" "ep_read (stepped e ev out c) = ep_read e"
  "ep_services (stepped e ev out c) = services_after ev (ep_services e)"
  by (simp_all add: stepped_def)

lemma coming_stepped: "mset (coming b (stepped e ev out c) s) \<subseteq># mset (coming b e s)"
proof -
  have "client_gets ev = 0 \<or> client_gets ev = 1"
    by (auto simp: client_gets_def split: client_event.split sum.split)
  then show ?thesis using mset_rsp_drop_Suc [of "ep_got e" "cs_sent (ss_stub s)"]
    by (auto simp: coming_def)
qed

lemma on_way_stepped:
  assumes "on_way b n (stepped e ev out c) D'"
  shows "\<exists>D. on_way b n e D \<and> mset D' \<subseteq># mset D"
proof -
  consider "D' = []" | cid s where "bus_sessions b cid = Some s" "ss_transport s = n"
      "D' = coming b (stepped e ev out c) s"
    using assms unfolding on_way_def by blast
  then show ?thesis
  proof cases
    case (2 cid s)
    then show ?thesis using coming_stepped [of b e ev out c s] unfolding on_way_def by blast
  qed (auto intro: exI [of _ "[]"])
qed

lemma on_way_received:
  assumes w: "wired b" and off: "client_offered allowed b n e (FromServer (Inr m))"
    and r: "content m = ServerRsp r" and D': "on_way b n (stepped e (FromServer (Inr m)) out c) D'"
  shows "\<exists>D. on_way b n e D \<and> add_mset (rsp_req_id r) (mset D') \<subseteq># mset D"
proof -
  obtain cid s where s: "bus_sessions b cid = Some s" "ss_transport s = n"
    and m: "ep_got e < length (cs_sent (ss_stub s))" "m = cs_sent (ss_stub s) ! ep_got e"
    using off by auto
  have way: "on_way b n e (coming b e s)" using s unfolding on_way_def by blast
  have "coming b e s = rsp_req_id r # coming b (stepped e (FromServer (Inr m)) out c) s"
    using Cons_nth_drop_Suc [OF m(1), symmetric] m(2) r by (simp add: coming_def client_gets_def)
  moreover have "D' = [] \<or> D' = coming b (stepped e (FromServer (Inr m)) out c) s"
    using D' session_unique(2) [OF w _ s(1)] unfolding on_way_def s(2) by blast
  ultimately show ?thesis using way by auto
qed

lemma asked_stepped:
  assumes "ep_read e \<le> length (sent (ep_client e))" and "sent c = sent (ep_client e) @ ns"
  shows "asked_ids b n (stepped e ev out c) = asked_ids b n e @ req_ids ns"
  using assms by (simp add: asked_ids_def)

lemma client_account:
  assumes w: "wired b" and a: "account b n e" and n: "bus_endpoints b n = Some e"
    and off: "client_offered allowed b n e ev" and run: "ep_outcome e = ClientRunning"
    and eff: "client_effect ev (ep_client e) c" and lim: "length (sent c) < 2 ^ 32 - 1"
  shows "account b n (stepped e ev out c)" (is "account b n ?e")
proof -
  have ok: "client_ok ClientRunning (ep_client e)" and rd: "ep_read e \<le> length (sent (ep_client e))"
    using wiredD(7) [OF w n] run by (simp_all add: endpoint_ok_def)
  note asked = asked_stepped [OF rd, of c _ b n ev out]
  have calm: ?thesis if c: "calm (ep_client e) c"
  proof (rule account_frame [OF a])
    obtain ns where ns: "sent c = sent (ep_client e) @ ns" "req_ids ns = []" "callbacks_rsp c = callbacks_rsp (ep_client e)"
      using c unfolding calm_def by blast
    show "dom (callbacks_rsp (ep_client ?e)) = dom (callbacks_rsp (ep_client e))" using ns(3) by simp
    fix D' assume "on_way b n ?e D'"
    then obtain D where "on_way b n e D" "mset D' \<subseteq># mset D" using on_way_stepped by blast
    then show "\<exists>D. on_way b n e D \<and> mset (asked_ids b n ?e @ D') \<subseteq># mset (asked_ids b n e @ D)"
      using asked [OF ns(1)] ns(2) by auto
  qed
  have "?thesis" if m: "ev = FromServer (Inr m)" "content m = ServerRsp r" for m r
    unfolding account_def
  proof (intro allI impI)
    have c: "sent c = sent (ep_client e) @ []" "dom (callbacks_rsp c) = dom (callbacks_rsp (ep_client e)) - {rsp_req_id r}"
      using eff m by (simp_all add: client_effect_def)
    fix D' assume "on_way b n ?e D'"
    then obtain D where D: "on_way b n e D" "add_mset (rsp_req_id r) (mset D') \<subseteq># mset D"
      using on_way_received [OF w _ m(2)] off m(1) by blast
    have "add_mset (rsp_req_id r) (mset (asked_ids b n ?e @ D')) \<subseteq># mset (asked_ids b n e @ D)"
      using D(2) asked [OF c(1)] by simp
    then show "balanced (mset (asked_ids b n ?e @ D')) (held b n) (dom (callbacks_rsp (ep_client ?e)))"
      using balanced_deliver(2) [OF accountD [OF a D(1)]] c(2) by simp
  qed
  moreover have "?thesis" if q: "ev = FromClient (TaskReq q x h)" for q x h
    unfolding account_def
  proof (intro allI impI)
    let ?i = "cl_next_msg_id (ep_client e) + 1"
    have c: "sent c = sent (ep_client e) @ [Msg ?i (ClientReq q)]"
      "dom (callbacks_rsp c) = insert ?i (dom (callbacks_rsp (ep_client e)))"
      using eff q by (simp_all add: client_effect_def)
    have new: "?i \<notin> dom (callbacks_rsp (ep_client e))"
      by (rule not_yet_used [OF ok]) (use lim c(1) in simp)
    fix D' assume "on_way b n ?e D'"
    then obtain D where D: "on_way b n e D" "mset D' \<subseteq># mset D" using on_way_stepped by blast
    have "mset (asked_ids b n ?e @ D') \<subseteq># add_mset ?i (mset (asked_ids b n e @ D))"
      using D(2) asked [OF c(1)] by simp
    then show "balanced (mset (asked_ids b n ?e @ D')) (held b n) (dom (callbacks_rsp (ep_client ?e)))"
      using balanced_new [OF accountD [OF a D(1)] _ new] c(2) by simp
  qed
  moreover have "calm (ep_client e) c"
    if "\<nexists>m r. ev = FromServer (Inr m) \<and> content m = ServerRsp r" "\<nexists>q x h. ev = FromClient (TaskReq q x h)"
      "\<nexists>y. ev = FromServer (Inl y)"
    using eff that by (auto simp: client_effect_def split: client_event.splits sum.splits
        protocol_server.splits client_task.splits)
  moreover have "calm (ep_client e) c" if "ev = FromServer (Inl y)" for y
    using eff that by (simp add: client_effect_def)
  ultimately show ?thesis using calm by blast
qed

lemma held_endpoints [simp]: "held (b\<lparr>bus_endpoints := es\<rparr>) n = held b n"
  by (simp add: held_def fun_eq_iff)

lemma account_endpoints [simp]: "account (b\<lparr>bus_endpoints := es\<rparr>) n e = account b n e"
  by (simp add: account_def asked_ids_def)

lemma tokens_client:
  assumes w: "wired b" and t: "tokens_ok b" and n: "bus_endpoints b n = Some e"
    and run: "ep_outcome e = ClientRunning" and off: "client_offered allowed b n e ev"
    and wi: "within_ids (after_client ord n e ev b)"
  shows "tokens_ok (after_client ord n e ev b)"
proof -
  obtain out c where s: "client_step ord ev (ep_client e) = (out, c)" by fastforce
  then have b': "after_client ord n e ev b = b\<lparr>bus_endpoints := (bus_endpoints b)(n \<mapsto> stepped e ev out c)\<rparr>"
    by (simp add: after_client_def stepped_def)
  have lim: "length (sent c) < 2 ^ 32 - 1" using wi unfolding b' within_ids_def by (auto split: if_splits)
  show ?thesis
    unfolding b'
  proof (rule tokens_okI)
    fix k f
    assume f: "bus_endpoints (b\<lparr>bus_endpoints := (bus_endpoints b)(n \<mapsto> stepped e ev out c)\<rparr>) k = Some f"
      "ep_outcome f = ClientRunning"
    show "account (b\<lparr>bus_endpoints := (bus_endpoints b)(n \<mapsto> stepped e ev out c)\<rparr>) k f"
    proof (cases "k = n")
      case True
      then have "f = stepped e ev out c" "out = ClientRunning" using f by auto
      then show ?thesis
        using client_account [OF w tokens_okD [OF t n run] n off run client_step_effect lim, of ord out] s True
        by simp
    qed (use f tokens_okD [OF t] in simp)
  qed
qed

section \<open>Clients that panic\<close>

definition no_panic :: "bus \<Rightarrow> bool" where
  "no_panic b \<longleftrightarrow> (\<forall>n e. bus_endpoints b n = Some e \<longrightarrow> ep_outcome e \<noteq> ClientPanicked)"

lemma response_awaited:
  assumes "wired b" and "account b n e" and "client_offered allowed b n e (FromServer (Inr m))"
    and "content m = ServerRsp r"
  shows "rsp_req_id r \<in> dom (callbacks_rsp (ep_client e))"
proof -
  obtain D where "on_way b n e D" "add_mset (rsp_req_id r) (mset []) \<subseteq># mset D"
    using on_way_received [OF assms(1,3,4) on_way_empty] by blast
  then have "rsp_req_id r \<in># mset (asked_ids b n e @ D)" by (auto dest: mset_subset_eqD)
  then show ?thesis using balancedD(2) [OF accountD [OF assms(2) \<open>on_way b n e D\<close>]] by blast
qed

lemma client_not_excused:
  assumes "wired b" and "account b n e" and "client_offered allowed b n e ev"
    and held: "services_held (ep_services e) (ep_client e)"
  shows "\<not> excused ev (ep_client e)"
proof
  assume "excused ev (ep_client e)"
  then consider m r where "ev = FromServer (Inr m)" "content m = ServerRsp r"
      "rsp_req_id r \<notin> dom (callbacks_rsp (ep_client e))"
    | m where "ev = FromClient (TaskUnsrv m)" "get_owner (unsrv_topic m) (subscriptions (ep_client e)) = None"
    unfolding excused_def by blast
  then show False
  proof cases
    case (1 m r)
    then show ?thesis using response_awaited [OF assms(1,2) _ 1(2)] assms(3) by blast
  next
    case (2 m)
    then have "unsrv_topic m \<in> set (ep_services e)" using assms(3) by simp
    then show ?thesis using holds_servicesD(3) [OF held] 2(2) by fastforce
  qed
qed

lemma client_keeps_running:
  assumes "wired b" and "account b n e" and "client_offered allowed b n e ev"
    and "bus_endpoints b n = Some e" and "hash_iteration ord"
    and "services_held (ep_services e) (ep_client e)"
  shows "fst (client_step ord ev (ep_client e)) \<noteq> ClientPanicked"
proof -
  have "client_inv (ep_client e)"
    using wiredD(7) [OF assms(1,4)] by (simp add: endpoint_ok_def client_ok_def client_valid_def)
  from client_step_inv [OF this client_offered_wf [OF assms(3)] assms(5)]
  show ?thesis using client_not_excused [OF assms(1-3,6)] by blast
qed

section \<open>The invariant\<close>

definition bus_inv :: "bus \<Rightarrow> bool" where
  "bus_inv b \<longleftrightarrow> wired b \<and> tokens_ok b \<and> within_ids b \<and> no_panic b \<and> services_ok b"

lemma open_session_none: "\<forall>n. t \<noteq> Register n \<Longrightarrow> open_session t now b = bus_sessions b"
  by (cases t) simp_all

lemma core_task_wired_tokens:
  assumes w: "wired b" and t: "tokens_ok b" and wi: "within_ids b" and q: "bus_tasks b = t # ts"
    and run: "core_run rt [Task t] (bus_core b) = (out, c)"
  shows "wired (b\<lparr>bus_core := c, bus_outcome := out, bus_tasks := ts, bus_sessions := open_session t now b\<rparr>) \<and>
    tokens_ok (b\<lparr>bus_core := c, bus_outcome := out, bus_tasks := ts, bus_sessions := open_session t now b\<rparr>)"
proof (cases "\<exists>n. t = Register n")
  case True
  then obtain n where n: "t = Register n" by blast
  have c: "c = snd (register_client n (bus_core b))" using core_register_moves(1) run unfolding n .
  have q': "bus_tasks b = Register n # ts" using q n by simp
  show ?thesis unfolding n c using wired_register [OF w wi q'] tokens_register [OF w t wi q'] by blast
next
  case False
  then have n: "\<forall>n. t \<noteq> Register n" by simp
  have same: "b\<lparr>bus_core := c, bus_outcome := out, bus_tasks := ts, bus_sessions := open_session t now b\<rparr> =
      b\<lparr>bus_core := c, bus_outcome := out, bus_tasks := ts\<rparr>"
    using open_session_none [OF n, of now b] by (cases b) simp
  show ?thesis unfolding same
    using wired_core_task [OF w q n run] tokens_core_task [OF w t q core_task_moves(1) [OF run n]] by blast
qed

lemma bus_step_wired_tokens:
  assumes "bus_step rt ord allowed b b'" and w: "wired b" and t: "tokens_ok b"
    and wi: "within_ids b" "within_ids b'"
  shows "wired b' \<and> tokens_ok b'"
  using assms(1)
proof cases
  case (Connect n acks rsps pubs reqs)
  then show ?thesis using wired_connect [OF w] tokens_connect [OF w t] by blast
next
  case (CoreTask u ts out c now)
  then show ?thesis using core_task_wired_tokens [OF w t wi(1)] by blast
next
  case (CoreStops out c)
  then have "b' = b\<lparr>bus_outcome := out\<rparr>" by (cases b) auto
  then show ?thesis using wired_outcome [OF w] tokens_outcome [OF t] by blast
next
  case (Timer k)
  then show ?thesis using wired_timer [OF w] tokens_timer [OF t] by blast
next
  case (Stub cid s e)
  then show ?thesis using wired_stub [OF w] tokens_stub [OF w t] by blast
next
  case (Client n e ev)
  then show ?thesis using wired_client [OF w] tokens_client [OF w t] wi(2) by blast
next
  case (ClientSinkBreaks n e err)
  then show ?thesis using wired_sink_breaks [OF w] tokens_same_endpoint [OF t] by simp
next
  case (CallerDrops n e r)
  then show ?thesis using wired_caller_drops [OF w] tokens_same_endpoint [OF t] by simp
qed

lemma bus_step_no_panic:
  assumes "bus_step rt ord allowed b b'" and "wired b" and "tokens_ok b" and "no_panic b" and "hash_iteration ord"
    and held: "services_ok b"
  shows "no_panic b'"
  using assms(1)
proof cases
  case (Client n e ev)
  have "fst (client_step ord ev (ep_client e)) \<noteq> ClientPanicked"
    using client_keeps_running [OF assms(2) tokens_okD [OF assms(3)]] Client assms(5)
      services_okD [OF held] by blast
  then show ?thesis using assms(4) Client(1)
    by (auto simp: no_panic_def after_client_def split: prod.split)
qed (use assms(4) in \<open>auto simp: no_panic_def new_endpoint_def after_stub_def split: prod.split if_splits\<close>)

lemma bus_move_inv:
  assumes "bus_move rt ord allowed b b'" and "hash_iteration ord" and "bus_inv b"
  shows "bus_inv b'"
  using assms bus_step_wired_tokens bus_step_no_panic bus_step_services unfolding bus_inv_def bus_move_def by blast

lemma bus_inv_new:
  assumes "regex_engine rx" and "core_new rx = returns c"
  shows "bus_inv (bus_new c)"
proof -
  obtain d where "core_new rx = returns (empty_core\<lparr>directory := d\<rparr>)" "dir_inv d"
    by (rule core_new_spec [OF assms(1)])
  then have c: "c = empty_core\<lparr>directory := d\<rparr>" "core_inv c"
    using assms(2) core_inv_directory [OF core_inv_empty] by auto
  have "ids_ok (bus_new c)" unfolding ids_ok_def c(1)
    by (intro exI [of _ 0]) (simp add: bus_new_def empty_core_def)
  moreover have "regs_ok (bus_new c)" "sessions_ok (bus_new c)" "routes_ok (bus_new c)"
    unfolding c(1)
    by (simp_all add: regs_ok_def sessions_ok_def routes_ok_def bus_new_def empty_core_def)
  ultimately have "wired (bus_new c)" using c(2) unfolding wired_def by (simp add: bus_new_def)
  then show ?thesis
    using services_ok_new [of c] by (simp add: bus_inv_def tokens_ok_def within_ids_def no_panic_def bus_new_def)
qed

text \<open>The whole bus as a transition system.\<close>

interpretation bus_runs: transition_system
  "\<lambda>b. \<exists>rx c. regex_engine rx \<and> core_new rx = returns c \<and> b = bus_new c"
  "bus_move rt ord allowed" "\<lambda>b. hash_iteration ord \<longrightarrow> bus_inv b"
  for rt ord allowed
proof
  show "hash_iteration ord \<longrightarrow> bus_inv b"
    if "\<exists>rx c. regex_engine rx \<and> core_new rx = returns c \<and> b = bus_new c" for b
    using that bus_inv_new by blast
  show "hash_iteration ord \<longrightarrow> bus_inv b'"
    if "bus_move rt ord allowed b b'" "hash_iteration ord \<longrightarrow> bus_inv b" for b b'
    using that bus_move_inv by blast
qed

lemma bus_reachable_inv:
  assumes "regex_engine rx" and "core_new rx = returns c" and "hash_iteration ord"
    and "bus_reachable rt ord allowed c b"
  shows "bus_inv b"
  using bus_runs.reachable_inv [of "bus_new c" rt ord allowed b] assms
  unfolding bus_reachable_def by blast

text \<open>Invariants of reachable buses that rest on the main one.\<close>

lemma bus_reachable_induct:
  assumes "regex_engine rx" and "core_new rx = returns c" and "hash_iteration ord"
    and "bus_reachable rt ord allowed c b" and "P (bus_new c)"
    and step: "\<And>b b'. bus_inv b \<Longrightarrow> P b \<Longrightarrow> bus_step rt ord allowed b b' \<Longrightarrow> P b'"
  shows "P b"
proof -
  have "(bus_move rt ord allowed)\<^sup>*\<^sup>* (bus_new c) b" using assms(4) unfolding bus_reachable_def .
  then show ?thesis
  proof (induction rule: rtranclp_induct)
    case (step b1 b2)
    have "bus_reachable rt ord allowed c b1" using step(1) by (simp add: bus_reachable_def)
    then have "bus_inv b1" by (rule bus_reachable_inv [OF assms(1-3)])
    then show ?case using step(2,3) assms(6) unfolding bus_move_def by blast
  qed (rule assms(5))
qed

end
