(* ===== verification/Bus_Exec.thy ===== *)
theory Bus_Exec
  imports Bus_Invariant
begin

text \<open>
  Runs of the bus as lists of events: \<open>bus_do\<close> is the step relation as a function of what
  happens next, and the states that \<open>bus_exec\<close> computes from lists of events are exactly
  the reachable ones.
\<close>

datatype bus_event =
    Connects "nat \<Rightarrow> ack_msg oneshot" "nat \<Rightarrow> rsp_msg oneshot" "nat \<Rightarrow> pub_msg chan"
      "nat \<Rightarrow> (u32 \<times> req_msg) chan" \<comment> \<open>with the client's heaps\<close>
  | Works nat \<comment> \<open>the core takes a task, at that time\<close>
  | Stopping
  | Firing nat \<comment> \<open>a request timer\<close>
  | Reading u32 \<comment> \<open>a stub reads its client's next message\<close>
  | Relaying u32 \<comment> \<open>a stub relays the core's next message\<close>
  | Serving u32 stub_event \<comment> \<open>a stub takes what it is offered\<close>
  | Receiving nat u32 \<comment> \<open>a client reads the next message of its session\<close>
  | Acts nat client_event \<comment> \<open>anything else a client can do\<close>
  | Breaking nat bus_error \<comment> \<open>a client's connection breaks\<close>
  | Dropping nat receiver \<comment> \<open>a caller of that client drops a receiver\<close>

abbreviation Connecting :: bus_event where
  "Connecting \<equiv> Connects (\<lambda>_. new_oneshot) (\<lambda>_. new_oneshot) (\<lambda>_. new_chan) (\<lambda>_. new_chan)"

abbreviation Tasking :: bus_event where
  "Tasking \<equiv> Works 0"

abbreviation Calling :: "nat \<Rightarrow> client_task \<Rightarrow> bus_event" where
  "Calling n t \<equiv> Acts n (FromClient t)"

definition serve_turn :: "u32 \<Rightarrow> (session \<Rightarrow> stub_event option) \<Rightarrow> bus \<Rightarrow> bus option" where
  "serve_turn cid f b =
     (case bus_sessions b cid of
        None \<Rightarrow> None
      | Some s \<Rightarrow>
          (case f s of
             None \<Rightarrow> None
           | Some e \<Rightarrow> if ss_serving s \<and> stub_offered b s e then Some (after_stub cid s e b) else None))"

definition running_endpoint :: "bus \<Rightarrow> nat \<Rightarrow> endpoint option" where
  "running_endpoint b n =
     (case bus_endpoints b n of
        None \<Rightarrow> None
      | Some e \<Rightarrow> (case ep_outcome e of ClientRunning \<Rightarrow> Some e | _ \<Rightarrow> None))"

fun may_act :: "(client_task \<Rightarrow> bool) \<Rightarrow> client_event \<Rightarrow> endpoint \<Rightarrow> bool" where
  "may_act allowed (FromServer (Inr m)) e \<longleftrightarrow> False"
| "may_act allowed (FromClient t) e \<longleftrightarrow> allowed t \<and> wf_task t \<and> gives_up_held t (ep_services e)"
| "may_act allowed ev e \<longleftrightarrow> True"

fun bus_do ::
    "runtime \<Rightarrow> (u32 set \<Rightarrow> u32 list) \<Rightarrow> (client_task \<Rightarrow> bool) \<Rightarrow> bus_event \<Rightarrow> bus \<Rightarrow> bus option" where
  "bus_do rt ord allowed (Connects acks rsps pubs reqs) b =
     Some (b\<lparr>bus_endpoints := (bus_endpoints b)(bus_next b \<mapsto>
          new_endpoint (client_start acks rsps pubs reqs)),
        bus_tasks := bus_tasks b @ [Register (bus_next b)], bus_next := bus_next b + 1\<rparr>)"
| "bus_do rt ord allowed (Works now) b =
     (case (bus_outcome b, bus_tasks b) of
        (Running, t # ts) \<Rightarrow>
          (case core_run rt [Task t] (bus_core b) of
             (out, c) \<Rightarrow> Some (b\<lparr>bus_core := c, bus_outcome := out, bus_tasks := ts,
                bus_sessions := open_session t now b\<rparr>))
      | _ \<Rightarrow> None)"
| "bus_do rt ord allowed Stopping b =
     (case bus_outcome b of
        Running \<Rightarrow> (case core_run rt [StopSignal] (bus_core b) of
            (out, c) \<Rightarrow> Some (b\<lparr>bus_core := c, bus_outcome := out\<rparr>))
      | _ \<Rightarrow> None)"
| "bus_do rt ord allowed (Firing k) b =
     (if k < length (spawned_timers (bus_core b)) \<and> k \<notin> bus_fired b
      then Some (b\<lparr>bus_fired := insert k (bus_fired b),
        bus_tasks := bus_tasks b @ [RequestTimeout (spawned_timers (bus_core b) ! k)]\<rparr>)
      else None)"
| "bus_do rt ord allowed (Reading cid) b =
     serve_turn cid (\<lambda>s. case bus_endpoints b (ss_transport s) of
         None \<Rightarrow> None
       | Some e \<Rightarrow> if ep_read e < length (sent (ep_client e))
           then Some (FromTransport (Some (Inr (sent (ep_client e) ! ep_read e)))) else None) b"
| "bus_do rt ord allowed (Relaying cid) b =
     serve_turn cid (\<lambda>s.
       if ss_taken s < length (buffer (chans (bus_core b) (ss_chan s)))
       then Some (FromCore (Some (buffer (chans (bus_core b) (ss_chan s)) ! ss_taken s))) else None) b"
| "bus_do rt ord allowed (Serving cid e) b = serve_turn cid (\<lambda>s. Some e) b"
| "bus_do rt ord allowed (Acts n ev) b =
     (case running_endpoint b n of
        None \<Rightarrow> None
      | Some e \<Rightarrow> if may_act allowed ev e then Some (after_client ord n e ev b) else None)"
| "bus_do rt ord allowed (Breaking n err) b =
     (case bus_endpoints b n of
        None \<Rightarrow> None
      | Some e \<Rightarrow> Some (b\<lparr>bus_endpoints := (bus_endpoints b)(n \<mapsto>
          e\<lparr>ep_client := (ep_client e)\<lparr>sink_error := Some err\<rparr>\<rparr>)\<rparr>))"
| "bus_do rt ord allowed (Dropping n r) b =
     (case bus_endpoints b n of
        None \<Rightarrow> None
      | Some e \<Rightarrow> Some (b\<lparr>bus_endpoints := (bus_endpoints b)(n \<mapsto>
          e\<lparr>ep_client := drop_receiver r (ep_client e)\<rparr>)\<rparr>))"
| "bus_do rt ord allowed (Receiving n cid) b =
     (case running_endpoint b n of
        None \<Rightarrow> None
      | Some e \<Rightarrow>
          (case bus_sessions b cid of
             None \<Rightarrow> None
           | Some s \<Rightarrow> if ss_transport s = n \<and> ep_got e < length (cs_sent (ss_stub s))
               then Some (after_client ord n e (FromServer (Inr (cs_sent (ss_stub s) ! ep_got e))) b)
               else None))"

definition in_ids :: "bus \<Rightarrow> bool" where
  \<comment> \<open>\<open>within_ids\<close>, by the connections there are\<close>
  "in_ids b \<longleftrightarrow> int (bus_next b) < 4294967295 \<and>
     (\<forall>n \<in> set [0..<bus_next b]. case bus_endpoints b n of
        None \<Rightarrow> True | Some e \<Rightarrow> int (length (sent (ep_client e))) < 4294967295)"

fun bus_exec ::
    "runtime \<Rightarrow> (u32 set \<Rightarrow> u32 list) \<Rightarrow> (client_task \<Rightarrow> bool) \<Rightarrow> bus_event list \<Rightarrow> bus \<Rightarrow> bus option" where
  "bus_exec rt ord allowed [] b = Some b"
| "bus_exec rt ord allowed (ev # evs) b =
     (case bus_do rt ord allowed ev b of
        None \<Rightarrow> None
      | Some b' \<Rightarrow> if in_ids b' then bus_exec rt ord allowed evs b' else None)"

section \<open>Computed runs are runs\<close>

lemma serve_turn_step:
  assumes "serve_turn cid f b = Some b'"
  shows "bus_step rt ord allowed b b'"
  using assms by (auto simp: serve_turn_def intro: Stub split: option.splits if_splits)

lemma running_endpoint_Some:
  "running_endpoint b n = Some e \<longleftrightarrow> bus_endpoints b n = Some e \<and> ep_outcome e = ClientRunning"
  by (auto simp: running_endpoint_def split: option.splits client_outcome.splits)

lemma may_act_iff:
  "may_act allowed ev e \<longleftrightarrow> client_offered allowed b n e ev \<and> (\<nexists>m. ev = FromServer (Inr m))"
proof (cases ev)
  case (FromClient t)
  then show ?thesis by (cases t) auto
next
  case (FromServer r)
  then show ?thesis by (cases r) auto
qed simp_all

lemma bus_do_step:
  assumes "bus_do rt ord allowed ev b = Some b'"
  shows "bus_step rt ord allowed b b'"
proof (cases ev)
  case (Connects acks rsps pubs reqs)
  then show ?thesis using assms Connect [of "bus_next b" b] by auto
next
  case (Works now)
  then obtain t ts out c where "bus_outcome b = Running" "bus_tasks b = t # ts"
    "core_run rt [Task t] (bus_core b) = (out, c)"
    "b' = b\<lparr>bus_core := c, bus_outcome := out, bus_tasks := ts, bus_sessions := open_session t now b\<rparr>"
    using assms by (auto split: outcome.splits list.splits prod.splits simp del: core_run.simps)
  then show ?thesis using CoreTask by blast
next
  case Stopping
  then have "bus_outcome b = Running" "b' = b\<lparr>bus_core := bus_core b, bus_outcome := Stopped (Inr ())\<rparr>"
    using assms by (auto split: outcome.splits)
  then show ?thesis using CoreStops [of b rt "Stopped (Inr ())" "bus_core b"] by simp
next
  case (Firing k)
  then show ?thesis using assms by (auto intro: Timer split: if_splits)
next
  case (Acts n ev)
  then obtain e where e: "running_endpoint b n = Some e" "may_act allowed ev e"
    "b' = after_client ord n e ev b"
    using assms by (auto split: option.splits if_splits)
  then have "client_offered allowed b n e ev" using may_act_iff by blast
  then show ?thesis using Client e unfolding running_endpoint_Some by blast
next
  case (Receiving n cid)
  then obtain e s where e: "running_endpoint b n = Some e" and s: "bus_sessions b cid = Some s"
    "ss_transport s = n" "ep_got e < length (cs_sent (ss_stub s))"
    and b': "b' = after_client ord n e (FromServer (Inr (cs_sent (ss_stub s) ! ep_got e))) b"
    using assms by (auto split: option.splits if_splits)
  have "client_offered allowed b n e (FromServer (Inr (cs_sent (ss_stub s) ! ep_got e)))"
    using s by auto
  then show ?thesis using Client e unfolding b' running_endpoint_Some by blast
next
  case (Breaking n err)
  then show ?thesis using assms by (auto intro: ClientSinkBreaks split: option.splits)
next
  case (Dropping n r)
  then show ?thesis using assms by (auto intro: CallerDrops split: option.splits)
qed (use assms in \<open>auto intro: serve_turn_step\<close>)

lemma bus_step_do:
  assumes "bus_step rt ord allowed b b'"
  shows "\<exists>ev. bus_do rt ord allowed ev b = Some b'"
  using assms
proof cases
  case (Connect n acks rsps pubs reqs)
  then show ?thesis by (intro exI [of _ "Connects acks rsps pubs reqs"]) simp
next
  case (CoreTask t ts out c now)
  then show ?thesis by (intro exI [of _ "Works now"]) (simp del: core_run.simps)
next
  case (CoreStops out c)
  then show ?thesis by (intro exI [of _ Stopping]) simp
next
  case (Timer k)
  then show ?thesis by (intro exI [of _ "Firing k"]) simp
next
  case (Stub cid s e)
  then show ?thesis by (intro exI [of _ "Serving cid e"]) (simp add: serve_turn_def)
next
  case (Client n e ev)
  then have run: "running_endpoint b n = Some e" by (simp add: running_endpoint_Some)
  show ?thesis
  proof (cases "\<exists>m. ev = FromServer (Inr m)")
    case True
    then obtain cid s where "bus_sessions b cid = Some s" "ss_transport s = n"
      "ep_got e < length (cs_sent (ss_stub s))" "ev = FromServer (Inr (cs_sent (ss_stub s) ! ep_got e))"
      using Client(4) by auto
    then show ?thesis using run Client(1) by (intro exI [of _ "Receiving n cid"]) simp
  next
    case False
    then show ?thesis
      using run Client(1) Client(4) may_act_iff [of allowed ev e b n] by (intro exI [of _ "Acts n ev"]) simp
  qed
next
  case (ClientSinkBreaks n e err)
  then show ?thesis by (intro exI [of _ "Breaking n err"]) simp
next
  case (CallerDrops n e r)
  then show ?thesis by (intro exI [of _ "Dropping n r"]) simp
qed

lemma bus_step_ends:
  assumes "bus_step rt ord allowed b b'" and "\<And>n. bus_endpoints b n \<noteq> None \<Longrightarrow> n < bus_next b"
  shows "bus_endpoints b' n \<noteq> None \<Longrightarrow> n < bus_next b'"
  using assms(1)
proof cases
  case (Stub cid s e)
  then show "bus_endpoints b' n \<noteq> None \<Longrightarrow> n < bus_next b'"
    using assms(2) by (auto simp: after_stub_def split: prod.splits if_splits)
next
  case (Client k e ev)
  then show "bus_endpoints b' n \<noteq> None \<Longrightarrow> n < bus_next b'"
    using assms(2) [of k] assms(2) [of n] by (auto simp: after_client_def split: prod.splits if_splits)
next
  case (ClientSinkBreaks k e err)
  then show "bus_endpoints b' n \<noteq> None \<Longrightarrow> n < bus_next b'"
    using assms(2) [of k] assms(2) [of n] by (auto split: if_splits)
next
  case (CallerDrops k e r)
  then show "bus_endpoints b' n \<noteq> None \<Longrightarrow> n < bus_next b'"
    using assms(2) [of k] assms(2) [of n] by (auto split: if_splits)
qed (use assms(2) [of n] in \<open>auto split: if_splits\<close>)

lemma in_ids_within:
  assumes "in_ids b" and "\<And>n. bus_endpoints b n \<noteq> None \<Longrightarrow> n < bus_next b"
  shows "within_ids b"
  unfolding within_ids_def
proof (intro conjI allI impI)
  show "length (sent (ep_client e)) < 2 ^ 32 - 1" if "bus_endpoints b n = Some e" for n e
  proof -
    have "n \<in> set [0..<bus_next b]" using assms(2) [of n] that by simp
    then show ?thesis using assms(1) that unfolding in_ids_def by fastforce
  qed
qed (use assms(1) in \<open>simp add: in_ids_def\<close>)

lemma within_in_ids: "within_ids b \<Longrightarrow> in_ids b"
  by (auto simp: within_ids_def in_ids_def nat_less_iff split: option.split)

lemma bus_exec_steps:
  assumes "bus_exec rt ord allowed evs b = Some b'"
    and "\<And>n. bus_endpoints b n \<noteq> None \<Longrightarrow> n < bus_next b"
  shows "(bus_move rt ord allowed)\<^sup>*\<^sup>* b b'"
  using assms
proof (induction evs arbitrary: b)
  case (Cons ev evs)
  obtain b1 where do: "bus_do rt ord allowed ev b = Some b1" and ids: "in_ids b1"
    and rest: "bus_exec rt ord allowed evs b1 = Some b'"
    using Cons.prems(1) by (auto split: option.splits if_splits)
  note step = bus_do_step [OF do]
  have ends: "bus_endpoints b1 n \<noteq> None \<Longrightarrow> n < bus_next b1" for n
    by (rule bus_step_ends [OF step Cons.prems(2)])
  have "bus_move rt ord allowed b b1"
    using step in_ids_within [OF ids ends] by (simp add: bus_move_def)
  then show ?case using Cons.IH [OF rest ends] by (rule converse_rtranclp_into_rtranclp)
qed simp

lemma bus_exec_append:
  "bus_exec rt ord allowed evs b = Some b' \<Longrightarrow>
   bus_exec rt ord allowed (evs @ evs') b = bus_exec rt ord allowed evs' b'"
  by (induction evs arbitrary: b) (auto split: option.splits if_splits)

lemma bus_exec_reachable:
  "bus_exec rt ord allowed evs (bus_new c) = Some b \<Longrightarrow> bus_reachable rt ord allowed c b"
  unfolding bus_reachable_def by (erule bus_exec_steps) (simp add: bus_new_def)

lemma bus_reachable_exec:
  assumes "bus_reachable rt ord allowed c b"
  shows "\<exists>evs. bus_exec rt ord allowed evs (bus_new c) = Some b"
  using assms unfolding bus_reachable_def
proof (induction rule: rtranclp_induct)
  case base
  show ?case by (rule exI [of _ "[]"]) simp
next
  case (step b1 b2)
  obtain evs where evs: "bus_exec rt ord allowed evs (bus_new c) = Some b1" using step.IH by blast
  obtain ev where ev: "bus_do rt ord allowed ev b1 = Some b2" "in_ids b2"
    using step.hyps(2) bus_step_do within_in_ids unfolding bus_move_def by blast
  have "bus_exec rt ord allowed (evs @ [ev]) (bus_new c) = Some b2"
    using bus_exec_append [OF evs, of "[ev]"] ev by simp
  then show ?case by blast
qed

end
