(* ===== verification/Bus_Harmless.thy ===== *)
theory Bus_Harmless
  imports Bus_Invariant
begin

text \<open>
  The server's own subscription to the kill topic has no channel, so a publication that
  reaches it makes the server panic. If no client publishes on such a topic, the bus has no
  such message anywhere and the server does not panic.
\<close>

definition harmless :: "protocol_client msg \<Rightarrow> bool" where
  "harmless m \<longleftrightarrow> (\<forall>p. content m = ClientPub p \<longrightarrow> \<not> topic_overlap kill_topic (pub_topic p))"

fun harmless_task :: "client_task \<Rightarrow> bool" where
  "harmless_task (TaskPub p a) \<longleftrightarrow> \<not> topic_overlap kill_topic (pub_topic p)"
| "harmless_task _ \<longleftrightarrow> True"

fun harmless_queued :: "task \<Rightarrow> bool" where
  "harmless_queued (Message cid m) \<longleftrightarrow> harmless m \<and> cid \<noteq> 0"
| "harmless_queued (Deregister cid) \<longleftrightarrow> cid \<noteq> 0"
| "harmless_queued _ \<longleftrightarrow> True"

section \<open>What clients send\<close>

definition sends_harmless :: "client_core \<Rightarrow> client_core \<Rightarrow> bool" where
  "sends_harmless c c' \<longleftrightarrow> (\<forall>m \<in> set (sent c'). m \<in> set (sent c) \<or> harmless m)"

lemma sends_harmless_refl [simp]: "sent c' = sent c \<Longrightarrow> sends_harmless c c'"
  by (simp add: sends_harmless_def)

lemma sends_harmless_trans: "sends_harmless a b \<Longrightarrow> sends_harmless b c \<Longrightarrow> sends_harmless a c"
  unfolding sends_harmless_def by blast

lemma before_send_harmless:
  "before_send task c = returns (Inr m, c') \<Longrightarrow> harmless_task task \<Longrightarrow> harmless m"
  by (cases task)
     (auto simp: before_send_srv harmless_def split: option.splits sum.splits,
      auto simp: before_send_def Let_def bus_simps harmless_def
      split: option.splits sum.splits prod.splits)

lemma client_send_harmless:
  assumes "client_send task c = returns (r, c')" and "harmless_task task"
  shows "sends_harmless c c'"
proof -
  obtain q c1 where b: "before_send task c = returns (q, c1)"
    and c': "(r, c') = (case q of Inl e \<Rightarrow> (Inl e, c1) | Inr m \<Rightarrow> transport_send m c1)"
    using assms(1) by (auto simp: client_send_def bus_simps)
  have "q = Inr m \<Longrightarrow> harmless m" for m using before_send_harmless b assms(2) by blast
  then show ?thesis using c' before_send_id [OF b]
    by (cases q) (auto simp: transport_send_def sends_harmless_def split: option.splits)
qed

interpretation harmless_client: client_relation sends_harmless
  by unfold_locales (auto simp: sends_harmless_trans elim: client_send_harmless)

lemma after_receive_harmless:
  "after_receive ord m c = returns (r, c') \<Longrightarrow> sends_harmless c c'"
  by (cases "content m")
     (auto simp: after_receive_def dest: harmless_client.notify_rel split: option.splits)

lemma client_step_harmless:
  assumes "client_step ord ev c = (out, c')" and "\<And>t. ev = FromClient t \<Longrightarrow> harmless_task t"
  shows "sends_harmless c c'"
proof (cases ev)
  case (FromServer q)
  show ?thesis
  proof (cases q)
    case (Inr m)
    then show ?thesis using assms FromServer after_receive_harmless [of ord m c]
      by (cases "after_receive ord m c") (auto simp: client_step_def split: sum.splits)
  qed (use assms FromServer in \<open>auto simp: client_step_def\<close>)
next
  case (FromClient t)
  then show ?thesis using assms client_send_harmless [of t c]
    by (cases "client_send t c") (auto simp: client_step_def split: sum.splits if_splits)
next
  case KeepAliveTick
  then show ?thesis using assms client_send_harmless [of TaskKeepAlive c]
    by (cases "client_send TaskKeepAlive c") (auto simp: client_step_def split: sum.splits)
qed (use assms in \<open>auto simp: client_step_def\<close>)

section \<open>The server\<close>

definition quiet_bus :: "bus \<Rightarrow> bool" where
  "quiet_bus b \<longleftrightarrow> (\<forall>t \<in> set (bus_tasks b). harmless_queued t) \<and>
     (\<forall>n e. bus_endpoints b n = Some e \<longrightarrow> (\<forall>m \<in> set (sent (ep_client e)). harmless m)) \<and>
     kill_inv (bus_core b) \<and> bus_outcome b \<noteq> Panicked"

lemma quiet_busD:
  assumes "quiet_bus b"
  shows "t \<in> set (bus_tasks b) \<Longrightarrow> harmless_queued t"
    "bus_endpoints b n = Some e \<Longrightarrow> m \<in> set (sent (ep_client e)) \<Longrightarrow> harmless m"
    "kill_inv (bus_core b)" "bus_outcome b \<noteq> Panicked"
  using assms unfolding quiet_bus_def by blast+

lemma session_id_positive: "wired b \<Longrightarrow> bus_sessions b 0 = None"
  using wiredD(2) [of b] unfolding ids_ok_def by (metis less_irrefl unsigned_0)

lemma next_id_positive:
  assumes "wired b" and "within_ids b"
  shows "next_client_id (bus_core b) \<noteq> 0"
proof -
  obtain k where k: "next_client_id (bus_core b) = of_nat (Suc k)"
    "k + length (regs_of (bus_tasks b)) = bus_next b"
    using wiredD(2) [OF assms(1)] unfolding ids_ok_def by blast
  have "Suc k < 2 ^ 32" using k(2) assms(2) by (simp add: within_ids_def)
  then show ?thesis using unat_small [of "Suc k"] k(1) by force
qed

lemma quiet_core_task:
  assumes w: "wired b" "within_ids b" and q: "quiet_bus b" and t: "bus_tasks b = t # ts"
    and run: "core_run rt [Task t] (bus_core b) = (out, c)" and ord: "hash_iteration (hash_order rt)"
  shows "kill_inv c \<and> out \<noteq> Panicked"
proof -
  have ht: "harmless_queued t" "task_valid t" using quiet_busD(1) [OF q] queued_task(1) [OF w(1)] t by simp_all
  have wf: "wf_event (Task t)" "foreign (Task t)"
    using ht by (cases t; simp)+
  note ci = wiredD(1) [OF w(1)]
  have np: "process_task rt t (bus_core b) \<noteq> panic"
  proof
    assume "process_task rt t (bus_core b) = panic"
    then obtain cid m pm where "t = Message cid m" "content m = ClientPub pm"
      "0 \<in> matching (directory (bus_core b)) (pub_topic pm)"
      using process_task_panics [OF _ ci wf(1) ord] by metis
    then show False
      using ht(1) kill_inv_matching [OF ci quiet_busD(3) [OF q]] by (simp add: harmless_def)
  qed
  then obtain r where "process_task rt t (bus_core b) = returns (r, c)" "out \<noteq> Panicked"
    using core_run_one [OF run] by (cases "process_task rt t (bus_core b)") auto
  then show ?thesis
    using process_task_kill [OF _ ci quiet_busD(3) [OF q] wf next_id_positive [OF w]] by blast
qed

lemma kill_inv_close_chan [simp]: "kill_inv (close_chan h c) = kill_inv c"
  by (simp add: kill_inv_def close_chan_def)

lemma quiet_step:
  assumes "bus_step rt ord allowed b b'" and w: "wired b" "within_ids b" and q: "quiet_bus b"
    and ord: "hash_iteration (hash_order rt)" and harm: "\<And>t. allowed t \<Longrightarrow> harmless_task t"
  shows "quiet_bus b'"
  using assms(1)
proof cases
  case (Connect n acks rsps pubs reqs)
  then show ?thesis using q
    by (auto simp: quiet_bus_def new_endpoint_def client_start_def split: if_splits)
next
  case (CoreTask u ts out c now)
  then show ?thesis using q quiet_core_task [OF w q _ _ ord]
    by (auto simp: quiet_bus_def)
next
  case (CoreStops out c)
  then show ?thesis using q by (auto simp: quiet_bus_def)
next
  case (Timer k)
  then show ?thesis using q by (auto simp: quiet_bus_def)
next
  case (Stub cid s ev)
  obtain r stub ts ms p where "stub_serve [ev] (ss_stub s) = (r, stub)"
    and p: "bus_endpoints b (ss_transport s) = Some p"
    and b': "after_stub cid s ev b = b\<lparr>bus_sessions := (bus_sessions b)(cid \<mapsto>
          s\<lparr>ss_stub := stub, ss_serving := (r = None), ss_taken := ss_taken s + stub_takes ev\<rparr>),
        bus_endpoints := (bus_endpoints b)(ss_transport s \<mapsto> p\<lparr>ep_read := ep_read p + stub_reads ev\<rparr>),
        bus_tasks := bus_tasks b @ ts,
        bus_core := (if r = None then bus_core b else close_chan (ss_chan s) (bus_core b))\<rparr>"
    and "cs_id stub = cid" "cs_sent stub = cs_sent (ss_stub s) @ ms"
    and ts: "ts = [] \<or> ts = [Deregister cid] \<or> (\<exists>m. ev = FromTransport (Some (Inr m)) \<and>
      m \<in> set (sent (ep_client p)) \<and> ep_read p < length (sent (ep_client p)) \<and>
      m = sent (ep_client p) ! ep_read p \<and> ts = [Message cid m])"
    and "ms = [] \<or> (\<exists>m. ev = FromCore (Some m) \<and> ms = [m])"
    by (rule after_stub_parts [OF w(1) Stub(2) Stub(4)])
  have "cid \<noteq> 0" using session_id_positive [OF w(1)] Stub(2) by auto
  then have new: "harmless_queued t" if "t \<in> set ts" for t
    using ts quiet_busD(2) [OF q p] that by auto
  show ?thesis unfolding quiet_bus_def
  proof (intro conjI ballI allI impI)
    show "harmless_queued t" if "t \<in> set (bus_tasks b')" for t
      using that new quiet_busD(1) [OF q] unfolding Stub(1) b' by auto
    show "harmless m" if "bus_endpoints b' n = Some e" "m \<in> set (sent (ep_client e))" for n e m
      using that quiet_busD(2) [OF q] p unfolding Stub(1) b' by (auto split: if_splits)
    show "kill_inv (bus_core b')" using quiet_busD(3) [OF q] unfolding Stub(1) b' by simp
    show "bus_outcome b' \<noteq> Panicked" using quiet_busD(4) [OF q] unfolding Stub(1) b' by simp
  qed
next
  case (Client n e ev)
  obtain out c where s: "client_step ord ev (ep_client e) = (out, c)" by fastforce
  have "harmless_task t" if "ev = FromClient t" for t using Client(4) harm that by simp
  then have "sends_harmless (ep_client e) c" using client_step_harmless [OF s] by blast
  then have "harmless m" if "m \<in> set (sent c)" for m
    using that quiet_busD(2) [OF q Client(2)] unfolding sends_harmless_def by blast
  then show ?thesis using q Client(1) by (auto simp: quiet_bus_def after_client_def s)
next
  case (ClientSinkBreaks n e err)
  then show ?thesis using q by (auto simp: quiet_bus_def)
next
  case (CallerDrops n e r)
  then show ?thesis using q by (auto simp: quiet_bus_def)
qed

end
