(* ===== verification/Bus_Demo.thy ===== *)
theory Bus_Demo
  imports Bus_Exec Bus_Harmless Server_Properties
begin

text \<open>
  One computed run of the bus, in which the properties of the whole bus are applied: a
  client connects, claims a topic and sends a request to it; the server registers the
  client, grants the claim and passes the request back to the client, which has then not
  yet answered it.
\<close>

definition demo_server :: core where
  "demo_server = empty_core\<lparr>directory :=
     Directory None [(''bus'', Directory None [(''kill'', Directory None [] {0})] {})] {}\<rparr>"

lemma demo_server_new: "core_new deriv_match = returns demo_server"
proof -
  obtain d where "core_new deriv_match = returns (empty_core\<lparr>directory := d\<rparr>)"
    using core_new_spec [OF deriv_engine.regex_engine_axioms] by metis
  moreover have "map_option directory (core_new deriv_match) =
      Some (Directory None [(''bus'', Directory None [(''kill'', Directory None [] {0})] {})] {})"
    by code_simp
  ultimately show ?thesis by (simp add: demo_server_def)
qed

definition demo_request :: req_msg where
  "demo_request = \<lparr>req_topic = demo_topic, req_payload = demo_payload\<rparr>"

definition demo_events :: "bus_event list" where
  "demo_events = [Connecting, Tasking, Calling 0 (TaskSrv (SrvMsg demo_topic) 0 0),
     Calling 0 (TaskReq demo_request 1 0), Reading 1, Reading 1, Tasking, Tasking, Relaying 1]"

definition demo_exec :: "bus_event list \<Rightarrow> bus option" where
  "demo_exec evs = bus_exec demo_runtime ascending harmless_task evs (bus_new demo_server)"

definition demo_bus :: bus where
  "demo_bus = the (demo_exec demo_events)"

definition demo_endpoint :: endpoint where
  "demo_endpoint = the (bus_endpoints demo_bus 0)"

definition demo_session :: session where
  "demo_session = the (bus_sessions demo_bus 1)"

abbreviation demo_reachable :: "bus \<Rightarrow> bool" where
  "demo_reachable \<equiv> bus_reachable demo_runtime ascending harmless_task demo_server"

lemma not_none: "\<not> Option.is_none x \<Longrightarrow> x = Some (the x)"
  by (cases x) simp_all

lemma demo_exec_append:
  "demo_exec evs = Some b \<Longrightarrow>
   demo_exec (evs @ evs') = bus_exec demo_runtime ascending harmless_task evs' b"
  unfolding demo_exec_def by (rule bus_exec_append)

lemma demo_exec_reachable: "demo_exec evs = Some b \<Longrightarrow> demo_reachable b"
  unfolding demo_exec_def by (rule bus_exec_reachable)

lemma demo_run: "demo_reachable demo_bus"
proof -
  have "\<not> Option.is_none (demo_exec demo_events)" by code_simp
  from not_none [OF this] show ?thesis unfolding demo_bus_def by (rule demo_exec_reachable)
qed

lemma demo_bus_endpoint: "bus_endpoints demo_bus 0 = Some demo_endpoint"
  unfolding demo_endpoint_def by (rule not_none) code_simp

lemma demo_bus_session: "bus_sessions demo_bus 1 = Some demo_session"
  unfolding demo_session_def by (rule not_none) code_simp

lemma demo_bus_facts:
  "bus_outcome demo_bus = Running" "ep_outcome demo_endpoint = ClientRunning" "ss_transport demo_session = 0"
  "pending_responses (bus_core demo_bus) 1 = Some \<lparr>pr_request_id = 2, pr_responder_id = 1, pr_requester_id = 1\<rparr>"
  "sent (ep_client demo_endpoint) = [Msg 1 (ClientSrv (SrvMsg demo_topic)), Msg 2 (ClientReq demo_request)]"
  "cs_sent (ss_stub demo_session) = [Msg 0 (ServerAck \<lparr>ack_msg_id = 1, ack_err = None, num_recipients = None\<rparr>)]"
  "ep_got demo_endpoint = 0" "ep_read demo_endpoint = 2"
  by code_simp+

lemmas demo_start = deriv_engine.regex_engine_axioms demo_server_new ascending_order.hash_iteration_axioms

lemma demo_move:
  \<comment> \<open>one more event\<close>
  assumes "demo_exec evs = Some b" and "demo_exec (evs @ [ev]) = Some b'"
  shows "bus_move demo_runtime ascending harmless_task b b'"
proof -
  have "bus_do demo_runtime ascending harmless_task ev b = Some b'"
    using assms(2) unfolding demo_exec_append [OF assms(1)] by (auto split: option.splits if_splits)
  moreover have "within_ids b'"
    using bus_reachable_inv [OF demo_start demo_exec_reachable [OF assms(2)]] by (simp add: bus_inv_def)
  ultimately show ?thesis using bus_do_step unfolding bus_move_def by blast
qed

end
