(* ===== verification/Bus_Shutdown.thy ===== *)
theory Bus_Shutdown
  imports Bus_Invariant
begin

text \<open>
  After the server has stopped: each session relays what the core had already sent it, finds
  its channel closed and ends.
\<close>

lemma within_after_stub:
  assumes "wired b" and "bus_sessions b cid = Some s" and "stub_offered b s e" and "within_ids b"
  shows "within_ids (after_stub cid s e b)"
proof -
  obtain r stub ts ms p where "stub_serve [e] (ss_stub s) = (r, stub)"
    and p: "bus_endpoints b (ss_transport s) = Some p"
    and b': "after_stub cid s e b = b\<lparr>bus_sessions := (bus_sessions b)(cid \<mapsto>
          s\<lparr>ss_stub := stub, ss_serving := (r = None), ss_taken := ss_taken s + stub_takes e\<rparr>),
        bus_endpoints := (bus_endpoints b)(ss_transport s \<mapsto> p\<lparr>ep_read := ep_read p + stub_reads e\<rparr>),
        bus_tasks := bus_tasks b @ ts,
        bus_core := (if r = None then bus_core b else close_chan (ss_chan s) (bus_core b))\<rparr>"
    and "cs_id stub = cid" "cs_sent stub = cs_sent (ss_stub s) @ ms"
    and "ts = [] \<or> ts = [Deregister cid] \<or> (\<exists>m. e = FromTransport (Some (Inr m)) \<and>
      m \<in> set (sent (ep_client p)) \<and> ep_read p < length (sent (ep_client p)) \<and>
      m = sent (ep_client p) ! ep_read p \<and> ts = [Message cid m])"
    and "ms = [] \<or> (\<exists>m. e = FromCore (Some m) \<and> ms = [m])"
    by (rule after_stub_parts [OF assms(1-3)])
  show ?thesis using assms(4) p unfolding b' within_ids_def by (auto split: if_splits)
qed

lemma stub_move:
  assumes "bus_inv b" and "hash_iteration ord" and "bus_sessions b cid = Some s" and "ss_serving s"
    and "stub_offered b s e"
  shows "bus_move rt ord allowed b (after_stub cid s e b)" and "bus_inv (after_stub cid s e b)"
proof -
  show m: "bus_move rt ord allowed b (after_stub cid s e b)"
    using assms(1,3,4,5) within_after_stub [OF _ assms(3,5)] Stub
    unfolding bus_move_def bus_inv_def by blast
  show "bus_inv (after_stub cid s e b)" by (rule bus_move_inv [OF m assms(2,1)])
qed

section \<open>Turns on the core's messages\<close>

inductive core_turn :: "bus \<Rightarrow> bus \<Rightarrow> bool" where
  \<comment> \<open>a session takes a message of the core, or finds its channel closed\<close>
  "bus_sessions b cid = Some s \<Longrightarrow> ss_serving s \<Longrightarrow> stub_offered b s (FromCore m) \<Longrightarrow>
   core_turn b (after_stub cid s (FromCore m) b)"

inductive_cases core_turnE: "core_turn b b'"

definition session_work :: "bus \<Rightarrow> u32 \<Rightarrow> nat" where
  \<comment> \<open>how many turns a session can still take\<close>
  "session_work b cid = (case bus_sessions b cid of
     None \<Rightarrow> 0
   | Some s \<Rightarrow> if ss_serving s
       then Suc (length (buffer (chans (bus_core b) (ss_chan s))) - ss_taken s) else 0)"

definition bus_work :: "bus \<Rightarrow> nat" where
  "bus_work b = (\<Sum>cid \<in> UNIV. session_work b cid)"

lemma core_turn_work:
  assumes "bus_sessions b cid = Some s" "ss_serving s" "stub_offered b s (FromCore m)"
  shows "session_work (after_stub cid s (FromCore m) b) cid < session_work b cid"
    and "c \<noteq> cid \<Longrightarrow> session_work (after_stub cid s (FromCore m) b) c = session_work b c"
proof -
  obtain r stub where r: "stub_serve [FromCore m] (ss_stub s) = (r, stub)" by fastforce
  have none: "r \<noteq> None" if "m = None"
    using r that by (auto simp: stub_serve_def stub_step_def send_task_def split: if_splits)
  let ?b = "after_stub cid s (FromCore m) b"
  have new: "bus_sessions ?b = (bus_sessions b)(cid \<mapsto> s\<lparr>ss_stub := stub, ss_serving := (r = None),
      ss_taken := ss_taken s + stub_takes (FromCore m)\<rparr>)"
    by (simp add: after_stub_def r)
  have buf: "buffer (chans (bus_core ?b) h) = buffer (chans (bus_core b) h)" for h
    by (simp add: after_stub_def r)
  have took: "r = None \<Longrightarrow> stub_takes (FromCore m) = 1 \<and> ss_taken s < length (buffer (chans (bus_core b) (ss_chan s)))"
    using assms(3) none by (cases m) (auto simp: stub_takes_def)
  show "session_work ?b cid < session_work b cid"
    using assms(1,2) took unfolding session_work_def new buf by auto
  show "c \<noteq> cid \<Longrightarrow> session_work ?b c = session_work b c"
    unfolding session_work_def new buf by simp
qed

lemma core_turn_decreases: "core_turn b b' \<Longrightarrow> bus_work b' < bus_work b"
proof (elim core_turnE)
  fix cid s m
  assume s: "bus_sessions b cid = Some s" "ss_serving s" "stub_offered b s (FromCore m)"
    and b': "b' = after_stub cid s (FromCore m) b"
  have "(\<Sum>c \<in> UNIV - {cid}. session_work b' c) = (\<Sum>c \<in> UNIV - {cid}. session_work b c)"
    by (rule sum.cong) (use core_turn_work(2) [OF s] b' in auto)
  then show ?thesis
    using core_turn_work(1) [OF s] unfolding b' bus_work_def
    by (simp add: sum.remove [of UNIV cid])
qed

lemma core_turn_move:
  assumes "core_turn b b'" and "bus_inv b" and "hash_iteration ord"
  shows "bus_move rt ord allowed b b'" and "bus_inv b'"
  using assms(1) stub_move [OF assms(2,3)] by (auto elim!: core_turnE)

lemma core_turn_outcome: "core_turn b b' \<Longrightarrow> bus_outcome b' = bus_outcome b"
  by (auto elim!: core_turnE simp: after_stub_def split: prod.split)

lemma core_turn_offered:
  assumes "bus_inv b" and "bus_outcome b \<noteq> Running" and "bus_sessions b cid = Some s" and "ss_serving s"
  shows "\<exists>b'. core_turn b b'"
proof -
  let ?buf = "buffer (chans (bus_core b) (ss_chan s))"
  have "ss_taken s \<le> length ?buf"
    using assms(1,3) sessions_okD(4) unfolding bus_inv_def by blast
  then have "stub_offered b s (FromCore (if ss_taken s < length ?buf then Some (?buf ! ss_taken s) else None))"
    using assms(2) by simp
  then show ?thesis using core_turn.intros [OF assms(3,4)] by blast
qed

lemma core_turns:
  assumes "(core_turn ^^ k) b b'" and "bus_inv b" and "hash_iteration ord"
  shows "k + bus_work b' \<le> bus_work b \<and> bus_inv b' \<and> bus_outcome b' = bus_outcome b"
  using assms(1)
proof (induction k arbitrary: b')
  case (Suc k)
  then obtain b1 where b1: "(core_turn ^^ k) b b1" "core_turn b1 b'" by auto
  then show ?case
    using Suc.IH [OF b1(1)] core_turn_decreases [OF b1(2)] core_turn_move(2) [OF b1(2) _ assms(3)]
      core_turn_outcome [OF b1(2)] by auto
qed (use assms(2) in simp)

end
