(* ===== verification/Bus_Properties.thy ===== *)
theory Bus_Properties
  imports Bus_Demo Bus_Shutdown
begin

text \<open>
  Properties of the whole bus, in every state that a server, its stubs, its timers and any
  number of clients can reach together, in any interleaving.
\<close>

section \<open>No client panics\<close>

text \<open>
  C7: no client of a bus ever panics, however the steps of the server, its stubs and timers,
  the clients and their callers interleave. The callers send any tasks with valid topics and
  drop any receivers; the one thing asked of them is that a service is given up after it was
  claimed and once for each claim, which is all the client's interface lets them do. So every
  response a client receives answers a request it still waits for, every callback of a
  subscription is there when a publication is handed out, and a service that is given up
  still has its owner in the client's directory, whatever the client was told or asked since.
\<close>

theorem no_client_panics:
  assumes "regex_engine rx" and "core_new rx = returns c" and "hash_iteration ord"
    and "bus_reachable rt ord allowed c b" and "bus_endpoints b n = Some e"
  shows "ep_outcome e \<noteq> ClientPanicked"
  using bus_reachable_inv [OF assms(1-4)] assms(5) unfolding bus_inv_def no_panic_def by blast

theorem no_client_panics_witness:
  "bus_endpoints demo_bus 0 = Some demo_endpoint \<and> ep_outcome demo_endpoint \<noteq> ClientPanicked"
  using no_client_panics [OF demo_start demo_run demo_bus_endpoint] demo_bus_endpoint by blast

text \<open>
  C8: at any moment the responses on their way to a running client, from the server's
  channel to the client's socket, answer different requests, and the client waits for each
  of them; a request the server still holds as pending is one its requester waits for, and
  no response to it is on its way.
\<close>

theorem responses_answer_waiting_requests:
  assumes "regex_engine rx" and "core_new rx = returns c" and "hash_iteration ord"
    and "bus_reachable rt ord allowed c b" and "bus_sessions b cid = Some s"
    and "bus_endpoints b (ss_transport s) = Some e" and "ep_outcome e = ClientRunning"
  shows "distinct (coming b e s) \<and> set (coming b e s) \<subseteq> dom (callbacks_rsp (ep_client e)) \<and>
    (\<forall>j pr. pending_responses (bus_core b) j = Some pr \<and> pr_requester_id pr = cid \<longrightarrow>
      pr_request_id pr \<in> dom (callbacks_rsp (ep_client e)) - set (coming b e s))"
proof (intro conjI allI impI)
  have inv: "tokens_ok b" using bus_reachable_inv [OF assms(1-4)] by (simp add: bus_inv_def)
  have "on_way b (ss_transport s) e (coming b e s)" using assms(5) unfolding on_way_def by blast
  note bal = balancedD [OF accountD [OF tokens_okD [OF inv assms(6,7)] this]]
  have "once (mset (coming b e s))" using bal(1) by (rule once_mono) simp
  then show "distinct (coming b e s)"
    unfolding once_def distinct_count_atmost_1 by (metis One_nat_def count_eq_zero_iff le_Suc_eq le_zero_eq set_mset_mset)
  show "set (coming b e s) \<subseteq> dom (callbacks_rsp (ep_client e))" using bal(2) by auto
  show "pr_request_id pr \<in> dom (callbacks_rsp (ep_client e)) - set (coming b e s)"
    if "pending_responses (bus_core b) j = Some pr \<and> pr_requester_id pr = cid" for j pr
  proof -
    have "held b (ss_transport s) (pr_request_id pr) j"
      using that assms(5) unfolding held_def home_Some by blast
    then show ?thesis using bal(3,4) by fastforce
  qed
qed

theorem responses_answer_waiting_requests_witness:
  "2 \<in> dom (callbacks_rsp (ep_client demo_endpoint)) - set (coming demo_bus demo_endpoint demo_session)"
  using responses_answer_waiting_requests [OF demo_start demo_run demo_bus_session, of demo_endpoint]
    demo_bus_endpoint demo_bus_facts by force

section \<open>The server survives its clients\<close>

lemma quiet_bus_new:
  assumes "regex_engine rx" and "core_new rx = returns c"
  shows "quiet_bus (bus_new c)"
proof -
  obtain d where d: "core_new rx = returns (empty_core\<lparr>directory := d\<rparr>)"
    "subs_of d = (\<lambda>u. if u = kill_topic then {0} else {})"
    by (rule core_new_spec [OF assms(1)]) (rule that)
  then have "kill_inv c" using assms(2) by (auto simp: kill_inv_def empty_core_def)
  then show ?thesis by (simp add: quiet_bus_def bus_new_def)
qed

text \<open>
  C14: as long as no client publishes on a topic that overlaps \<open>bus:kill\<close>, the server of a
  bus does not panic, in any interleaving with its stubs, timers and clients.
\<close>

theorem harmless_clients_leave_server_running:
  assumes "regex_engine rx" and "core_new rx = returns c" and "hash_iteration ord"
    and "hash_iteration (hash_order rt)" and "bus_reachable rt ord allowed c b"
    and "\<And>p a. allowed (TaskPub p a) \<Longrightarrow> \<not> topic_overlap kill_topic (pub_topic p)"
  shows "bus_outcome b \<noteq> Panicked"
proof -
  have harm: "allowed t \<Longrightarrow> harmless_task t" for t using assms(6) by (cases t) auto
  have "quiet_bus b"
    by (rule bus_reachable_induct [where P = quiet_bus, OF assms(1-3,5) quiet_bus_new [OF assms(1,2)]])
       (use quiet_step [of rt ord allowed] assms(4) harm in \<open>auto simp: bus_inv_def\<close>)
  then show ?thesis by (simp add: quiet_bus_def)
qed

theorem harmless_clients_leave_server_running_witness:
  "bus_outcome demo_bus \<noteq> Panicked"
  by (rule harmless_clients_leave_server_running [OF demo_start demo_hash demo_run]) simp

section \<open>Valid topics only\<close>

text \<open>
  C17: topics stay valid everywhere: every message a client has sent and every message in
  the server's queue carries a valid topic, clients are subscribed to valid topics only,
  the server's tree is well formed, and the id under which a message is queued is that of
  a session, never the reserved 0.
\<close>

theorem messages_carry_valid_topics:
  assumes "regex_engine rx" and "core_new rx = returns c" and "hash_iteration ord"
    and "bus_reachable rt ord allowed c b"
  shows "dir_inv (directory (bus_core b)) \<and>
    (\<forall>cid m. Message cid m \<in> set (bus_tasks b) \<longrightarrow>
       wf_client_msg m \<and> cid \<noteq> 0 \<and> bus_sessions b cid \<noteq> None) \<and>
    (\<forall>n e. bus_endpoints b n = Some e \<longrightarrow> (\<forall>m \<in> set (sent (ep_client e)). wf_client_msg m) \<and>
       (\<forall>u. subs_of (subscriptions (ep_client e)) u \<noteq> {} \<longrightarrow> wf_topic u))"
proof (intro conjI allI impI)
  have w: "wired b" using bus_reachable_inv [OF assms] by (simp add: bus_inv_def)
  show "dir_inv (directory (bus_core b))" using wiredD(1) [OF w] by simp
  show "wf_client_msg m" "bus_sessions b cid \<noteq> None" if "Message cid m \<in> set (bus_tasks b)" for cid m
    using queued_task [OF w that] by simp_all
  then show "cid \<noteq> 0" if "Message cid m \<in> set (bus_tasks b)" for cid m
    using session_id_positive [OF w] that by metis
  show "\<forall>m \<in> set (sent (ep_client e)). wf_client_msg m" if "bus_endpoints b n = Some e" for n e
    using wiredD(7) [OF w that] by (simp add: endpoint_ok_def client_ok_def client_valid_def)
  show "wf_topic u" if "bus_endpoints b n = Some e" "subs_of (subscriptions (ep_client e)) u \<noteq> {}" for n e u
    using wiredD(7) [OF w that(1)] that(2) unfolding endpoint_ok_def client_ok_def client_valid_def by blast
qed

theorem messages_carry_valid_topics_witness:
  "dir_inv (directory (bus_core demo_bus)) \<and> wf_client_msg (Msg 2 (ClientReq demo_request))"
  using messages_carry_valid_topics [OF demo_start demo_run] demo_bus_endpoint demo_bus_facts(5)
  by (metis insertI1 insertI2 list.set(2) empty_set)

section \<open>Shutdown\<close>

text \<open>
  C18: once the server has stopped its sessions end: however they take turns on what the
  core had sent them, there are at most \<open>bus_work\<close> turns, and when no turn is left every
  session has ended.
\<close>

theorem stopped_server_releases_sessions:
  assumes "regex_engine rx" and "core_new rx = returns c" and "hash_iteration ord"
    and "bus_reachable rt ord allowed c b" and "bus_outcome b \<noteq> Running"
    and "(core_turn ^^ k) b b'"
  shows "k \<le> bus_work b \<and> ((\<nexists>b''. core_turn b' b'') \<longrightarrow>
    (\<forall>cid s. bus_sessions b' cid = Some s \<longrightarrow> \<not> ss_serving s))"
proof -
  have "k + bus_work b' \<le> bus_work b" "bus_inv b'" "bus_outcome b' \<noteq> Running"
    using core_turns [OF assms(6) bus_reachable_inv [OF assms(1-4)] assms(3)] assms(5) by simp_all
  then show ?thesis using core_turn_offered by fastforce
qed

theorem stopped_server_releases_sessions_witness:
  "\<exists>b b'. demo_exec (demo_events @ [Stopping]) = Some b \<and> core_turn b b' \<and> 1 \<le> bus_work b"
proof -
  let ?r = "demo_exec (demo_events @ [Stopping])"
  have "\<not> Option.is_none ?r" by code_simp
  then obtain b where b: "?r = Some b" using not_none by blast
  have facts: "map_option bus_outcome ?r = Some (Stopped (Inr ()))"
    "map_option (\<lambda>b. map_option ss_serving (bus_sessions b 1)) ?r = Some (Some True)" by code_simp+
  then obtain s where o: "bus_outcome b = Stopped (Inr ())" and s: "bus_sessions b 1 = Some s" "ss_serving s"
    using b by auto
  note r = demo_exec_reachable [OF b]
  obtain b' where t: "core_turn b b'"
    using core_turn_offered [OF bus_reachable_inv [OF demo_start r] _ s] o by auto
  moreover have "(core_turn ^^ 1) b b'" using t by (metis relpowp_1)
  then have "1 \<le> bus_work b"
    using stopped_server_releases_sessions [OF demo_start r, THEN conjunct1] o by simp
  ultimately show ?thesis using b by blast
qed

end
