(* ===== verification/Bus_Fifo.thy ===== *)
theory Bus_Fifo
  imports Bus_Invariant
begin

text \<open>
  Order in the whole bus: while the server runs, its queue holds of each client's messages
  one contiguous stretch, in order, that ends where the stub has read to; and what a stub
  has sent its client is the beginning of what the core has put into its channel.
\<close>

definition queue_fifo :: "bus \<Rightarrow> nat \<Rightarrow> endpoint \<Rightarrow> bool" where
  "queue_fifo b n e \<longleftrightarrow> (\<exists>k \<le> ep_read e.
     queue_of (home b) n (bus_tasks b) = drop k (take (ep_read e) (sent (ep_client e))))"

definition stub_fifo :: "bus \<Rightarrow> session \<Rightarrow> bool" where
  "stub_fifo b s \<longleftrightarrow>
     (\<exists>j \<le> ss_taken s. cs_sent (ss_stub s) = take j (buffer (chans (bus_core b) (ss_chan s))) \<and>
        (ss_serving s \<longrightarrow> j = ss_taken s))"

definition fifo_ok :: "bus \<Rightarrow> bool" where
  "fifo_ok b \<longleftrightarrow>
     (bus_outcome b = Running \<longrightarrow>
        (\<forall>n e. bus_endpoints b n = Some e \<longrightarrow> queue_fifo b n e) \<and>
        (\<forall>cid s. bus_sessions b cid = Some s \<longrightarrow> cs_core_alive (ss_stub s))) \<and>
     (\<forall>cid s. bus_sessions b cid = Some s \<longrightarrow> stub_fifo b s)"

lemma fifo_okD:
  assumes "fifo_ok b"
  shows "bus_outcome b = Running \<Longrightarrow> bus_endpoints b n = Some e \<Longrightarrow> queue_fifo b n e"
    "bus_outcome b = Running \<Longrightarrow> bus_sessions b cid = Some s \<Longrightarrow> cs_core_alive (ss_stub s)"
    "bus_sessions b cid = Some s \<Longrightarrow> stub_fifo b s"
  using assms unfolding fifo_ok_def by blast+

lemma fifo_okI:
  assumes "\<And>n e. bus_outcome b = Running \<Longrightarrow> bus_endpoints b n = Some e \<Longrightarrow> queue_fifo b n e"
    and "\<And>cid s. bus_outcome b = Running \<Longrightarrow> bus_sessions b cid = Some s \<Longrightarrow> cs_core_alive (ss_stub s)"
    and "\<And>cid s. bus_sessions b cid = Some s \<Longrightarrow> stub_fifo b s"
  shows "fifo_ok b"
  using assms unfolding fifo_ok_def by blast

section \<open>The two halves, step by step\<close>

lemma queue_fifo_same:
  "queue_fifo b n e \<Longrightarrow> queue_of (home b') n (bus_tasks b') = queue_of (home b) n (bus_tasks b) \<Longrightarrow>
   ep_read e' = ep_read e \<Longrightarrow> ep_read e \<le> length (sent (ep_client e)) \<Longrightarrow>
   sends_on (ep_client e) (ep_client e') \<Longrightarrow> queue_fifo b' n e'"
  unfolding queue_fifo_def sends_on_def by auto

lemma queue_fifo_popped:
  assumes "queue_fifo b n e" and "queue_of (home b) n (bus_tasks b) = xs @ queue_of (home b') n (bus_tasks b')"
  shows "queue_fifo b' n e"
proof -
  obtain k where k: "k \<le> ep_read e"
    "xs @ queue_of (home b') n (bus_tasks b') = drop k (take (ep_read e) (sent (ep_client e)))"
    using assms unfolding queue_fifo_def by auto
  let ?ms = "take (ep_read e) (sent (ep_client e))"
  have "queue_of (home b') n (bus_tasks b') = drop (length xs) (xs @ queue_of (home b') n (bus_tasks b'))"
    by simp
  also have "\<dots> = drop (length xs + k) ?ms" unfolding k(2) by simp
  also have "\<dots> = drop (min (length xs + k) (ep_read e)) ?ms"
    by (simp add: min_def)
  finally show ?thesis unfolding queue_fifo_def by (metis min.cobounded2)
qed

lemma stub_fifo_same:
  assumes "stub_fifo b s" and "ss_taken s \<le> length (buffer (chans (bus_core b) (ss_chan s)))"
    and "buffer (chans (bus_core b') (ss_chan s)) = buffer (chans (bus_core b) (ss_chan s)) @ ns"
  shows "stub_fifo b' s"
  using assms unfolding stub_fifo_def by auto

lemma stub_hears:
  assumes "cs_core_alive s" and "cs_id s = cid"
  shows "stub_serve [FromTransport (Some (Inr m))] s = (r, s') \<Longrightarrow>
    cs_tasks s' = cs_tasks s @ [Message cid m] \<and> cs_core_alive s' \<and> r = None"
  using assms by (auto simp: stub_serve_def stub_step_def send_task_def Let_def)

lemma stub_alive_turn:
  assumes "stub_serve [e] s = (r, s')" and "cs_core_alive s" and "e \<noteq> CoreGone"
  shows "cs_core_alive s'"
  using assms
  by (auto simp: stub_serve_def stub_step_def send_task_def stub_transport_send_def Let_def
      split: stub_event.splits option.splits sum.splits if_splits)

lemma stub_relays_turn:
  assumes "stub_serve [e] s = (r, s')"
  shows "(\<exists>m. e = FromCore (Some m) \<and> (cs_sent s' = cs_sent s @ [m] \<or> cs_sent s' = cs_sent s \<and> r \<noteq> None)) \<or>
    (\<nexists>m. e = FromCore (Some m)) \<and> cs_sent s' = cs_sent s"
  using assms
  by (auto simp: stub_serve_def stub_step_def send_task_def stub_transport_send_def Let_def
      split: stub_event.splits option.splits sum.splits if_splits)

lemma queue_fifo_read:
  \<comment> \<open>the stub reads the next message and queues it\<close>
  assumes "queue_fifo b n e" and "ep_read e < length (sent (ep_client e))"
    and "m = sent (ep_client e) ! ep_read e"
    and "queue_of (home b') n (bus_tasks b') = queue_of (home b) n (bus_tasks b) @ [m]"
    and "ep_read e' = Suc (ep_read e)" and "ep_client e' = ep_client e"
  shows "queue_fifo b' n e'"
proof -
  obtain k where "k \<le> ep_read e" "queue_of (home b) n (bus_tasks b) = drop k (take (ep_read e) (sent (ep_client e)))"
    using assms(1) unfolding queue_fifo_def by blast
  then show ?thesis
    using assms(2-6) unfolding queue_fifo_def by (intro exI [of _ k]) (simp add: take_Suc_conv_app_nth)
qed

lemma stub_fifo_turn:
  assumes "stub_fifo b s" and "ss_serving s" and "stub_offered b s ev"
    and "stub_serve [ev] (ss_stub s) = (r, stub)"
  shows "stub_fifo b (s\<lparr>ss_stub := stub, ss_serving := (r = None), ss_taken := ss_taken s + stub_takes ev\<rparr>)"
proof (cases "\<exists>m. ev = FromCore (Some m)")
  case True
  then obtain m where m: "ev = FromCore (Some m)" by blast
  let ?buf = "buffer (chans (bus_core b) (ss_chan s))"
  have t: "ss_taken s < length ?buf" "m = ?buf ! ss_taken s" using assms(3) m by simp_all
  have "cs_sent (ss_stub s) = take (ss_taken s) ?buf" using assms(1,2) unfolding stub_fifo_def by auto
  then consider "cs_sent stub = take (Suc (ss_taken s)) ?buf" | "cs_sent stub = take (ss_taken s) ?buf" "r \<noteq> None"
    using stub_relays_turn [OF assms(4)] m t by (auto simp: take_Suc_conv_app_nth)
  then show ?thesis
    unfolding stub_fifo_def by cases (use m in \<open>auto simp: stub_takes_def intro: exI [of _ "ss_taken s"]\<close>)
next
  case False
  then have "stub_takes ev = 0" "cs_sent stub = cs_sent (ss_stub s)"
    using stub_relays_turn [OF assms(4)] by (auto simp: stub_takes_def split: stub_event.split option.split)
  then show ?thesis using assms(1,2) unfolding stub_fifo_def by auto
qed

section \<open>The steps\<close>

lemma read_sent: "wired b \<Longrightarrow> bus_endpoints b n = Some e \<Longrightarrow> ep_read e \<le> length (sent (ep_client e))"
  using wiredD(7) by (simp add: endpoint_ok_def)

lemma fifo_task:
  assumes w: "wired b" and f: "fifo_ok b" and t: "bus_tasks b = t # ts" "\<forall>n. t \<noteq> Register n"
    and run: "bus_outcome b = Running" and eff: "task_effect t (bus_core b) c"
  shows "fifo_ok (b\<lparr>bus_core := c, bus_outcome := out, bus_tasks := ts\<rparr>)" (is "fifo_ok ?b")
proof (rule fifo_okI)
  fix n e assume "bus_endpoints ?b n = Some e"
  then have "queue_fifo b n e" using fifo_okD(1) [OF f run] by simp
  moreover have "queue_of (home b) n (bus_tasks b) = queue_of (home b) n [t] @ queue_of (home ?b) n (bus_tasks ?b)"
    using t(1) by simp
  ultimately show "queue_fifo ?b n e" by (rule queue_fifo_popped)
next
  fix cid s assume s: "bus_sessions ?b cid = Some s"
  then show "cs_core_alive (ss_stub s)" using fifo_okD(2) [OF f run] by simp
  obtain ns where "buffer (chans c (ss_chan s)) = buffer (chans (bus_core b) (ss_chan s)) @ ns"
    using task_effect_buffer [OF eff] by blast
  then show "stub_fifo ?b s"
    using stub_fifo_same [of b s ?b ns] fifo_okD(3) [OF f] sessions_okD(4) [OF w] s by simp
qed

lemma fifo_register:
  assumes w: "wired b" and f: "fifo_ok b" and wi: "within_ids b" and t: "bus_tasks b = Register n # ts"
    and run: "bus_outcome b = Running"
  shows "fifo_ok (b\<lparr>bus_core := snd (register_client n (bus_core b)), bus_outcome := out, bus_tasks := ts,
     bus_sessions := open_session (Register n) now b\<rparr>)" (is "fifo_ok ?b")
proof (rule fifo_okI)
  let ?cid = "next_client_id (bus_core b)"
  note r = register_frame [of n "bus_core b"]
  have new: "bus_sessions b ?cid = None" by (rule fresh_id [OF w wi t])
  have hm: "home ?b = (home b)(?cid \<mapsto> n)" by (auto simp: home_def)
  have ss: "bus_sessions ?b = (bus_sessions b)(?cid \<mapsto> opened n now (bus_core b))" by (simp add: opened_def)
  fix k e assume e: "bus_endpoints ?b k = Some e"
  have "queue_of (home ?b) k ts = queue_of (home b) k ts"
  proof (rule queue_of_cong)
    fix cid m assume "Message cid m \<in> set ts"
    then have "bus_sessions b cid \<noteq> None" using queued_task(2) [OF w, of "Message cid m" cid] t by simp
    then show "home ?b cid = Some k \<longleftrightarrow> home b cid = Some k" using new unfolding hm by auto
  qed
  then have "queue_of (home b) k (bus_tasks b) = [] @ queue_of (home ?b) k (bus_tasks ?b)" using t by simp
  moreover have "queue_fifo b k e" using fifo_okD(1) [OF f run] e by simp
  ultimately show "queue_fifo ?b k e" using queue_fifo_popped by blast
next
  let ?cid = "next_client_id (bus_core b)"
  note r = register_frame [of n "bus_core b"]
  have ss: "bus_sessions ?b = (bus_sessions b)(?cid \<mapsto> opened n now (bus_core b))" by (simp add: opened_def)
  fix cid s assume "bus_sessions ?b cid = Some s"
  then consider "s = opened n now (bus_core b)" | "bus_sessions b cid = Some s"
    unfolding ss by (metis fun_upd_apply option.inject)
  then have "cs_core_alive (ss_stub s) \<and> stub_fifo ?b s"
  proof cases
    case 1
    have "cs_core_alive (ss_stub s)" "cs_sent (ss_stub s) = []" "ss_taken s = 0"
      unfolding 1 by (simp_all add: opened_def stub_start_def)
    then show ?thesis unfolding stub_fifo_def by simp
  next
    case 2
    have "ss_chan s \<noteq> next_chan (bus_core b)" using sessions_okD(3) [OF w 2] by simp
    then have "buffer (chans (bus_core ?b) (ss_chan s)) = buffer (chans (bus_core b) (ss_chan s)) @ []"
      using r(5) by simp
    then have "stub_fifo ?b s" by (rule stub_fifo_same [OF fifo_okD(3) [OF f 2] sessions_okD(4) [OF w 2]])
    then show ?thesis using fifo_okD(2) [OF f run 2] by blast
  qed
  then show "cs_core_alive (ss_stub s)" "stub_fifo ?b s" by blast+
qed

lemma fifo_stub:
  assumes w: "wired b" and f: "fifo_ok b" and s: "bus_sessions b cid = Some s" and serving: "ss_serving s"
    and off: "stub_offered b s ev"
  shows "fifo_ok (after_stub cid s ev b)" (is "fifo_ok ?b")
proof -
  obtain r stub ts ms p where r: "stub_serve [ev] (ss_stub s) = (r, stub)"
    and p: "bus_endpoints b (ss_transport s) = Some p"
    and b': "?b = b\<lparr>bus_sessions := (bus_sessions b)(cid \<mapsto>
          s\<lparr>ss_stub := stub, ss_serving := (r = None), ss_taken := ss_taken s + stub_takes ev\<rparr>),
        bus_endpoints := (bus_endpoints b)(ss_transport s \<mapsto> p\<lparr>ep_read := ep_read p + stub_reads ev\<rparr>),
        bus_tasks := bus_tasks b @ ts,
        bus_core := (if r = None then bus_core b else close_chan (ss_chan s) (bus_core b))\<rparr>"
    and ts: "ts = [] \<or> ts = [Deregister cid] \<or> (\<exists>m. ev = FromTransport (Some (Inr m)) \<and>
      m \<in> set (sent (ep_client p)) \<and> ep_read p < length (sent (ep_client p)) \<and>
      m = sent (ep_client p) ! ep_read p \<and> ts = [Message cid m])"
    by (rule after_stub_parts [OF w s off])
  let ?s = "s\<lparr>ss_stub := stub, ss_serving := (r = None), ss_taken := ss_taken s + stub_takes ev\<rparr>"
  note hm = same_sessions_home [OF after_stub_same [OF w s off]]
  have mine: "home b cid = Some (ss_transport s)" using s by (simp add: home_def)
  have alive: "bus_outcome b = Running \<Longrightarrow> cs_core_alive (ss_stub s)" by (rule fifo_okD(2) [OF f _ s])
  show ?thesis
  proof (rule fifo_okI)
    fix n e assume run: "bus_outcome ?b = Running" and e: "bus_endpoints ?b n = Some e"
    have run': "bus_outcome b = Running" using run by (simp add: b')
    show "queue_fifo ?b n e"
    proof (cases "n = ss_transport s")
      case True
      have e': "e = p\<lparr>ep_read := ep_read p + stub_reads ev\<rparr>" using e True by (simp add: b')
      note q = fifo_okD(1) [OF f run' p]
      have "bus_tasks ?b = bus_tasks b @ drop (length (cs_tasks (ss_stub s))) (cs_tasks stub)"
        by (simp add: after_stub_def r)
      then have ts': "ts = drop (length (cs_tasks (ss_stub s))) (cs_tasks stub)" by (simp add: b')
      show ?thesis
      proof (cases "\<exists>m. ev = FromTransport (Some (Inr m))")
        case True
        then obtain m where m: "ev = FromTransport (Some (Inr m))" by blast
        then have "ts = [Message cid m]"
          using stub_hears [OF alive [OF run'] sessions_okD(1) [OF w s], of m r stub] r ts' by simp
        moreover from off p m have "ep_read p < length (sent (ep_client p))" "m = sent (ep_client p) ! ep_read p"
          by simp_all
        moreover have "stub_reads ev = 1" using m by (simp add: stub_reads_def)
        ultimately show ?thesis
          using q queue_fifo_read [of b n p m ?b e] e' mine hm \<open>n = ss_transport s\<close>
          by simp (simp add: b')
      next
        case False
        then have "queue_of (home b) n ts = []" "stub_reads ev = 0"
          using ts by (auto simp: stub_reads_def split: stub_event.split option.split sum.split)
        then show ?thesis using q e' \<open>n = ss_transport s\<close> hm by (simp add: queue_fifo_def) (simp add: b')
      qed
    next
      case False
      then have "queue_of (home b) n ts = []" using ts mine by auto
      then show ?thesis
        using False e fifo_okD(1) [OF f run', of n e] hm by (simp add: queue_fifo_def) (simp add: b')
    qed
  next
    fix c u assume run: "bus_outcome ?b = Running" and u: "bus_sessions ?b c = Some u"
    have run': "bus_outcome b = Running" using run by (simp add: b')
    then have "ev \<noteq> CoreGone" using off by auto
    then show "cs_core_alive (ss_stub u)"
      using u stub_alive_turn [OF r alive [OF run']] fifo_okD(2) [OF f run', of c u]
      by (auto simp: b' split: if_splits)
  next
    fix c u assume u: "bus_sessions ?b c = Some u"
    have buf: "buffer (chans (bus_core ?b) h) = buffer (chans (bus_core b) h)" for h by (simp add: b')
    show "stub_fifo ?b u"
    proof (cases "c = cid")
      case True
      then have "u = ?s" using u by (simp add: b')
      then show ?thesis
        using stub_fifo_turn [OF fifo_okD(3) [OF f s] serving off r] unfolding stub_fifo_def buf by simp
    next
      case False
      then show ?thesis using u fifo_okD(3) [OF f, of c u] unfolding stub_fifo_def buf by (simp add: b')
    qed
  qed
qed

lemma fifo_client:
  assumes w: "wired b" and f: "fifo_ok b" and n: "bus_endpoints b n = Some e"
    and on: "sends_on (ep_client e) (ep_client e')" and rd: "ep_read e' = ep_read e"
  shows "fifo_ok (b\<lparr>bus_endpoints := (bus_endpoints b)(n \<mapsto> e')\<rparr>)" (is "fifo_ok ?b")
proof (rule fifo_okI)
  fix k g assume run: "bus_outcome ?b = Running" and g: "bus_endpoints ?b k = Some g"
  show "queue_fifo ?b k g"
  proof (cases "k = n")
    case True
    have "queue_fifo b n e" using fifo_okD(1) [OF f _ n] run by simp
    from queue_fifo_same [OF this _ rd read_sent [OF w n] on, of ?b] show ?thesis using True g by simp
  next
    case False
    then show ?thesis using g run fifo_okD(1) [OF f, of k g] by (simp add: queue_fifo_def)
  qed
qed (use fifo_okD [OF f] in \<open>simp_all add: stub_fifo_def\<close>)

lemma fifo_connect:
  assumes w: "wired b" and f: "fifo_ok b" and n: "n = bus_next b"
  shows "fifo_ok (b\<lparr>bus_endpoints := (bus_endpoints b)(n \<mapsto> new_endpoint c), bus_tasks := bus_tasks b @ [Register n],
     bus_next := n + 1\<rparr>)" (is "fifo_ok ?b")
proof (rule fifo_okI)
  fix k g assume run: "bus_outcome ?b = Running" and g: "bus_endpoints ?b k = Some g"
  show "queue_fifo ?b k g"
  proof (cases "k = n")
    case True
    have "home b cid \<noteq> Some n" for cid
      using sessions_okD(2) [OF w, of cid] n unfolding home_Some by fastforce
    then have "queue_of (home b) n (bus_tasks b) = []" by (rule queue_of_empty)
    moreover have "ep_read g = 0" using True g by (auto simp: new_endpoint_def)
    ultimately show ?thesis using True by (simp add: queue_fifo_def)
  next
    case False
    then show ?thesis using g run fifo_okD(1) [OF f, of k g] by (simp add: queue_fifo_def)
  qed
qed (use fifo_okD [OF f] in \<open>simp_all add: stub_fifo_def\<close>)

lemma fifo_frame:
  assumes f: "fifo_ok b" and "bus_endpoints b' = bus_endpoints b" "bus_sessions b' = bus_sessions b"
    and "chans (bus_core b') = chans (bus_core b)"
    and "bus_outcome b' = Running \<Longrightarrow> bus_outcome b = Running \<and>
      (\<forall>n. queue_of (home b) n (bus_tasks b') = queue_of (home b) n (bus_tasks b))"
  shows "fifo_ok b'"
proof -
  have "home b' = home b" using assms(3) by (simp add: home_def fun_eq_iff)
  then show ?thesis using assms by (auto simp: fifo_ok_def queue_fifo_def stub_fifo_def)
qed

lemma fifo_core_task:
  assumes w: "wired b" and f: "fifo_ok b" and wi: "within_ids b" and q: "bus_tasks b = t # ts"
    and o: "bus_outcome b = Running" and run: "core_run rt [Task t] (bus_core b) = (out, c)"
  shows "fifo_ok (b\<lparr>bus_core := c, bus_outcome := out, bus_tasks := ts, bus_sessions := open_session t now b\<rparr>)"
proof (cases "\<exists>n. t = Register n")
  case True
  then obtain n where n: "t = Register n" by blast
  have c: "c = snd (register_client n (bus_core b))" using core_register_moves(1) run unfolding n .
  have "bus_tasks b = Register n # ts" using q n by simp
  then show ?thesis unfolding n c by (rule fifo_register [OF w f wi _ o])
next
  case False
  then have n: "\<forall>n. t \<noteq> Register n" by simp
  have "b\<lparr>bus_core := c, bus_outcome := out, bus_tasks := ts, bus_sessions := open_session t now b\<rparr> =
      b\<lparr>bus_core := c, bus_outcome := out, bus_tasks := ts\<rparr>"
    using open_session_none [OF n, of now b] by (cases b) simp
  then show ?thesis using fifo_task [OF w f q n o core_task_moves(1) [OF run n]] by simp
qed

lemma bus_step_fifo:
  assumes "bus_step rt ord allowed b b'" and w: "wired b" and wi: "within_ids b" and f: "fifo_ok b"
  shows "fifo_ok b'"
  using assms(1)
proof cases
  case (Connect n acks rsps pubs reqs)
  then show ?thesis using fifo_connect [OF w f] by blast
next
  case (CoreTask u ts out c now)
  then show ?thesis using fifo_core_task [OF w f wi] by blast
next
  case (CoreStops out c)
  then show ?thesis by (intro fifo_frame [OF f]) auto
next
  case (Timer k)
  then show ?thesis by (intro fifo_frame [OF f]) auto
next
  case (Stub cid s e)
  then show ?thesis using fifo_stub [OF w f] by blast
next
  case (Client n e ev)
  obtain out c where s: "client_step ord ev (ep_client e) = (out, c)" by fastforce
  then have "b' = b\<lparr>bus_endpoints := (bus_endpoints b)(n \<mapsto> stepped e ev out c)\<rparr>"
    using Client(1) by (simp add: after_client_def stepped_def)
  then show ?thesis using fifo_client [OF w f Client(2), of "stepped e ev out c"] client_step_on [OF s] by simp
next
  case (ClientSinkBreaks n e err)
  then show ?thesis
    using fifo_client [OF w f, of n e "e\<lparr>ep_client := (ep_client e)\<lparr>sink_error := Some err\<rparr>\<rparr>"]
    by (simp add: sends_on_def)
next
  case (CallerDrops n e r)
  then show ?thesis
    using fifo_client [OF w f, of n e "e\<lparr>ep_client := drop_receiver r (ep_client e)\<rparr>"]
    by (simp add: sends_on_def)
qed

lemma fifo_ok_new: "fifo_ok (bus_new c)"
  by (simp add: fifo_ok_def bus_new_def)

lemma bus_reachable_fifo:
  assumes "regex_engine rx" and "core_new rx = returns c" and "hash_iteration ord"
    and "bus_reachable rt ord allowed c b"
  shows "fifo_ok b"
  by (rule bus_reachable_induct [where P = fifo_ok, OF assms fifo_ok_new])
     (auto simp: bus_inv_def intro: bus_step_fifo)

end
