(* ===== verification/Bus_Rest.thy ===== *)
theory Bus_Rest
  imports Bus_Fifo
begin

text \<open>
  A bus that is left alone comes to rest. Left alone means that only messages move: stubs
  read and relay them, the core processes them, clients receive them, and nobody calls,
  connects, fails or times out. However these steps interleave they end, and when none is
  left everything sent has arrived.
\<close>

inductive passes_on :: "runtime \<Rightarrow> (u32 set \<Rightarrow> u32 list) \<Rightarrow> bus \<Rightarrow> bus \<Rightarrow> bool"
  for rt ord where
  Processes:
    "bus_outcome b = Running \<Longrightarrow> bus_tasks b = t # ts \<Longrightarrow>
     core_run rt [Task t] (bus_core b) = (out, c) \<Longrightarrow>
     passes_on rt ord b (b\<lparr>bus_core := c, bus_outcome := out, bus_tasks := ts,
        bus_sessions := open_session t now b\<rparr>)"
| Reads:
    "bus_sessions b cid = Some s \<Longrightarrow> ss_serving s \<Longrightarrow> stub_offered b s (FromTransport (Some (Inr m))) \<Longrightarrow>
     passes_on rt ord b (after_stub cid s (FromTransport (Some (Inr m))) b)"
| Relays:
    "bus_sessions b cid = Some s \<Longrightarrow> ss_serving s \<Longrightarrow> stub_offered b s (FromCore (Some m)) \<Longrightarrow>
     passes_on rt ord b (after_stub cid s (FromCore (Some m)) b)"
| Receives:
    "bus_endpoints b n = Some e \<Longrightarrow> ep_outcome e = ClientRunning \<Longrightarrow> bus_sessions b cid = Some s \<Longrightarrow>
     ss_transport s = n \<Longrightarrow> ep_got e < length (cs_sent (ss_stub s)) \<Longrightarrow>
     passes_on rt ord b (after_client ord n e (FromServer (Inr (cs_sent (ss_stub s) ! ep_got e))) b)"

inductive_cases passes_onE: "passes_on rt ord b b'"

lemma passes_on_step:
  assumes "passes_on rt ord b b'"
  shows "bus_step rt ord allowed b b'"
  using assms
proof cases
  case (Receives n e cid s)
  have "client_offered allowed b n e (FromServer (Inr (cs_sent (ss_stub s) ! ep_got e)))"
    using Receives by auto
  then show ?thesis using Client Receives(1-3) by blast
qed (auto intro: CoreTask Stub)

section \<open>What a receiving client sends\<close>

text \<open>
  A client answers a message only by giving up subscriptions whose receivers are gone, and
  for that it removes a callback.
\<close>

definition fewer_callbacks :: "client_core \<Rightarrow> client_core \<Rightarrow> bool" where
  "fewer_callbacks c c' \<longleftrightarrow> card (dom (callbacks_pub c')) < card (dom (callbacks_pub c)) \<or>
     card (dom (callbacks_pub c')) = card (dom (callbacks_pub c)) \<and> sent c' = sent c"

lemma fewer_callbacks_trans: "fewer_callbacks a b \<Longrightarrow> fewer_callbacks b c \<Longrightarrow> fewer_callbacks a c"
  unfolding fewer_callbacks_def by auto

lemma unsub_callbacks:
  assumes "client_send (TaskUnsub m) c = returns (r, c')"
  shows "callbacks_pub c' = callbacks_pub c"
  using assms by (auto simp: client_send_def before_send_def transport_send_def Let_def bus_simps split: option.splits)

lemma send_unsubs_callbacks: "send_unsubs ts c = returns (r, c') \<Longrightarrow> callbacks_pub c' = callbacks_pub c"
proof (induction ts arbitrary: c)
  case (Cons t ts)
  then obtain q c1 where s: "client_send (TaskUnsub (UnsubMsg t)) c = returns (q, c1)"
    and n: "(case q of Inl e \<Rightarrow> returns (Inl e, c1) | Inr _ \<Rightarrow> send_unsubs ts c1) = returns (r, c')"
    by (auto simp: bus_simps)
  show ?case using n Cons.IH [of c1] unsub_callbacks [OF s] by (cases q) auto
qed simp

lemma notify_callbacks: "notify p ids c = returns (r, c') \<Longrightarrow> fewer_callbacks c c'"
proof (induction ids arbitrary: c)
  case (Cons k ids)
  obtain h where h: "callbacks_pub c k = Some h" using Cons.prems by (cases "callbacks_pub c k") auto
  show ?case
  proof (cases "rx_alive (pub_chans c h)")
    case True
    show ?thesis using Cons.IH [OF Cons.prems [unfolded notify_step_live [OF h True]]]
      by (simp add: fewer_callbacks_def)
  next
    case False
    obtain d ts where d: "drop_client k (subscriptions c) = (d, ts)" by fastforce
    let ?c = "c\<lparr>callbacks_pub := (callbacks_pub c)(k := None), subscriptions := d\<rparr>"
    obtain q c1 where s: "send_unsubs ts ?c = returns (q, c1)"
      and n: "(case q of Inl e \<Rightarrow> returns (Inl e, c1) | Inr _ \<Rightarrow> notify p ids c1) = returns (r, c')"
      using Cons.prems h False d by (auto simp: bus_simps)
    have "card (dom (callbacks_pub ?c)) < card (dom (callbacks_pub c))"
      by (rule psubset_card_mono) (use h in auto)
    then have "fewer_callbacks c c1"
      using send_unsubs_callbacks [OF s] by (simp add: fewer_callbacks_def)
    then show ?thesis using n Cons.IH [of c1] fewer_callbacks_trans by (cases q) auto
  qed
qed (simp add: fewer_callbacks_def)

lemma receive_callbacks:
  assumes "client_step ord (FromServer (Inr m)) c = (out, c')"
  shows "fewer_callbacks c c'"
proof (cases "after_receive ord m c")
  case None
  then show ?thesis using assms by (simp add: client_step_def fewer_callbacks_def)
next
  case (Some x)
  obtain r c1 where x: "x = (r, c1)" by (cases x)
  then have "c' = c1" using assms Some by (cases r) (simp_all add: client_step_def)
  then show ?thesis using Some x notify_callbacks
    by (cases "content m") (auto simp: after_receive_def fewer_callbacks_def split: option.splits)
qed

section \<open>What is left to do\<close>

definition at_endpoints :: "(endpoint \<Rightarrow> nat) \<Rightarrow> bus \<Rightarrow> nat" where
  "at_endpoints f b = (\<Sum>n < bus_next b. case bus_endpoints b n of None \<Rightarrow> 0 | Some e \<Rightarrow> f e)"

definition at_sessions :: "(bus \<Rightarrow> session \<Rightarrow> nat) \<Rightarrow> bus \<Rightarrow> nat" where
  "at_sessions f b = (\<Sum>cid \<in> UNIV. case bus_sessions b cid of None \<Rightarrow> 0 | Some s \<Rightarrow> f b s)"

definition callbacks_left :: "bus \<Rightarrow> nat" where
  "callbacks_left = at_endpoints (\<lambda>e. card (dom (callbacks_pub (ep_client e))))"

definition unread :: "bus \<Rightarrow> nat" where
  "unread = at_endpoints (\<lambda>e. length (sent (ep_client e)) - ep_read e)"

definition serving_left :: "bus \<Rightarrow> nat" where
  "serving_left b = at_sessions (\<lambda>b s. if ss_serving s then 1 else 0) b + length (regs_of (bus_tasks b))"

definition untaken :: "bus \<Rightarrow> nat" where
  "untaken = at_sessions (\<lambda>b s. length (buffer (chans (bus_core b) (ss_chan s))) - ss_taken s)"

definition ungot :: "bus \<Rightarrow> nat" where
  "ungot = at_sessions (\<lambda>b s. length (cs_sent (ss_stub s)) -
     (case bus_endpoints b (ss_transport s) of None \<Rightarrow> 0 | Some e \<Rightarrow> ep_got e))"

definition left_to_do :: "(bus \<times> bus) set" where
  "left_to_do = measures [callbacks_left, unread, serving_left, length \<circ> bus_tasks, untaken, ungot]"

lemma at_endpoints_upd:
  assumes "bus_endpoints b n = Some e" and "bus_endpoints b' = (bus_endpoints b)(n \<mapsto> e')"
    and "bus_next b' = bus_next b"
  shows "f e' \<le> f e \<Longrightarrow> at_endpoints f b' \<le> at_endpoints f b"
    and "n < bus_next b \<Longrightarrow> f e' < f e \<Longrightarrow> at_endpoints f b' < at_endpoints f b"
    and "f e' = f e \<Longrightarrow> at_endpoints f b' = at_endpoints f b"
proof -
  show "f e' \<le> f e \<Longrightarrow> at_endpoints f b' \<le> at_endpoints f b"
    unfolding at_endpoints_def assms(2,3) by (rule sum_mono) (use assms(1) in auto)
  show "n < bus_next b \<Longrightarrow> f e' < f e \<Longrightarrow> at_endpoints f b' < at_endpoints f b"
    unfolding at_endpoints_def assms(2,3)
    by (rule sum_strict_mono_ex1) (use assms(1) in \<open>auto intro!: bexI [of _ n]\<close>)
  show "f e' = f e \<Longrightarrow> at_endpoints f b' = at_endpoints f b"
    unfolding at_endpoints_def assms(2,3) by (rule sum.cong) (use assms(1) in auto)
qed

lemma at_endpoints_same:
  "bus_endpoints b' = bus_endpoints b \<Longrightarrow> bus_next b' = bus_next b \<Longrightarrow> at_endpoints f b' = at_endpoints f b"
  by (simp add: at_endpoints_def)

lemma at_sessions_upd:
  assumes "bus_sessions b' = (bus_sessions b)(cid \<mapsto> s')"
    and "\<And>c s. c \<noteq> cid \<Longrightarrow> bus_sessions b c = Some s \<Longrightarrow> f b' s \<le> f b s"
  shows "at_sessions f b' \<le> at_sessions f b + f b' s'"
    and "bus_sessions b cid = Some s \<Longrightarrow> f b' s' \<le> f b s \<Longrightarrow> at_sessions f b' \<le> at_sessions f b"
    and "bus_sessions b cid = Some s \<Longrightarrow> f b' s' < f b s \<Longrightarrow> at_sessions f b' < at_sessions f b"
proof -
  let ?g = "\<lambda>b c. case bus_sessions b c of None \<Rightarrow> 0 | Some s \<Rightarrow> f b s"
  have split: "at_sessions f b = ?g b cid + (\<Sum>c \<in> UNIV - {cid}. ?g b c)" for b
    unfolding at_sessions_def by (rule sum.remove) simp_all
  have rest: "(\<Sum>c \<in> UNIV - {cid}. ?g b' c) \<le> (\<Sum>c \<in> UNIV - {cid}. ?g b c)"
    by (rule sum_mono) (use assms in \<open>auto split: option.split\<close>)
  show "at_sessions f b' \<le> at_sessions f b + f b' s'"
    unfolding split using rest assms(1) by simp
  show "bus_sessions b cid = Some s \<Longrightarrow> f b' s' \<le> f b s \<Longrightarrow> at_sessions f b' \<le> at_sessions f b"
    unfolding split using rest assms(1) by simp
  show "bus_sessions b cid = Some s \<Longrightarrow> f b' s' < f b s \<Longrightarrow> at_sessions f b' < at_sessions f b"
    unfolding split using rest assms(1) by simp
qed

section \<open>Every step does some of it\<close>

lemma endpoint_work_same:
  "bus_endpoints b' = bus_endpoints b \<Longrightarrow> bus_next b' = bus_next b \<Longrightarrow>
   callbacks_left b' = callbacks_left b \<and> unread b' = unread b"
  unfolding callbacks_left_def unread_def using at_endpoints_same by blast

lemma process_work:
  assumes "bus_tasks b = t # ts" and "b' = b\<lparr>bus_core := c, bus_outcome := out, bus_tasks := ts,
     bus_sessions := open_session t now b\<rparr>"
  shows "(b', b) \<in> left_to_do"
proof -
  have "serving_left b' \<le> serving_left b"
  proof (cases "\<exists>n. t = Register n")
    case True
    then obtain n where n: "t = Register n" by blast
    let ?f = "\<lambda>b s. if ss_serving s then 1 else (0::nat)"
    have "bus_sessions b' = (bus_sessions b)(next_client_id (bus_core b) \<mapsto> opened n now (bus_core b))"
      by (simp add: assms(2) n opened_def)
    then have "at_sessions ?f b' \<le> at_sessions ?f b + ?f b' (opened n now (bus_core b))"
      by (rule at_sessions_upd(1)) simp
    also have "\<dots> \<le> at_sessions ?f b + 1" by simp
    finally show ?thesis unfolding serving_left_def using assms n by simp
  next
    case False
    then have "bus_sessions b' = bus_sessions b" using open_session_none by (simp add: assms(2))
    moreover have "regs_of [t] = []" using False regs_of_unregister by blast
    ultimately show ?thesis using assms unfolding serving_left_def at_sessions_def
      by (simp split: task.splits)
  qed
  moreover have "callbacks_left b' = callbacks_left b \<and> unread b' = unread b"
    by (rule endpoint_work_same) (simp_all add: assms(2))
  moreover have "length (bus_tasks b') < length (bus_tasks b)" using assms by simp
  ultimately show ?thesis unfolding left_to_do_def by auto
qed

lemma stub_work:
  assumes w: "wired b" and s: "bus_sessions b cid = Some s" "ss_serving s"
    and off: "stub_offered b s ev" and ev: "ev = FromTransport (Some (Inr m)) \<or> ev = FromCore (Some k)"
  shows "(after_stub cid s ev b, b) \<in> left_to_do" (is "(?b, b) \<in> _")
proof -
  obtain r stub ts ms p where r: "stub_serve [ev] (ss_stub s) = (r, stub)"
    and p: "bus_endpoints b (ss_transport s) = Some p"
    and b': "?b = b\<lparr>bus_sessions := (bus_sessions b)(cid \<mapsto>
          s\<lparr>ss_stub := stub, ss_serving := (r = None), ss_taken := ss_taken s + stub_takes ev\<rparr>),
        bus_endpoints := (bus_endpoints b)(ss_transport s \<mapsto> p\<lparr>ep_read := ep_read p + stub_reads ev\<rparr>),
        bus_tasks := bus_tasks b @ ts,
        bus_core := (if r = None then bus_core b else close_chan (ss_chan s) (bus_core b))\<rparr>"
    and "cs_id stub = cid" "cs_sent stub = cs_sent (ss_stub s) @ ms"
    and "ts = [] \<or> ts = [Deregister cid] \<or> (\<exists>m. ev = FromTransport (Some (Inr m)) \<and>
      m \<in> set (sent (ep_client p)) \<and> ep_read p < length (sent (ep_client p)) \<and>
      m = sent (ep_client p) ! ep_read p \<and> ts = [Message cid m])"
    by (rule after_stub_parts [OF w s(1) off])
  let ?s = "s\<lparr>ss_stub := stub, ss_serving := (r = None), ss_taken := ss_taken s + stub_takes ev\<rparr>"
  let ?p = "p\<lparr>ep_read := ep_read p + stub_reads ev\<rparr>"
  have ends: "bus_endpoints ?b = (bus_endpoints b)(ss_transport s \<mapsto> ?p)" "bus_next ?b = bus_next b"
    by (simp_all add: b')
  have cb: "callbacks_left ?b = callbacks_left b"
    unfolding callbacks_left_def by (rule at_endpoints_upd(3) [OF p ends]) simp
  show ?thesis
  proof (cases "ev = FromTransport (Some (Inr m))")
    case True
    then have "ep_read p < length (sent (ep_client p))" using off p by simp
    then have "unread ?b < unread b"
      unfolding unread_def using True sessions_okD(2) [OF w s(1)]
      by (intro at_endpoints_upd(2) [OF p ends]) (simp_all add: stub_reads_def)
    then show ?thesis using cb by (simp add: left_to_do_def)
  next
    case False
    then have k: "ev = FromCore (Some k)" using ev by blast
    have un: "unread ?b = unread b"
      unfolding unread_def by (rule at_endpoints_upd(3) [OF p ends]) (simp add: k stub_reads_def)
    have ss: "bus_sessions ?b = (bus_sessions b)(cid \<mapsto> ?s)" by (simp add: b')
    let ?f = "\<lambda>b s. if ss_serving s then 1 else (0::nat)"
    show ?thesis
    proof (cases "r = None")
      case True
      have "ts = []"
      proof -
        have "bus_tasks ?b = bus_tasks b @ drop (length (cs_tasks (ss_stub s))) (cs_tasks stub)"
          by (simp add: after_stub_def r)
        moreover have "cs_tasks stub = cs_tasks (ss_stub s)"
          using r True k by (auto simp: stub_serve_def stub_step_def stub_transport_send_def send_task_def
              split: option.splits prod.splits sum.splits if_splits)
        ultimately show ?thesis by (simp add: b')
      qed
      have "serving_left ?b = serving_left b"
      proof -
        have "at_sessions ?f ?b = at_sessions ?f b"
          unfolding at_sessions_def by (rule sum.cong) (use s True in \<open>auto simp: ss\<close>)
        then show ?thesis using \<open>ts = []\<close> unfolding serving_left_def by (simp add: b')
      qed
      moreover have "untaken ?b < untaken b"
        unfolding untaken_def
      proof (rule at_sessions_upd(3) [OF ss _ s(1)])
        have "buffer (chans (bus_core ?b) h) = buffer (chans (bus_core b) h)" for h by (simp add: b')
        moreover have "ss_taken s < length (buffer (chans (bus_core b) (ss_chan s)))" using off k by simp
        ultimately show "length (buffer (chans (bus_core ?b) (ss_chan ?s))) - ss_taken ?s <
            length (buffer (chans (bus_core b) (ss_chan s))) - ss_taken s"
          using k by (simp add: stub_takes_def)
      qed (simp add: b' True)
      ultimately show ?thesis using cb un \<open>ts = []\<close> by (simp add: left_to_do_def) (simp add: b')
    next
      case False
      have "at_sessions ?f ?b < at_sessions ?f b"
        by (rule at_sessions_upd(3) [OF ss _ s(1)]) (use False s(2) in simp_all)
      moreover have "regs_of ts = []" using \<open>ts = [] \<or> _\<close> k by auto
      ultimately have "serving_left ?b < serving_left b"
        unfolding serving_left_def by (simp add: b')
      then show ?thesis using cb un by (simp add: left_to_do_def)
    qed
  qed
qed

lemma receive_work:
  assumes w: "wired b" and n: "bus_endpoints b n = Some e" and s: "bus_sessions b cid = Some s" "ss_transport s = n"
    and more: "ep_got e < length (cs_sent (ss_stub s))"
  shows "(after_client ord n e (FromServer (Inr m)) b, b) \<in> left_to_do" (is "(?b, b) \<in> _")
proof -
  obtain out c where step: "client_step ord (FromServer (Inr m)) (ep_client e) = (out, c)" by fastforce
  let ?e = "stepped e (FromServer (Inr m)) out c"
  have b': "?b = b\<lparr>bus_endpoints := (bus_endpoints b)(n \<mapsto> ?e)\<rparr>"
    using step by (simp add: after_client_def stepped_def)
  have ends: "bus_endpoints ?b = (bus_endpoints b)(n \<mapsto> ?e)" "bus_next ?b = bus_next b"
    by (simp_all add: b')
  from receive_callbacks [OF step] consider
      "card (dom (callbacks_pub c)) < card (dom (callbacks_pub (ep_client e)))"
    | "card (dom (callbacks_pub c)) = card (dom (callbacks_pub (ep_client e)))" "sent c = sent (ep_client e)"
    unfolding fewer_callbacks_def by blast
  then show ?thesis
  proof cases
    case 1
    have "n < bus_next b" using sessions_okD(2) [OF w s(1)] s(2) by simp
    then have "callbacks_left ?b < callbacks_left b"
      unfolding callbacks_left_def using 1 by (intro at_endpoints_upd(2) [OF n ends]) simp_all
    then show ?thesis by (simp add: left_to_do_def)
  next
    case 2
    have "callbacks_left ?b = callbacks_left b"
      unfolding callbacks_left_def by (rule at_endpoints_upd(3) [OF n ends]) (simp add: 2)
    moreover have "unread ?b = unread b"
      unfolding unread_def by (rule at_endpoints_upd(3) [OF n ends]) (simp add: 2)
    moreover have "serving_left ?b = serving_left b" "untaken ?b = untaken b" "bus_tasks ?b = bus_tasks b"
      by (simp_all add: serving_left_def untaken_def at_sessions_def b' cong: option.case_cong)
    moreover have "ungot ?b < ungot b"
      unfolding ungot_def
    proof (rule at_sessions_upd(3) [OF _ _ s(1)])
      show "bus_sessions ?b = (bus_sessions b)(cid \<mapsto> s)" using s(1) by (simp add: b' fun_upd_idem)
    qed (use n s(2) more in \<open>auto simp: b' client_gets_def split: option.split\<close>)
    ultimately show ?thesis by (simp add: left_to_do_def)
  qed
qed

lemma passes_on_work:
  assumes "passes_on rt ord b b'" and "wired b"
  shows "(b', b) \<in> left_to_do"
  using assms(1)
proof cases
  case (Processes t ts out c now)
  then show ?thesis using process_work by blast
next
  case (Reads cid s m)
  then show ?thesis using stub_work [OF assms(2)] by blast
next
  case (Relays cid s m)
  then show ?thesis using stub_work [OF assms(2)] by blast
next
  case (Receives n e cid s)
  then show ?thesis using receive_work [OF assms(2)] by blast
qed

section \<open>Rest\<close>

definition at_rest :: "runtime \<Rightarrow> (u32 set \<Rightarrow> u32 list) \<Rightarrow> bus \<Rightarrow> bool" where
  "at_rest rt ord b \<longleftrightarrow> (\<nexists>b'. passes_on rt ord b b')"

lemma at_rest_empty:
  assumes rest: "at_rest rt ord b" and run: "bus_outcome b = Running"
  shows "bus_tasks b = []"
proof (rule ccontr)
  assume "bus_tasks b \<noteq> []"
  then obtain t ts where q: "bus_tasks b = t # ts" by (cases "bus_tasks b") simp
  obtain out c where "core_run rt [Task t] (bus_core b) = (out, c)" by fastforce
  from Processes [OF run q this] show False using rest unfolding at_rest_def by blast
qed

lemma at_rest_session:
  assumes w: "wired b" and f: "fifo_ok b" and rest: "at_rest rt ord b" and s: "bus_sessions b cid = Some s" "ss_serving s"
    and e: "bus_endpoints b (ss_transport s) = Some e"
  shows "ep_read e = length (sent (ep_client e))"
    and "cs_sent (ss_stub s) = buffer (chans (bus_core b) (ss_chan s))"
    and "ep_outcome e = ClientRunning \<Longrightarrow> ep_got e = length (cs_sent (ss_stub s))"
proof -
  note ok = wiredD(7) [OF w e]
  have "\<not> ep_read e < length (sent (ep_client e))"
  proof
    assume "ep_read e < length (sent (ep_client e))"
    then have "stub_offered b s (FromTransport (Some (Inr (sent (ep_client e) ! ep_read e))))" using e by simp
    from Reads [OF s this] show False using rest unfolding at_rest_def by blast
  qed
  then show "ep_read e = length (sent (ep_client e))" using ok by (simp add: endpoint_ok_def)
  let ?buf = "buffer (chans (bus_core b) (ss_chan s))"
  have "\<not> ss_taken s < length ?buf"
  proof
    assume "ss_taken s < length ?buf"
    then have "stub_offered b s (FromCore (Some (?buf ! ss_taken s)))" by simp
    from Relays [OF s this] show False using rest unfolding at_rest_def by blast
  qed
  then have "ss_taken s = length ?buf" using sessions_okD(4) [OF w s(1)] by simp
  then show "cs_sent (ss_stub s) = ?buf"
    using fifo_okD(3) [OF f s(1)] s(2) unfolding stub_fifo_def by auto
  assume run: "ep_outcome e = ClientRunning"
  have "\<not> ep_got e < length (cs_sent (ss_stub s))"
    using Receives [OF e run s(1) refl] rest unfolding at_rest_def by blast
  moreover have "ep_got e \<le> length (cs_sent (ss_stub s))"
    using ok s(1) unfolding endpoint_ok_def got_ok_def by blast
  ultimately show "ep_got e = length (cs_sent (ss_stub s))" by simp
qed

lemma at_restI:
  \<comment> \<open>nothing is left to move when the session of each connection is done\<close>
  assumes w: "wired b" and "bus_tasks b = []"
    and fin: "\<And>n. n < bus_next b \<Longrightarrow> \<exists>cid s e. bus_sessions b cid = Some s \<and> ss_transport s = n \<and>
      ss_taken s = length (buffer (chans (bus_core b) (ss_chan s))) \<and> bus_endpoints b n = Some e \<and>
      ep_read e = length (sent (ep_client e)) \<and> ep_got e = length (cs_sent (ss_stub s))"
  shows "at_rest rt ord b"
  unfolding at_rest_def
proof
  have all: "ss_taken u = length (buffer (chans (bus_core b) (ss_chan u))) \<and>
      (\<exists>e. bus_endpoints b (ss_transport u) = Some e \<and> ep_read e = length (sent (ep_client e)) \<and>
        ep_got e = length (cs_sent (ss_stub u)))" if u: "bus_sessions b cid = Some u" for cid u
  proof -
    obtain c s e where s: "bus_sessions b c = Some s" "ss_transport s = ss_transport u"
      and "ss_taken s = length (buffer (chans (bus_core b) (ss_chan s)))"
        "bus_endpoints b (ss_transport u) = Some e" "ep_read e = length (sent (ep_client e))"
        "ep_got e = length (cs_sent (ss_stub s))"
      using fin [OF sessions_okD(2) [OF w u]] by blast
    moreover have "s = u" using session_unique(2) [OF w s(1) u] s(2) by blast
    ultimately show ?thesis by blast
  qed
  assume "\<exists>b'. passes_on rt ord b b'"
  then obtain b' where "passes_on rt ord b b'" by blast
  then show False
  proof cases
    case (Processes t ts out c now)
    then show ?thesis using assms(2) by simp
  next
    case (Reads cid u m)
    then show ?thesis using all [OF Reads(2)] by auto
  next
    case (Relays cid u m)
    then show ?thesis using all [OF Relays(2)] by auto
  next
    case (Receives n f cid u)
    then show ?thesis using all [OF Receives(4)] by auto
  qed
qed

end
