(* ===== verification/Server_Provenance.thy ===== *)
theory Server_Provenance
  imports Server_Core_Props
begin

text \<open>
  Where the server's messages come from. \<open>S cid m\<close> says that client \<open>cid\<close> has sent
  \<open>m\<close>, \<open>G cid m\<close> that the core has put \<open>m\<close> into the channel of \<open>cid\<close>. A message to a
  client is \<open>justified\<close> when clients have sent what it needs: a publication and an
  overlapping subscription, a request and the registration of its service, an answer to
  exactly the request that was passed on. One task of the core preserves this.
\<close>

type_synonym spoken = "u32 \<Rightarrow> protocol_client msg \<Rightarrow> bool"
type_synonym given = "u32 \<Rightarrow> protocol_server msg \<Rightarrow> bool"

section \<open>Justified messages\<close>

definition subscribes :: "spoken \<Rightarrow> u32 \<Rightarrow> topic \<Rightarrow> bool" where
  "subscribes S cid u \<longleftrightarrow> (\<exists>i. S cid (Msg i (ClientSub (SubMsg u))))"

definition serves :: "spoken \<Rightarrow> u32 \<Rightarrow> topic \<Rightarrow> bool" where
  "serves S cid u \<longleftrightarrow> (\<exists>i. S cid (Msg i (ClientSrv (SrvMsg u))))"

definition forwarded :: "spoken \<Rightarrow> given \<Rightarrow> u32 \<Rightarrow> u32 \<Rightarrow> u32 \<Rightarrow> u32 \<Rightarrow> bool" where
  \<comment> \<open>the request \<open>i\<close> of client \<open>cid\<close> was passed on, under the id \<open>j\<close>, to \<open>a\<close>, which serves it\<close>
  "forwarded S G cid i a j \<longleftrightarrow>
     (\<exists>q. S cid (Msg i (ClientReq q)) \<and> G a (Msg j (ServerReq q)) \<and> serves S a (req_topic q))"

fun justified :: "spoken \<Rightarrow> given \<Rightarrow> u32 \<Rightarrow> protocol_server \<Rightarrow> bool" where
  "justified S G cid (ServerPub p) \<longleftrightarrow>
     (\<exists>a i. S a (Msg i (ClientPub p))) \<and> (\<exists>u. subscribes S cid u \<and> topic_overlap u (pub_topic p))"
| "justified S G cid (ServerReq q) \<longleftrightarrow>
     (\<exists>a i. S a (Msg i (ClientReq q))) \<and> serves S cid (req_topic q)"
| "justified S G cid (ServerRsp r) \<longleftrightarrow>
     (\<exists>a j. forwarded S G cid (rsp_req_id r) a j \<and>
        (rsp_status r = StatusTimeout \<and> data (rsp_payload r) = [] \<or>
         (\<exists>i. S a (Msg i (ClientRsp (r\<lparr>rsp_req_id := j\<rparr>))))))"
| "justified S G cid (ServerAck a) \<longleftrightarrow>
     (\<exists>cnt. S cid (Msg (ack_msg_id a) cnt) \<and> (num_recipients a \<noteq> None \<longrightarrow> (\<exists>p. cnt = ClientPub p)))"

lemma spoken_mono:
  assumes "\<And>x m. S x m \<Longrightarrow> S' x m"
  shows "subscribes S cid u \<Longrightarrow> subscribes S' cid u" "serves S cid u \<Longrightarrow> serves S' cid u"
  using assms unfolding subscribes_def serves_def by blast+

lemma forwarded_mono:
  "forwarded S G cid i a j \<Longrightarrow> (\<And>x m. S x m \<Longrightarrow> S' x m) \<Longrightarrow> (\<And>x m. G x m \<Longrightarrow> G' x m) \<Longrightarrow>
   forwarded S' G' cid i a j"
  unfolding forwarded_def serves_def by blast

lemma justified_mono:
  assumes "justified S G cid p" and s: "\<And>x m. S x m \<Longrightarrow> S' x m" and g: "\<And>x m. G x m \<Longrightarrow> G' x m"
  shows "justified S' G' cid p"
proof (cases p)
  case (ServerPub q)
  then obtain a i u where "S a (Msg i (ClientPub q))" "subscribes S cid u" "topic_overlap u (pub_topic q)"
    using assms(1) by auto
  then have "S' a (Msg i (ClientPub q))" "subscribes S' cid u" "topic_overlap u (pub_topic q)"
    using s spoken_mono(1) [of S S' cid u] by blast+
  then show ?thesis unfolding ServerPub by auto
next
  case (ServerReq q)
  then obtain a i where "S a (Msg i (ClientReq q))" "serves S cid (req_topic q)"
    using assms(1) by auto
  then have "S' a (Msg i (ClientReq q))" "serves S' cid (req_topic q)"
    using s spoken_mono(2) [of S S' cid "req_topic q"] by blast+
  then show ?thesis unfolding ServerReq by auto
next
  case (ServerRsp r)
  then obtain a j where f: "forwarded S G cid (rsp_req_id r) a j"
    and k: "rsp_status r = StatusTimeout \<and> data (rsp_payload r) = [] \<or>
      (\<exists>i. S a (Msg i (ClientRsp (r\<lparr>rsp_req_id := j\<rparr>))))"
    using assms(1) by auto
  have "forwarded S' G' cid (rsp_req_id r) a j" using f s g by (rule forwarded_mono)
  moreover have "rsp_status r = StatusTimeout \<and> data (rsp_payload r) = [] \<or>
      (\<exists>i. S' a (Msg i (ClientRsp (r\<lparr>rsp_req_id := j\<rparr>))))"
    using k s by metis
  ultimately show ?thesis unfolding ServerRsp justified.simps by blast
next
  case (ServerAck a)
  then obtain cnt where "S cid (Msg (ack_msg_id a) cnt)" "num_recipients a \<noteq> None \<longrightarrow> (\<exists>p. cnt = ClientPub p)"
    using assms(1) by auto
  then show ?thesis using s [of cid] unfolding ServerAck by auto
qed

section \<open>The core's tables\<close>

definition core_just :: "spoken \<Rightarrow> given \<Rightarrow> core \<Rightarrow> bool" where
  "core_just S G c \<longleftrightarrow>
     (\<forall>u. \<forall>cid \<in> subs_of (directory c) u. cid \<noteq> 0 \<longrightarrow> subscribes S cid u) \<and>
     (\<forall>u cid. owner_of (directory c) u = Some cid \<longrightarrow> serves S cid u) \<and>
     (\<forall>j pr. pending_responses c j = Some pr \<longrightarrow>
        forwarded S G (pr_requester_id pr) (pr_request_id pr) (pr_responder_id pr) j)"

lemma core_justD:
  assumes "core_just S G c"
  shows "cid \<in> subs_of (directory c) u \<Longrightarrow> cid \<noteq> 0 \<Longrightarrow> subscribes S cid u"
    "owner_of (directory c) u = Some cid \<Longrightarrow> serves S cid u"
    "pending_responses c j = Some pr \<Longrightarrow>
       forwarded S G (pr_requester_id pr) (pr_request_id pr) (pr_responder_id pr) j"
  using assms unfolding core_just_def by blast+

lemma core_justI:
  assumes "\<And>cid u. cid \<in> subs_of (directory c) u \<Longrightarrow> cid \<noteq> 0 \<Longrightarrow> subscribes S cid u"
    and "\<And>u cid. owner_of (directory c) u = Some cid \<Longrightarrow> serves S cid u"
    and "\<And>j pr. pending_responses c j = Some pr \<Longrightarrow>
       forwarded S G (pr_requester_id pr) (pr_request_id pr) (pr_responder_id pr) j"
  shows "core_just S G c"
  using assms unfolding core_just_def by blast

lemma core_just_less:
  \<comment> \<open>more has been said and given, and the tables have lost entries at most\<close>
  assumes "core_just S G c" and "\<And>x m. S x m \<Longrightarrow> S' x m" and "\<And>x m. G x m \<Longrightarrow> G' x m"
    and "\<And>u. subs_of (directory c') u \<subseteq> subs_of (directory c) u"
    and "\<And>u cid. owner_of (directory c') u = Some cid \<Longrightarrow> owner_of (directory c) u = Some cid"
    and "pending_responses c' \<subseteq>\<^sub>m pending_responses c"
  shows "core_just S' G' c'"
proof (rule core_justI)
  show "subscribes S' cid u" if "cid \<in> subs_of (directory c') u" "cid \<noteq> 0" for cid u
    using core_justD(1) [OF assms(1)] assms(2,4) that unfolding subscribes_def by blast
  show "serves S' cid u" if "owner_of (directory c') u = Some cid" for u cid
    using core_justD(2) [OF assms(1)] assms(2,5) that unfolding serves_def by blast
  show "forwarded S' G' (pr_requester_id pr) (pr_request_id pr) (pr_responder_id pr) j"
    if "pending_responses c' j = Some pr" for j pr
  by (rule forwarded_mono [OF core_justD(3) [OF assms(1) map_leD [OF assms(6) that]] assms(2,3)])
qed

section \<open>Messages the core adds\<close>

definition adds :: "(u32 \<Rightarrow> protocol_server \<Rightarrow> bool) \<Rightarrow> core \<Rightarrow> core \<Rightarrow> bool" where
  \<comment> \<open>what is appended to the channel of a client is good for that client\<close>
  "adds J c c' \<longleftrightarrow>
     (\<forall>a h. protocol_server_senders c' a = Some h \<longrightarrow> protocol_server_senders c a = Some h) \<and>
     (\<forall>h. \<exists>ns. buffer (chans c' h) = buffer (chans c h) @ ns \<and>
        (\<forall>m \<in> set ns. \<exists>a. protocol_server_senders c a = Some h \<and> J a (content m)))"

lemma adds_refl [simp]: "adds J c c"
  by (simp add: adds_def)

lemma addsD:
  assumes "adds J c c'"
  shows "protocol_server_senders c' a = Some h \<Longrightarrow> protocol_server_senders c a = Some h"
    and "\<exists>ns. buffer (chans c' h) = buffer (chans c h) @ ns \<and>
        (\<forall>m \<in> set ns. \<exists>a. protocol_server_senders c a = Some h \<and> J a (content m))"
  using assms unfolding adds_def by blast+

lemma adds_trans:
  assumes "adds J a b" and "adds J b c"
  shows "adds J a c"
proof -
  have "\<exists>ns. buffer (chans c h) = buffer (chans a h) @ ns \<and>
      (\<forall>m \<in> set ns. \<exists>x. protocol_server_senders a x = Some h \<and> J x (content m))" for h
  proof -
    obtain ns ms where "buffer (chans b h) = buffer (chans a h) @ ns" "buffer (chans c h) = buffer (chans b h) @ ms"
      and "\<forall>m \<in> set ns. \<exists>x. protocol_server_senders a x = Some h \<and> J x (content m)"
      and "\<forall>m \<in> set ms. \<exists>x. protocol_server_senders b x = Some h \<and> J x (content m)"
      using addsD(2) [OF assms(1), of h] addsD(2) [OF assms(2), of h] by blast
    moreover have "protocol_server_senders b x = Some h \<Longrightarrow> protocol_server_senders a x = Some h" for x
      by (rule addsD(1) [OF assms(1)])
    ultimately show ?thesis by (intro exI [of _ "ns @ ms"]) (simp add: ball_Un, blast)
  qed
  then show ?thesis using addsD(1) [OF assms(1)] addsD(1) [OF assms(2)] unfolding adds_def by blast
qed

lemma adds_irrelevant [simp]:
  "adds J c (c'\<lparr>pending_responses := x\<rparr>) = adds J c c'"
  "adds J c (c'\<lparr>spawned_timers := ts\<rparr>) = adds J c c'"
  "adds J c (c'\<lparr>directory := d\<rparr>) = adds J c c'"
  "adds J (c\<lparr>pending_responses := x\<rparr>) c' = adds J c c'"
  by (simp_all add: adds_def)

lemma deliver_adds:
  assumes "deliver rt cid p c = (r, c')" and "J cid p"
  shows "adds J c c'"
proof (cases rule: deliver_cases [of c cid rt p])
  case (sent h)
  then have "c' = push h p c" using assms(1) by simp
  then show ?thesis using sent(1) assms(2) unfolding adds_def by simp blast
qed (use assms(1) in \<open>auto simp: adds_def split: if_splits\<close>)

section \<open>One task\<close>

definition given_by :: "(u32 \<rightharpoonup> nat) \<Rightarrow> core \<Rightarrow> given" where
  \<comment> \<open>\<open>W\<close> remembers the channel of every client there ever was\<close>
  "given_by W c a m \<longleftrightarrow> (\<exists>h. W a = Some h \<and> m \<in> set (buffer (chans c h)))"

lemma given_by_irrelevant [simp]:
  "given_by W (c\<lparr>pending_responses := x\<rparr>) = given_by W c"
  "given_by W (c\<lparr>directory := d\<rparr>) = given_by W c"
  "given_by W (c\<lparr>spawned_timers := ts\<rparr>) = given_by W c"
  by (simp_all add: given_by_def fun_eq_iff)

definition good :: "spoken \<Rightarrow> (u32 \<rightharpoonup> nat) \<Rightarrow> core \<Rightarrow> bool" where
  "good S W c \<longleftrightarrow> core_just S (given_by W c) c \<and> protocol_server_senders c \<subseteq>\<^sub>m W \<and> dir_inv (directory c)"

definition honest :: "spoken \<Rightarrow> (u32 \<rightharpoonup> nat) \<Rightarrow> core \<Rightarrow> core \<Rightarrow> bool" where
  "honest S W c c' \<longleftrightarrow> good S W c' \<and> adds (justified S (given_by W c')) c c'"

lemma goodD:
  assumes "good S W c"
  shows "core_just S (given_by W c) c" "protocol_server_senders c a = Some h \<Longrightarrow> W a = Some h"
    "dir_inv (directory c)"
  using assms by (auto simp: good_def intro: map_leD)

lemma adds_given: "adds J c c' \<Longrightarrow> given_by W c a m \<Longrightarrow> given_by W c' a m"
  unfolding given_by_def using addsD(2) [of J c c'] by (metis Un_iff set_append)

lemma adds_mono:
  assumes "adds J c c'" and j: "\<And>a p. J a p \<Longrightarrow> J' a p"
  shows "adds J' c c'"
  unfolding adds_def
proof (intro conjI allI impI)
  show "protocol_server_senders c a = Some h" if "protocol_server_senders c' a = Some h" for a h
    using addsD(1) [OF assms(1) that] .
  fix h
  obtain ns where "buffer (chans c' h) = buffer (chans c h) @ ns"
    "\<forall>m \<in> set ns. \<exists>a. protocol_server_senders c a = Some h \<and> J a (content m)"
    using addsD(2) [OF assms(1)] by blast
  then show "\<exists>ns. buffer (chans c' h) = buffer (chans c h) @ ns \<and>
      (\<forall>m \<in> set ns. \<exists>a. protocol_server_senders c a = Some h \<and> J' a (content m))"
    using j by (intro exI [of _ ns]) blast
qed

lemma justified_given:
  assumes "adds J c c'" and "justified S (given_by W c) a p"
  shows "justified S (given_by W c') a p"
  using assms(2) by (rule justified_mono) (auto intro: adds_given [OF assms(1)])

lemma adds_senders: "adds J c c' \<Longrightarrow> protocol_server_senders c \<subseteq>\<^sub>m W \<Longrightarrow> protocol_server_senders c' \<subseteq>\<^sub>m W"
  using addsD(1) [of J c c'] unfolding map_le_def dom_def by fastforce

lemma honest_refl [simp]: "honest S W c c \<longleftrightarrow> good S W c"
  by (simp add: honest_def)

lemma honest_trans:
  assumes "honest S W a b" and "honest S W b c"
  shows "honest S W a c"
proof -
  have bc: "adds (justified S (given_by W c)) b c" and c: "good S W c"
    using assms(2) unfolding honest_def by blast+
  have "adds (justified S (given_by W b)) a b" using assms(1) unfolding honest_def by blast
  then have "adds (justified S (given_by W c)) a b"
    by (rule adds_mono) (rule justified_given [OF bc])
  then show ?thesis using adds_trans [OF _ bc] c unfolding honest_def by blast
qed

lemma honestI:
  \<comment> \<open>tables that lose entries at most, and justified messages\<close>
  assumes c: "good S W c" and a: "adds (justified S (given_by W c)) c c'" and d: "dir_inv (directory c')"
    and "\<And>u. subs_of (directory c') u \<subseteq> subs_of (directory c) u"
    and "\<And>u cid. owner_of (directory c') u = Some cid \<Longrightarrow> owner_of (directory c) u = Some cid"
    and "pending_responses c' \<subseteq>\<^sub>m pending_responses c"
  shows "honest S W c c'"
proof -
  have "core_just S (given_by W c') c'"
    by (rule core_just_less [OF goodD(1) [OF c] _ adds_given [OF a] assms(4-6)])
  moreover have "protocol_server_senders c' \<subseteq>\<^sub>m W"
    using adds_senders [OF a] c unfolding good_def by blast
  moreover have "adds (justified S (given_by W c')) c c'"
    by (rule adds_mono [OF a justified_given [OF a]])
  ultimately show ?thesis using d unfolding honest_def good_def by blast
qed

lemma deliver_honest:
  assumes "deliver rt cid p c = (r, c')" and "good S W c" and "justified S (given_by W c) cid p"
  shows "honest S W c c'"
proof (rule honestI [OF assms(2) deliver_adds [where J = "justified S (given_by W c)", OF assms(1,3)]])
  note d = goodD(3) [OF assms(2)]
  have "directory c' = directory c \<or> directory c' = fst (drop_client cid (directory c))"
    using assms(1) by (cases rule: deliver_cases [of c cid rt p]) auto
  moreover note drop = tree.drop_frame [OF d, of cid "fst (drop_client cid (directory c))"
      "snd (drop_client cid (directory c))", simplified]
  ultimately show "dir_inv (directory c')" "subs_of (directory c') u \<subseteq> subs_of (directory c) u"
    "owner_of (directory c') u = Some x \<Longrightarrow> owner_of (directory c) u = Some x" for u x
    using d by (auto split: if_splits)
  show "pending_responses c' \<subseteq>\<^sub>m pending_responses c"
    using assms(1) by (cases rule: deliver_cases [of c cid rt p]) (auto intro: map_retain_le)
qed

lemma publish_to_honest:
  "publish_to rt p ids c = returns (r, c') \<Longrightarrow> good S W c \<Longrightarrow>
   \<forall>cid \<in> set ids. cid \<noteq> 0 \<longrightarrow> justified S (given_by W c) cid p \<Longrightarrow> honest S W c c'"
proof (induction ids arbitrary: c)
  case (Cons cid ids)
  obtain q c1 where d: "deliver rt cid p c = (q, c1)" by fastforce
  have "cid \<noteq> 0" using Cons.prems(1) by (auto split: if_splits)
  then have h: "honest S W c c1" using deliver_honest [OF d Cons.prems(2)] Cons.prems(3) by simp
  show ?case
  proof (cases q)
    case (Inl e)
    then show ?thesis using Cons.prems(1) d h \<open>cid \<noteq> 0\<close> by simp
  next
    case (Inr i)
    then have n: "publish_to rt p ids c1 = returns (r, c')" using Cons.prems(1) d \<open>cid \<noteq> 0\<close> by simp
    have a: "adds (justified S (given_by W c1)) c c1" "good S W c1" using h unfolding honest_def by blast+
    have "honest S W c1 c'"
      using Cons.IH [OF n a(2)] Cons.prems(3) justified_given [OF a(1)] by simp
    then show ?thesis by (rule honest_trans [OF h])
  qed
qed simp

lemma request_honest:
  assumes "core_request rt cid i q c = (r, c')" and g: "good S W c" and said: "S cid (Msg i (ClientReq q))"
  shows "honest S W c c'"
proof (cases "get_owner (req_topic q) (directory c)")
  case None
  then show ?thesis using assms(1) g by (simp add: core_request_def)
next
  case (Some a)
  then have "owner_of (directory c) (req_topic q) = Some a" by (simp add: get_owner_eq split: if_splits)
  then have srv: "serves S a (req_topic q)" by (rule core_justD(2) [OF goodD(1) [OF g]])
  obtain z c1 where d: "deliver rt a (ServerReq q) c = (z, c1)" by fastforce
  have h: "honest S W c c1"
    by (rule deliver_honest [OF d g]) (use said srv in auto)
  show ?thesis
  proof (cases z)
    case (Inl e)
    then show ?thesis using assms(1) Some d h by (simp add: core_request_def)
  next
    case (Inr j)
    let ?pr = "\<lparr>pr_request_id = i, pr_responder_id = a, pr_requester_id = cid\<rparr>"
    have c': "c' = c1\<lparr>pending_responses := (pending_responses c1)(j \<mapsto> ?pr),
        spawned_timers := spawned_timers c1 @ [j]\<rparr>"
      using assms(1) Some d Inr by (simp add: core_request_def)
    obtain k where k: "protocol_server_senders c a = Some k" "j = next_msg_id c" "c1 = push k (ServerReq q) c"
      using d Inr by (cases rule: deliver_cases [of c a rt "ServerReq q"]) auto
    have "given_by W c1 a (Msg j (ServerReq q))"
      using goodD(2) [OF g k(1)] k by (simp add: given_by_def)
    then have new: "forwarded S (given_by W c1) cid i a j"
      using said srv unfolding forwarded_def by blast
    have g1: "good S W c1" using h unfolding honest_def by blast
    have "given_by W c' = given_by W c1" by (simp add: c')
    moreover have "core_just S (given_by W c1) c'"
      by (rule core_justI) (use core_justD [OF goodD(1) [OF g1]] new in \<open>auto simp: c' split: if_splits\<close>)
    ultimately show ?thesis using h by (simp add: honest_def good_def) (simp add: c')
  qed
qed

lemma good_fewer_pending:
  "good S W c \<Longrightarrow> m \<subseteq>\<^sub>m pending_responses c \<Longrightarrow> good S W (c\<lparr>pending_responses := m\<rparr>)"
  by (auto simp: good_def core_just_def dest: map_leD)

lemma respond_honest:
  assumes "core_respond rt cid p c = (r, c')" and g: "good S W c"
    and said: "if cid = 0 then rsp_status p = StatusTimeout \<and> data (rsp_payload p) = []
      else \<exists>i. S cid (Msg i (ClientRsp p))"
  shows "honest S W c c'"
proof (cases "\<exists>pr. pending_responses c (rsp_req_id p) = Some pr \<and> (cid = 0 \<or> pr_responder_id pr = cid)")
  case True
  then obtain pr where pr: "pending_responses c (rsp_req_id p) = Some pr" "cid = 0 \<or> pr_responder_id pr = cid"
    by blast
  let ?c = "c\<lparr>pending_responses := (pending_responses c)(rsp_req_id p := None)\<rparr>"
  let ?p = "\<lparr>rsp_req_id = pr_request_id pr, rsp_status = rsp_status p, rsp_payload = rsp_payload p\<rparr>"
  obtain z c1 where d: "deliver rt (pr_requester_id pr) (ServerRsp ?p) ?c = (z, c1)" by fastforce
  have c': "c' = c1" using assms(1) pr d by (auto simp: core_respond_def split: sum.splits if_splits)
  have g': "good S W ?c" by (rule good_fewer_pending [OF g]) (simp add: map_le_def)
  have gv: "given_by W ?c = given_by W c" by simp
  note f = core_justD(3) [OF goodD(1) [OF g] pr(1)]
  have "?p\<lparr>rsp_req_id := rsp_req_id p\<rparr> = p" by (cases p) simp
  then have "rsp_status ?p = StatusTimeout \<and> data (rsp_payload ?p) = [] \<or>
      (\<exists>i. S (pr_responder_id pr) (Msg i (ClientRsp (?p\<lparr>rsp_req_id := rsp_req_id p\<rparr>))))"
    using said pr(2) by (cases "cid = 0") (simp, metis)
  then have "justified S (given_by W ?c) (pr_requester_id pr) (ServerRsp ?p)"
    using f unfolding gv justified.simps by auto
  from deliver_honest [OF d g' this] show ?thesis by (simp add: honest_def c')
qed (use assms(1) g in \<open>auto simp: core_respond_def split: option.splits if_splits\<close>)

lemma publish_honest:
  assumes "core_publish rt p c = returns (r, c')" and g: "good S W c" and said: "S cid (Msg i (ClientPub p))"
    and ord: "hash_iteration (hash_order rt)"
  shows "honest S W c c'"
proof -
  let ?M = "matching (directory c) (pub_topic p)"
  obtain z where z: "publish_to rt (ServerPub p) (hash_order rt ?M) c = returns (z, c')"
    using assms(1) by (auto simp: core_publish_def Let_def bus_simps get_subscribers_eq)
  have "\<forall>a \<in> set (hash_order rt ?M). a \<noteq> 0 \<longrightarrow> justified S (given_by W c) a (ServerPub p)"
    using hash_iteration.set_ord [OF ord finite_matching [OF goodD(3) [OF g]]] said
      matching_eq [OF goodD(3) [OF g]] core_justD(1) [OF goodD(1) [OF g]] by fastforce
  then show ?thesis by (rule publish_to_honest [OF z g])
qed

lemma directory_honest:
  \<comment> \<open>operations on the directory alone\<close>
  assumes g: "good S W c" and d: "dir_inv d"
    and "\<And>u a. a \<in> subs_of d u \<Longrightarrow> a \<in> subs_of (directory c) u \<or> subscribes S a u"
    and "\<And>u a. owner_of d u = Some a \<Longrightarrow> owner_of (directory c) u = Some a \<or> serves S a u"
  shows "honest S W c (c\<lparr>directory := d\<rparr>)"
proof -
  have "core_just S (given_by W c) (c\<lparr>directory := d\<rparr>)"
    by (rule core_justI) (use core_justD [OF goodD(1) [OF g]] assms(3,4) in fastforce)+
  then show ?thesis using g d by (simp add: honest_def good_def)
qed

lemma handled_honest:
  assumes "handled rt cid m c = returns (r, c')" and g: "good S W c" and wf: "wf_client_msg m"
    and said: "S cid m" and cid: "cid \<noteq> 0" and ord: "hash_iteration (hash_order rt)"
  shows "honest S W c c'"
proof (cases m)
  case (Msg i cnt)
  note d = goodD(3) [OF g]
  show ?thesis
  proof (cases cnt)
    case (ClientSub u)
    obtain t where t: "u = SubMsg t" by (cases u)
    obtain d' where d': "subscribe cid t (directory c) = returns d'" "c' = c\<lparr>directory := d'\<rparr>"
      using assms(1) Msg ClientSub t by (auto simp: handled_def dispatch_def core_subscribe_def bus_simps)
    note f = tree.sub_frame [OF d _ d'(1)]
    have w: "wf_topic t" using wf Msg ClientSub t by (simp add: wf_client_msg_def)
    have "subscribes S cid t" using said Msg ClientSub t unfolding subscribes_def by blast
    then show ?thesis unfolding d'(2)
      by (intro directory_honest [OF g f(1) [OF w]]) (auto simp: f(3,4) [OF w] split: if_splits)
  next
    case (ClientSrv u)
    obtain t where t: "u = SrvMsg t" by (cases u)
    obtain z d' where d': "claim cid t (directory c) = returns (z, d')" "c' = c\<lparr>directory := d'\<rparr>"
      using assms(1) Msg ClientSrv t by (auto simp: handled_def dispatch_def core_serve_def bus_simps)
    note f = tree.clm_frame [OF d _ d'(1)]
    have w: "wf_topic t" using wf Msg ClientSrv t by (simp add: wf_client_msg_def)
    have "serves S cid t" using said Msg ClientSrv t unfolding serves_def by blast
    then show ?thesis unfolding d'(2)
      by (intro directory_honest [OF g f(1) [OF w]]) (auto simp: f(3,4) [OF w] split: if_splits)
  next
    case (ClientUnsub u)
    obtain z d' where d': "unsubscribe cid (unsub_topic u) (directory c) = (z, d')" "c' = c\<lparr>directory := d'\<rparr>"
      using assms(1) Msg ClientUnsub
      by (auto simp: handled_def dispatch_def core_unsubscribe_def bus_simps split: prod.splits)
    note f = tree.unsub_frame [OF d d'(1)]
    show ?thesis unfolding d'(2)
      by (intro directory_honest [OF g f(1)]) (auto simp: f(4,5) split: if_splits)
  next
    case (ClientUnsrv u)
    obtain z d' where d': "unclaim cid (unsrv_topic u) (directory c) = (z, d')" "c' = c\<lparr>directory := d'\<rparr>"
      using assms(1) Msg ClientUnsrv
      by (auto simp: handled_def dispatch_def core_unserve_def bus_simps split: prod.splits)
    note f = tree.uncl_frame [OF d d'(1)]
    have "owner_of d' t = Some a \<Longrightarrow> owner_of (directory c) t = Some a" for t a
      using f(4) [of t] by auto
    then show ?thesis unfolding d'(2)
      by (intro directory_honest [OF g f(1)]) (auto simp: f(3))
  next
    case (ClientReq q)
    obtain z where "core_request rt cid i q c = (z, c')"
      using assms(1) Msg ClientReq by (auto simp: handled_def dispatch_def bus_simps split: prod.splits)
    then show ?thesis using request_honest [OF _ g] said Msg ClientReq by blast
  next
    case (ClientRsp p)
    obtain z where z: "core_respond rt cid p c = (z, c')"
      using assms(1) Msg ClientRsp by (auto simp: handled_def dispatch_def bus_simps split: prod.splits)
    show ?thesis by (rule respond_honest [OF z g]) (use said cid Msg ClientRsp in auto)
  next
    case (ClientPub p)
    obtain z where z: "core_publish rt p c = returns (z, c')"
      using assms(1) Msg ClientPub by (auto simp: handled_def bus_simps)
    then show ?thesis using publish_honest [OF z g _ ord] said Msg ClientPub by blast
  qed (use assms(1) g Msg in \<open>auto simp: handled_def dispatch_def bus_simps\<close>)
qed

lemma handled_counts:
  "handled rt cid m c = returns (Inr (Some n), c') \<Longrightarrow> \<exists>p. content m = ClientPub p"
  by (cases "content m") (auto simp: handled_def bus_simps case_sum_eq_iff)

theorem process_task_honest:
  assumes run: "process_task rt t c = returns (r, c')" and g: "good S W c" and n: "\<forall>n. t \<noteq> Register n"
    and t: "\<And>cid m. t = Message cid m \<Longrightarrow> S cid m \<and> cid \<noteq> 0 \<and> wf_client_msg m"
    and ord: "hash_iteration (hash_order rt)"
  shows "honest S W c c'"
proof (cases t)
  case (Message cid m)
  note m = t [OF Message]
  obtain q c1 where h: "handled rt cid m c = returns (q, c1)"
    and c': "c' = snd (deliver rt cid (ServerAck (ack_for (mid m) q)) c1)"
    using run Message by (auto simp: process_task_def process_msg_eq split: option.splits)
  have h1: "honest S W c c1" using handled_honest [OF h g] m ord by blast
  have ack: "justified S (given_by W c1) cid (ServerAck (ack_for (mid m) q))"
  proof -
    have "S cid (Msg (ack_msg_id (ack_for (mid m) q)) (content m))"
      using m by (cases m) (simp add: ack_for_def split: sum.split)
    moreover have "\<exists>p. content m = ClientPub p" if k: "num_recipients (ack_for (mid m) q) \<noteq> None"
    proof -
      obtain n where "q = Inr (Some n)" using k by (auto simp: ack_for_def split: sum.splits)
      then show ?thesis using handled_counts h by blast
    qed
    ultimately show ?thesis unfolding justified.simps by blast
  qed
  have g1: "good S W c1" using h1 unfolding honest_def by blast
  have "honest S W c1 c'"
    by (rule deliver_honest [OF _ g1 ack, of rt "fst (deliver rt cid (ServerAck (ack_for (mid m) q)) c1)"])
       (simp add: c')
  then show ?thesis by (rule honest_trans [OF h1])
next
  case (Deregister cid)
  then have c': "c' = snd (deregister_client cid c)"
    using run by (simp add: process_task_def prod.case_eq_if)
  note d = goodD(3) [OF g]
  note drop = tree.drop_frame [OF d, of cid "fst (drop_client cid (directory c))"
      "snd (drop_client cid (directory c))", simplified]
  show ?thesis unfolding c'
    by (rule honestI [OF g]) (use drop in \<open>auto simp: adds_def map_retain_le split: if_splits\<close>)
next
  case (RequestTimeout i)
  obtain q where q: "core_respond rt 0 \<lparr>rsp_req_id = i, rsp_status = StatusTimeout,
      rsp_payload = payload_from_bytes (gzip_encode rt) []\<rparr> c = (q, c')"
    using run RequestTimeout by (auto simp: process_task_def split: prod.splits sum.splits)
  show ?thesis by (rule respond_honest [OF q g])
    (simp add: payload_from_bytes_def PAYLOAD_COMPRESSION_THRESHOLD_BYTES_def)
qed (use n in simp)

end
