(* ===== verification/Bus_Provenance.thy ===== *)
theory Bus_Provenance
  imports Bus_Harmless Server_Provenance
begin

text \<open>
  Where messages come from, in the whole bus: whatever the core puts into a client's
  channel is justified by what clients have sent on their connections, and so is every
  entry of its tables and of its queue.
\<close>

section \<open>What clients have said and been given\<close>

definition said :: "bus \<Rightarrow> spoken" where
  \<comment> \<open>the connection of client \<open>cid\<close> has sent \<open>m\<close>\<close>
  "said b cid m \<longleftrightarrow>
     (\<exists>n e. home b cid = Some n \<and> bus_endpoints b n = Some e \<and> m \<in> set (sent (ep_client e)))"

definition channel_of :: "bus \<Rightarrow> u32 \<rightharpoonup> nat" where
  "channel_of b cid = map_option ss_chan (bus_sessions b cid)"

definition got :: "bus \<Rightarrow> given" where
  \<comment> \<open>the core has put \<open>m\<close> into the channel of client \<open>cid\<close>\<close>
  "got b = given_by (channel_of b) (bus_core b)"

lemma got_iff:
  "got b cid m \<longleftrightarrow> (\<exists>s. bus_sessions b cid = Some s \<and> m \<in> set (buffer (chans (bus_core b) (ss_chan s))))"
  by (auto simp: got_def given_by_def channel_of_def)

definition bus_just :: "bus \<Rightarrow> bool" where
  "bus_just b \<longleftrightarrow> core_just (said b) (got b) (bus_core b) \<and>
     (\<forall>cid m. Message cid m \<in> set (bus_tasks b) \<longrightarrow> said b cid m) \<and>
     (\<forall>cid m. got b cid m \<longrightarrow> justified (said b) (got b) cid (content m))"

lemma bus_justD:
  assumes "bus_just b"
  shows "core_just (said b) (got b) (bus_core b)" "Message cid m \<in> set (bus_tasks b) \<Longrightarrow> said b cid m"
    "got b cid k \<Longrightarrow> justified (said b) (got b) cid (content k)"
  using assms unfolding bus_just_def by blast+

lemma said_mono:
  assumes "\<And>cid n. home b cid = Some n \<Longrightarrow> home b' cid = Some n"
    and "\<And>n e. bus_endpoints b n = Some e \<Longrightarrow>
      \<exists>e'. bus_endpoints b' n = Some e' \<and> set (sent (ep_client e)) \<subseteq> set (sent (ep_client e'))"
  shows "said b cid m \<Longrightarrow> said b' cid m"
  using assms unfolding said_def by blast

lemma bus_good: "wired b \<Longrightarrow> bus_just b \<Longrightarrow> good (said b) (channel_of b) (bus_core b)"
  using wiredD(1,5) [of b] bus_justD(1) [of b]
  by (fastforce simp: good_def got_def routes_ok_def channel_of_def map_le_def dom_def)

section \<open>The steps\<close>

lemma bus_just_frame:
  assumes j: "bus_just b" and said: "\<And>cid m. said b cid m \<Longrightarrow> said b' cid m"
    and got: "\<And>cid m. got b' cid m = got b cid m"
    and core: "directory (bus_core b') = directory (bus_core b)"
      "pending_responses (bus_core b') = pending_responses (bus_core b)"
    and tasks: "\<And>cid m. Message cid m \<in> set (bus_tasks b') \<Longrightarrow>
      Message cid m \<in> set (bus_tasks b) \<or> said b' cid m"
  shows "bus_just b'"
proof -
  have "core_just (said b') (got b') (bus_core b')"
    by (rule core_just_less [OF bus_justD(1) [OF j] said]) (simp_all add: got core)
  moreover have "said b' cid m" if "Message cid m \<in> set (bus_tasks b')" for cid m
    using tasks [OF that] bus_justD(2) [OF j] said by blast
  moreover have "justified (said b') (got b') cid (content m)" if g: "got b' cid m" for cid m
  proof -
    have "justified (said b) (got b) cid (content m)" using g bus_justD(3) [OF j] got by blast
    then show ?thesis by (rule justified_mono) (simp_all add: said got)
  qed
  ultimately show ?thesis unfolding bus_just_def by blast
qed

lemma just_connect:
  assumes w: "wired b" and j: "bus_just b" and n: "n = bus_next b"
  shows "bus_just (b\<lparr>bus_endpoints := (bus_endpoints b)(n \<mapsto> new_endpoint c), bus_tasks := bus_tasks b @ [Register n],
     bus_next := n + 1\<rparr>)" (is "bus_just ?b")
proof (rule bus_just_frame [OF j])
  have "bus_endpoints b n = None" using wiredD(6) [OF w, of n] n by simp
  then show "said b cid m \<Longrightarrow> said ?b cid m" for cid m
    by (rule_tac said_mono) auto
qed (auto simp: got_iff)

lemma just_register:
  assumes w: "wired b" and j: "bus_just b" and wi: "within_ids b" and t: "bus_tasks b = Register n # ts"
  shows "bus_just (b\<lparr>bus_core := snd (register_client n (bus_core b)), bus_outcome := out, bus_tasks := ts,
     bus_sessions := open_session (Register n) now b\<rparr>)" (is "bus_just ?b")
proof (rule bus_just_frame [OF j])
  let ?cid = "next_client_id (bus_core b)"
  note r = register_frame [of n "bus_core b"]
  have new: "bus_sessions b ?cid = None" by (rule fresh_id [OF w wi t])
  have ss: "bus_sessions ?b = (bus_sessions b)(?cid \<mapsto> opened n now (bus_core b))" by (simp add: opened_def)
  show "said b cid m \<Longrightarrow> said ?b cid m" for cid m
    by (rule_tac said_mono) (auto simp: home_def new split: if_splits)
  have "buffer (chans (bus_core b) (next_chan (bus_core b))) = []"
    using wiredD(1) [OF w] by (simp add: core_inv_def)
  then have buf: "buffer (chans (bus_core ?b) h) = buffer (chans (bus_core b) h)"
    "buffer (chans (bus_core ?b) (next_chan (bus_core b))) = []" for h
    using r(5) by simp_all
  show "got ?b cid m = got b cid m" for cid m
    unfolding got_iff ss buf(1) using new buf(2) [unfolded buf(1)] by (cases "cid = ?cid") simp_all
  show "directory (bus_core ?b) = directory (bus_core b)"
    by (simp add: register_client_def drop_sender_def Let_def split: option.split)
qed (use t register_frame [of n "bus_core b"] in simp_all)

lemma just_task:
  assumes w: "wired b" and j: "bus_just b" and t: "bus_tasks b = t # ts" "\<forall>n. t \<noteq> Register n"
    and run: "core_run rt [Task t] (bus_core b) = (out, c)" and ord: "hash_iteration (hash_order rt)"
  shows "bus_just (b\<lparr>bus_core := c, bus_outcome := out, bus_tasks := ts\<rparr>)" (is "bus_just ?b")
proof -
  note g = bus_good [OF w j]
  have "honest (said b) (channel_of b) (bus_core b) c"
    using core_run_one [OF run]
  proof (elim disjE conjE exE)
    fix r assume p: "process_task rt t (bus_core b) = returns (r, c)"
    have "said b cid m \<and> cid \<noteq> 0 \<and> wf_client_msg m" if m: "t = Message cid m" for cid m
      using bus_justD(2) [OF j, of cid m] queued_task [OF w, of t] session_id_positive [OF w] t(1) m
      by (cases "cid = 0") auto
    then show ?thesis using process_task_honest [OF p g t(2) _ ord] by blast
  qed (use g in simp)
  then have h: "good (said b) (channel_of b) c" "adds (justified (said b) (given_by (channel_of b) c)) (bus_core b) c"
    unfolding honest_def by blast+
  have "channel_of ?b = channel_of b" by (simp add: channel_of_def fun_eq_iff)
  then have "got ?b = given_by (channel_of b) c" by (simp add: got_def)
  moreover have "said ?b = said b" by (simp add: said_def fun_eq_iff)
  ultimately have same: "said ?b = said b" "got ?b = given_by (channel_of b) c" by blast+
  have "justified (said b) (got ?b) cid (content m)" if "got ?b cid m" for cid m
  proof -
    obtain s where s: "bus_sessions b cid = Some s" "m \<in> set (buffer (chans c (ss_chan s)))"
      using \<open>got ?b cid m\<close> by (auto simp: got_iff)
    obtain ns where ns: "buffer (chans c (ss_chan s)) = buffer (chans (bus_core b) (ss_chan s)) @ ns"
      "\<forall>m \<in> set ns. \<exists>a. protocol_server_senders (bus_core b) a = Some (ss_chan s) \<and>
        justified (said b) (given_by (channel_of b) c) a (content m)"
      using addsD(2) [OF h(2)] by blast
    show ?thesis
    proof (cases "m \<in> set ns")
      case True
      then obtain a where a: "protocol_server_senders (bus_core b) a = Some (ss_chan s)"
        "justified (said b) (got ?b) a (content m)"
        using ns(2) same(2) by auto
      obtain u where "bus_sessions b a = Some u" "ss_chan u = ss_chan s"
        using wiredD(5) [OF w] a(1) unfolding routes_ok_def by blast
      then have "a = cid" using session_unique(1) [OF w _ s(1)] by blast
      then show ?thesis using a(2) by simp
    next
      case False
      then have "got b cid m" using s ns(1) by (auto simp: got_iff)
      then have "justified (said b) (got b) cid (content m)" by (rule bus_justD(3) [OF j])
      then show ?thesis unfolding same(2) unfolding got_def by (rule justified_given [OF h(2)])
    qed
  qed
  moreover have "core_just (said ?b) (got ?b) (bus_core ?b)" using goodD(1) [OF h(1)] same by simp
  moreover have "said ?b cid m" if "Message cid m \<in> set (bus_tasks ?b)" for cid m
    using bus_justD(2) [OF j] that t(1) same(1) by simp
  ultimately show ?thesis using same(1) unfolding bus_just_def by simp
qed

lemma just_stub:
  assumes w: "wired b" and j: "bus_just b" and s: "bus_sessions b cid = Some s" and off: "stub_offered b s ev"
  shows "bus_just (after_stub cid s ev b)" (is "bus_just ?b")
proof (rule bus_just_frame [OF j])
  obtain r stub ts ms p where "stub_serve [ev] (ss_stub s) = (r, stub)"
    and p: "bus_endpoints b (ss_transport s) = Some p"
    and b': "?b = b\<lparr>bus_sessions := (bus_sessions b)(cid \<mapsto>
          s\<lparr>ss_stub := stub, ss_serving := (r = None), ss_taken := ss_taken s + stub_takes ev\<rparr>),
        bus_endpoints := (bus_endpoints b)(ss_transport s \<mapsto> p\<lparr>ep_read := ep_read p + stub_reads ev\<rparr>),
        bus_tasks := bus_tasks b @ ts,
        bus_core := (if r = None then bus_core b else close_chan (ss_chan s) (bus_core b))\<rparr>"
    and "cs_id stub = cid" "cs_sent stub = cs_sent (ss_stub s) @ ms"
    and ts: "ts = [] \<or> ts = [Deregister cid] \<or> (\<exists>m. ev = FromTransport (Some (Inr m)) \<and>
      m \<in> set (sent (ep_client p)) \<and> ep_read p < length (sent (ep_client p)) \<and>
      m = sent (ep_client p) ! ep_read p \<and> ts = [Message cid m])"
    by (rule after_stub_parts [OF w s off])
  note hm = same_sessions_home [OF after_stub_same [OF w s off]]
  have ends: "bus_endpoints b n = Some e \<Longrightarrow>
      \<exists>e'. bus_endpoints ?b n = Some e' \<and> set (sent (ep_client e)) \<subseteq> set (sent (ep_client e'))" for n e
    using p by (cases "n = ss_transport s") (simp_all add: b')
  show mono: "said b c m \<Longrightarrow> said ?b c m" for c m
    using said_mono [of b ?b c m] ends hm by simp
  have "said b cid m" if "m \<in> set (sent (ep_client p))" for m
    using that p s unfolding said_def home_def by auto
  then show "Message c m \<in> set (bus_tasks b) \<or> said ?b c m" if "Message c m \<in> set (bus_tasks ?b)" for c m
    using that ts mono by (auto simp: b')
  have "directory (close_chan h c) = directory c" for h c by (simp add: close_chan_def)
  then show "directory (bus_core ?b) = directory (bus_core b)"
    "pending_responses (bus_core ?b) = pending_responses (bus_core b)"
    by (simp_all add: b')
  show "got ?b c m = got b c m" for c m
    using s by (cases "c = cid") (auto simp: got_iff b')
qed

lemma just_endpoint:
  assumes j: "bus_just b" and n: "bus_endpoints b n = Some e" and on: "sends_on (ep_client e) (ep_client e')"
  shows "bus_just (b\<lparr>bus_endpoints := (bus_endpoints b)(n \<mapsto> e')\<rparr>)" (is "bus_just ?b")
proof (rule bus_just_frame [OF j])
  have "bus_endpoints b k = Some f \<Longrightarrow>
      \<exists>f'. bus_endpoints ?b k = Some f' \<and> set (sent (ep_client f)) \<subseteq> set (sent (ep_client f'))" for k f
    using on n by (cases "k = n") (auto simp: sends_on_def)
  then show "said b cid m \<Longrightarrow> said ?b cid m" for cid m
    using said_mono [of b ?b cid m] by simp
qed (auto simp: got_iff)

lemma bus_step_just:
  assumes "bus_step rt ord allowed b b'" and inv: "bus_inv b" and j: "bus_just b"
    and ord: "hash_iteration (hash_order rt)"
  shows "bus_just b'"
proof -
  have w: "wired b" and wi: "within_ids b" using inv by (simp_all add: bus_inv_def)
  note same = bus_just_frame [OF j]
  show ?thesis using assms(1)
  proof cases
    case (Connect n acks rsps pubs reqs)
    then show ?thesis using just_connect [OF w j] by blast
  next
    case (CoreTask u ts out c now)
    show ?thesis
    proof (cases "\<exists>n. u = Register n")
      case True
      then obtain n where n: "u = Register n" by blast
      have "c = snd (register_client n (bus_core b))" using core_register_moves(1) CoreTask(4) unfolding n .
      then show ?thesis using just_register [OF w j wi] CoreTask(1,3) n by simp
    next
      case False
      then have n: "\<forall>n. u \<noteq> Register n" by simp
      have "b' = b\<lparr>bus_core := c, bus_outcome := out, bus_tasks := ts\<rparr>"
        using CoreTask(1) open_session_none [OF n, of now b] by (cases b) simp
      then show ?thesis using just_task [OF w j CoreTask(3) n CoreTask(4) ord] by simp
    qed
  next
    case (CoreStops out c)
    then show ?thesis by (intro same) (auto simp: said_def got_iff)
  next
    case (Timer k)
    then show ?thesis by (intro same) (auto simp: said_def got_iff)
  next
    case (Stub cid s e)
    then show ?thesis using just_stub [OF w j] by blast
  next
    case (Client n e ev)
    obtain out c where s: "client_step ord ev (ep_client e) = (out, c)" by fastforce
    then have "b' = b\<lparr>bus_endpoints := (bus_endpoints b)(n \<mapsto> stepped e ev out c)\<rparr>"
      using Client(1) by (simp add: after_client_def stepped_def)
    then show ?thesis using just_endpoint [OF j Client(2), of "stepped e ev out c"] client_step_on [OF s] by simp
  next
    case (ClientSinkBreaks n e err)
    then show ?thesis
      using just_endpoint [OF j, of n e "e\<lparr>ep_client := (ep_client e)\<lparr>sink_error := Some err\<rparr>\<rparr>"]
      by (simp add: sends_on_def)
  next
    case (CallerDrops n e r)
    then show ?thesis
      using just_endpoint [OF j, of n e "e\<lparr>ep_client := drop_receiver r (ep_client e)\<rparr>"]
      by (simp add: sends_on_def)
  qed
qed

lemma bus_just_new:
  assumes "regex_engine rx" and "core_new rx = returns c"
  shows "bus_just (bus_new c)"
proof -
  obtain d where d: "core_new rx = returns (empty_core\<lparr>directory := d\<rparr>)"
    "subs_of d = (\<lambda>u. if u = kill_topic then {0} else {})" "owner_of d = (\<lambda>u. None)"
    by (rule core_new_spec [OF assms(1)]) (rule that)
  then have "core_just S G c" for S G using assms(2) by (auto simp: core_just_def empty_core_def)
  then show ?thesis by (simp add: bus_just_def bus_new_def got_iff)
qed

lemma bus_reachable_just:
  assumes "regex_engine rx" and "core_new rx = returns c" and "hash_iteration ord"
    and "hash_iteration (hash_order rt)" and "bus_reachable rt ord allowed c b"
  shows "bus_just b"
  by (rule bus_reachable_induct [where P = bus_just, OF assms(1-3,5) bus_just_new [OF assms(1,2)]])
     (rule bus_step_just [OF _ _ _ assms(4)])

end
