(* ===== verification/Bus_Timers.thy ===== *)
theory Bus_Timers
  imports Bus_Invariant
begin

text \<open>
  Request timers: every pending request has a timer that is still to fire or a timeout in
  the server's queue, and a timeout in the queue ends its request before the server has
  processed as many tasks as are queued.
\<close>

section \<open>What one task does to pending requests and timers\<close>

definition timed :: "core \<Rightarrow> core \<Rightarrow> bool" where
  \<comment> \<open>a request becomes pending only with a new timer\<close>
  "timed c c' \<longleftrightarrow> (\<exists>ts. spawned_timers c' = spawned_timers c @ ts \<and>
     (\<forall>j. pending_responses c' j \<noteq> None \<longrightarrow> pending_responses c j \<noteq> None \<or> j \<in> set ts))"

lemma timed_refl [simp]: "timed c c"
  by (simp add: timed_def)

lemma timed_trans:
  assumes "timed a b" and "timed b c"
  shows "timed a c"
proof -
  obtain ts us where "spawned_timers b = spawned_timers a @ ts" "spawned_timers c = spawned_timers b @ us"
    and "\<forall>j. pending_responses b j \<noteq> None \<longrightarrow> pending_responses a j \<noteq> None \<or> j \<in> set ts"
    and "\<forall>j. pending_responses c j \<noteq> None \<longrightarrow> pending_responses b j \<noteq> None \<or> j \<in> set us"
    using assms unfolding timed_def by blast
  then show ?thesis unfolding timed_def by (intro exI [of _ "ts @ us"]) (simp, blast)
qed

lemma timed_same:
  "spawned_timers c' = spawned_timers c \<Longrightarrow>
   (\<And>j. pending_responses c' j \<noteq> None \<Longrightarrow> pending_responses c j \<noteq> None) \<Longrightarrow> timed c c'"
  unfolding timed_def by (intro exI [of _ "[]"]) simp

lemma deliver_timed:
  assumes "deliver rt cid p c = (r, c')"
  shows "timed c c'"
  by (cases rule: deliver_cases [of c cid rt p]; rule timed_same)
     (use assms in \<open>auto simp: map_retain_def split: option.splits\<close>)

lemma publish_to_timed:
  "publish_to rt p ids c = returns (r, c') \<Longrightarrow> timed c c'"
  by (induction ids arbitrary: c)
     (auto intro: timed_trans deliver_timed split: if_splits prod.splits sum.splits)

lemma respond_timed:
  assumes "core_respond rt cid p c = (r, c')"
  shows "timed c c'" and "cid = 0 \<Longrightarrow> pending_responses c' (rsp_req_id p) = None"
proof -
  let ?c = "c\<lparr>pending_responses := (pending_responses c)(rsp_req_id p := None)\<rparr>"
  have fewer: "timed c ?c" by (rule timed_same) (auto split: if_splits)
  have "timed c c' \<and> (cid = 0 \<longrightarrow> pending_responses c' (rsp_req_id p) = None)"
  proof (cases "\<exists>pr. pending_responses c (rsp_req_id p) = Some pr \<and> (cid = 0 \<or> pr_responder_id pr = cid)")
    case True
    then obtain pr where pr: "pending_responses c (rsp_req_id p) = Some pr" "cid = 0 \<or> pr_responder_id pr = cid"
      by blast
    obtain z c1 where d: "deliver rt (pr_requester_id pr) (ServerRsp \<lparr>rsp_req_id = pr_request_id pr,
        rsp_status = rsp_status p, rsp_payload = rsp_payload p\<rparr>) ?c = (z, c1)" by fastforce
    have c': "c' = c1" using assms pr d by (auto simp: core_respond_def split: sum.splits if_splits)
    have "pending_responses c1 (rsp_req_id p) = None"
      by (cases rule: deliver_cases [of ?c "pr_requester_id pr" rt "ServerRsp \<lparr>rsp_req_id = pr_request_id pr,
        rsp_status = rsp_status p, rsp_payload = rsp_payload p\<rparr>"]) (use d in \<open>auto simp: map_retain_def\<close>)
    then show ?thesis using timed_trans [OF fewer deliver_timed [OF d]] c' by simp
  qed (use assms in \<open>auto simp: core_respond_def split: option.splits if_splits\<close>)
  then show "timed c c'" "cid = 0 \<Longrightarrow> pending_responses c' (rsp_req_id p) = None" by blast+
qed

lemma request_timed:
  assumes "core_request rt cid i q c = (r, c')"
  shows "timed c c'"
proof (cases "get_owner (req_topic q) (directory c)")
  case (Some a)
  obtain z c1 where d: "deliver rt a (ServerReq q) c = (z, c1)" by fastforce
  have "timed c1 c'"
    using assms Some d by (auto simp: core_request_def timed_def split: sum.splits)
  then show ?thesis by (rule timed_trans [OF deliver_timed [OF d]])
qed (use assms in \<open>simp add: core_request_def\<close>)

lemma handled_timed:
  assumes "handled rt cid m c = returns (r, c')"
  shows "timed c c'"
proof (cases "content m")
  case (ClientReq q)
  then obtain z where "core_request rt cid (mid m) q c = (z, c')"
    using assms by (auto simp: handled_def dispatch_def bus_simps split: prod.splits)
  then show ?thesis by (rule request_timed)
next
  case (ClientRsp p)
  then obtain z where "core_respond rt cid p c = (z, c')"
    using assms by (auto simp: handled_def dispatch_def bus_simps split: prod.splits)
  then show ?thesis by (rule respond_timed)
next
  case (ClientPub p)
  then show ?thesis using assms
    by (auto simp: handled_def core_publish_def Let_def bus_simps intro: publish_to_timed)
qed (use assms in \<open>auto simp: handled_def dispatch_def bus_simps core_subscribe_def core_unsubscribe_def
      core_serve_def core_unserve_def intro!: timed_same split: prod.splits\<close>)

lemma process_task_timed:
  assumes "process_task rt t c = returns (r, c')"
  shows "timed c c'" and "t = RequestTimeout j \<Longrightarrow> pending_responses c' j = None"
proof -
  have "timed c c' \<and> (t = RequestTimeout j \<longrightarrow> pending_responses c' j = None)"
  proof (cases t)
    case (Message cid m)
    then obtain q c1 where h: "handled rt cid m c = returns (q, c1)"
      and c': "c' = snd (deliver rt cid (ServerAck (ack_for (mid m) q)) c1)"
      using assms by (auto simp: process_task_def process_msg_eq split: option.splits)
    have "timed c1 c'"
      by (rule deliver_timed [of rt cid "ServerAck (ack_for (mid m) q)" c1
          "fst (deliver rt cid (ServerAck (ack_for (mid m) q)) c1)"]) (simp add: c')
    then show ?thesis using timed_trans [OF handled_timed [OF h]] Message by blast
  next
    case (Deregister cid)
    then have "c' = snd (deregister_client cid c)"
      using assms by (simp add: process_task_def prod.case_eq_if)
    then show ?thesis using Deregister by (auto intro!: timed_same simp: map_retain_def split: option.splits)
  next
    case (RequestTimeout i)
    then obtain q p where q: "core_respond rt 0 p c = (q, c')" "rsp_req_id p = i"
      using assms by (auto simp: process_task_def split: prod.splits sum.splits)
    then show ?thesis using respond_timed [OF q(1)] RequestTimeout by auto
  next
    case (Register n)
    then have "c' = snd (register_client n c)"
      using assms by (simp add: process_task_def prod.case_eq_if)
    then show ?thesis using Register
      by (auto intro!: timed_same simp: register_client_def drop_sender_def Let_def split: option.split)
  qed
  then show "timed c c'" "t = RequestTimeout j \<Longrightarrow> pending_responses c' j = None" by blast+
qed

section \<open>Timers of the bus\<close>

definition timer_left :: "bus \<Rightarrow> u32 \<Rightarrow> bool" where
  "timer_left b j \<longleftrightarrow>
     (\<exists>k < length (spawned_timers (bus_core b)). k \<notin> bus_fired b \<and> spawned_timers (bus_core b) ! k = j) \<or>
     RequestTimeout j \<in> set (bus_tasks b)"

definition timers_ok :: "bus \<Rightarrow> bool" where
  "timers_ok b \<longleftrightarrow> (\<forall>k \<in> bus_fired b. k < length (spawned_timers (bus_core b))) \<and>
     (bus_outcome b = Running \<longrightarrow> (\<forall>j. pending_responses (bus_core b) j \<noteq> None \<longrightarrow> timer_left b j))"

lemma timers_task:
  assumes ok: "timers_ok b" and o: "bus_outcome b = Running" and q: "bus_tasks b = t # ts"
    and run: "core_run rt [Task t] (bus_core b) = (out, c)"
    and b': "bus_core b' = c" "bus_outcome b' = out" "bus_tasks b' = ts" "bus_fired b' = bus_fired b"
  shows "timers_ok b'"
proof -
  have p: "c = bus_core b \<or> (\<exists>r. process_task rt t (bus_core b) = returns (r, c))"
    using core_run_one [OF run] by blast
  then have "timed (bus_core b) c" using process_task_timed(1) by auto
  then obtain us where us: "spawned_timers c = spawned_timers (bus_core b) @ us"
    "\<And>j. pending_responses c j \<noteq> None \<Longrightarrow> pending_responses (bus_core b) j \<noteq> None \<or> j \<in> set us"
    unfolding timed_def by blast
  have fired: "k < length (spawned_timers (bus_core b))" if "k \<in> bus_fired b" for k
    using ok that unfolding timers_ok_def by blast
  have "timer_left b' j" if run': "out = Running" and j: "pending_responses c j \<noteq> None" for j
  proof (cases "j \<in> set us")
    case True
    then obtain k where k: "k < length us" "us ! k = j" by (metis in_set_conv_nth)
    let ?k = "length (spawned_timers (bus_core b)) + k"
    have "?k \<notin> bus_fired b" using fired [of ?k] by auto
    then show ?thesis using k unfolding timer_left_def b' us(1) by (intro disjI1 exI [of _ ?k]) (simp add: nth_append)
  next
    case False
    then have "pending_responses (bus_core b) j \<noteq> None" using us(2) j by blast
    then have "timer_left b j" using ok o unfolding timers_ok_def by blast
    moreover have "t \<noteq> RequestTimeout j"
    proof
      assume t: "t = RequestTimeout j"
      have "out \<noteq> Panicked" using run' by simp
      then obtain r where "process_task rt t (bus_core b) = returns (r, c)" using core_run_one [OF run] by blast
      from process_task_timed(2) [OF this t] show False using j by simp
    qed
    ultimately show ?thesis unfolding timer_left_def b' us(1) q by (auto simp: nth_append)
  qed
  then show ?thesis using fired us(1) by (simp add: timers_ok_def b' trans_less_add1)
qed

lemma timers_frame:
  assumes "timers_ok b" and "spawned_timers (bus_core b') = spawned_timers (bus_core b)"
    and "pending_responses (bus_core b') = pending_responses (bus_core b)"
    and "bus_outcome b' = bus_outcome b \<or> bus_outcome b' \<noteq> Running"
    and "bus_fired b' = bus_fired b" and "set (bus_tasks b) \<subseteq> set (bus_tasks b')"
  shows "timers_ok b'"
  using assms unfolding timers_ok_def timer_left_def by auto

lemma bus_step_timers:
  assumes "bus_step rt ord allowed b b'" and ok: "timers_ok b"
  shows "timers_ok b'"
  using assms(1)
proof cases
  case (Timer k)
  have "timer_left b' j" if "timer_left b j" for j
    using that Timer unfolding timer_left_def by auto
  then show ?thesis using ok Timer by (auto simp: timers_ok_def)
next
  case (CoreTask t ts out c now)
  then show ?thesis using timers_task [OF ok CoreTask(2,3,4)] by simp
next
  case (Stub cid s e)
  then show ?thesis
    by (intro timers_frame [OF ok]) (auto simp: after_stub_def close_chan_def split: prod.split)
qed (auto intro!: timers_frame [OF ok] simp: after_client_def split: prod.split)

section \<open>A timeout in the queue\<close>

fun processed :: "bus list \<Rightarrow> nat" where
  \<comment> \<open>how many tasks the core took from its queue along a run\<close>
  "processed (b # b' # bs) =
     (if length (bus_tasks b') < length (bus_tasks b) then 1 else 0) + processed (b' # bs)"
| "processed bs = 0"

lemma timeout_moves_up:
  assumes "bus_step rt ord allowed b b'" and "bus_tasks b = us @ RequestTimeout j # vs"
    and "bus_outcome b' = Running" and "pending_responses (bus_core b') j \<noteq> None"
  shows "if length (bus_tasks b') < length (bus_tasks b)
     then us \<noteq> [] \<and> (\<exists>ws. bus_tasks b' = tl us @ RequestTimeout j # ws)
     else \<exists>ws. bus_tasks b' = us @ RequestTimeout j # ws"
  using assms(1)
proof cases
  case (CoreTask t ts out c now)
  have "us \<noteq> []"
  proof
    assume "us = []"
    then have t: "t = RequestTimeout j" using CoreTask(3) assms(2) by simp
    have "out \<noteq> Panicked" using CoreTask(1) assms(3) by auto
    then obtain r where "process_task rt t (bus_core b) = returns (r, c)" using core_run_one [OF CoreTask(4)] by blast
    from process_task_timed(2) [OF this t] show False using assms(4) CoreTask(1) by simp
  qed
  then show ?thesis using CoreTask(1,3) assms(2) by (cases us) auto
next
  case (Stub cid s e)
  then show ?thesis using assms(2) by (auto simp: after_stub_def split: prod.split)
qed (use assms(2) in \<open>auto simp: after_client_def split: prod.split\<close>)

lemma timeout_processed:
  "successively (bus_move rt ord allowed) (b # bs) \<Longrightarrow> bus_tasks b = us @ RequestTimeout j # vs \<Longrightarrow>
   \<forall>x \<in> set (b # bs). bus_outcome x = Running \<and> pending_responses (bus_core x) j \<noteq> None \<Longrightarrow>
   processed (b # bs) \<le> length us"
proof (induction bs arbitrary: b us vs)
  case (Cons b' bs)
  have step: "bus_step rt ord allowed b b'" and next_run: "successively (bus_move rt ord allowed) (b' # bs)"
    using Cons.prems(1) by (auto simp: bus_move_def)
  have rest: "\<forall>x \<in> set (b' # bs). bus_outcome x = Running \<and> pending_responses (bus_core x) j \<noteq> None"
    using Cons.prems(3) by simp
  note up = timeout_moves_up [OF step Cons.prems(2)]
  show ?case
  proof (cases "length (bus_tasks b') < length (bus_tasks b)")
    case True
    then obtain ws where "us \<noteq> []" "bus_tasks b' = tl us @ RequestTimeout j # ws"
      using up rest by auto
    then show ?thesis using Cons.IH [OF next_run _ rest, of "tl us" ws] True by (cases us) auto
  next
    case False
    then obtain ws where "bus_tasks b' = us @ RequestTimeout j # ws" using up rest by auto
    then show ?thesis using Cons.IH [OF next_run _ rest, of us ws] False by simp
  qed
qed simp

lemma bus_reachable_timers:
  assumes "regex_engine rx" and "core_new rx = returns c" and "hash_iteration ord"
    and "bus_reachable rt ord allowed c b"
  shows "timers_ok b"
proof (rule bus_reachable_induct [where P = timers_ok, OF assms])
  obtain d where "c = empty_core\<lparr>directory := d\<rparr>"
    using core_new_spec [OF assms(1)] assms(2) by (metis option.inject)
  then show "timers_ok (bus_new c)" by (simp add: timers_ok_def bus_new_def empty_core_def)
qed (rule bus_step_timers)

end
