(* ===== verification/Bus_Run_Properties.thy ===== *)
theory Bus_Run_Properties
  imports Bus_Demo Bus_Rest Bus_Provenance Bus_Timers
begin

text \<open>
  Properties of everything that travels through the bus: the order in which it arrives,
  who it comes from, how long the server holds on to a request, and that a bus that is left
  alone comes to rest.
\<close>

section \<open>Order\<close>

text \<open>
  C10: messages keep their order, and none is lost or repeated on the way: what the
  server's queue holds of a client is a stretch, without gaps, of what the client has sent,
  up to the last message read from it; what a stub has sent to its client is the beginning
  of what the core has put into the stub's channel; and the client has read the beginning
  of that.
\<close>

theorem channels_are_fifo:
  assumes "regex_engine rx" and "core_new rx = returns c" and "hash_iteration ord"
    and "bus_reachable rt ord allowed c b" and "bus_sessions b cid = Some s"
    and "bus_endpoints b (ss_transport s) = Some e"
  shows "(bus_outcome b = Running \<longrightarrow> (\<exists>k \<le> ep_read e.
      queue_of (home b) (ss_transport s) (bus_tasks b) = drop k (take (ep_read e) (sent (ep_client e))))) \<and>
    (\<exists>k \<le> ss_taken s. cs_sent (ss_stub s) = take k (buffer (chans (bus_core b) (ss_chan s)))) \<and>
    ep_got e \<le> length (cs_sent (ss_stub s))"
proof (intro conjI impI)
  have f: "fifo_ok b" by (rule bus_reachable_fifo [OF assms(1-4)])
  show "\<exists>k \<le> ep_read e. queue_of (home b) (ss_transport s) (bus_tasks b) =
      drop k (take (ep_read e) (sent (ep_client e)))" if "bus_outcome b = Running"
    using fifo_okD(1) [OF f that assms(6)] unfolding queue_fifo_def .
  show "\<exists>k \<le> ss_taken s. cs_sent (ss_stub s) = take k (buffer (chans (bus_core b) (ss_chan s)))"
    using fifo_okD(3) [OF f assms(5)] unfolding stub_fifo_def by blast
  have "wired b" using bus_reachable_inv [OF assms(1-4)] by (simp add: bus_inv_def)
  then show "ep_got e \<le> length (cs_sent (ss_stub s))"
    using wiredD(7) [OF _ assms(6)] assms(5) unfolding endpoint_ok_def got_ok_def by blast
qed

theorem channels_are_fifo_witness:
  "\<exists>k \<le> 2. queue_of (home demo_bus) 0 (bus_tasks demo_bus) = drop k (take 2
     [Msg 1 (ClientSrv (SrvMsg demo_topic)), Msg 2 (ClientReq demo_request)])"
  using channels_are_fifo [OF demo_start demo_run demo_bus_session, of demo_endpoint]
    demo_bus_endpoint demo_bus_facts by simp

section \<open>Provenance\<close>

text \<open>
  C9: a client receives only what clients have sent for it: a publication someone has
  published on a topic overlapping one it has subscribed to; a request someone has sent on
  a topic it has offered to serve; a response to a request of its own, which is either a
  timeout or what the client that serves the topic has answered to that very request; an
  acknowledgement of a message of its own, with a count of recipients only for a
  publication.
\<close>

theorem clients_receive_only_justified:
  assumes "regex_engine rx" and "core_new rx = returns c" and "hash_iteration ord"
    and "hash_iteration (hash_order rt)" and "bus_reachable rt ord allowed c b"
    and "bus_endpoints b n = Some e" and "client_offered allowed b n e (FromServer (Inr m))"
  shows "\<exists>cid. home b cid = Some n \<and> justified (said b) (got b) cid (content m)"
proof -
  obtain cid s where s: "bus_sessions b cid = Some s" "ss_transport s = n"
    and m: "m \<in> set (cs_sent (ss_stub s))"
    using assms(7) by (auto dest: nth_mem)
  have "stub_fifo b s" by (rule fifo_okD(3) [OF bus_reachable_fifo [OF assms(1-3,5)] s(1)])
  then have "got b cid m" using m s(1) unfolding stub_fifo_def got_iff by (metis in_set_takeD)
  then have "justified (said b) (got b) cid (content m)"
    by (rule bus_justD(3) [OF bus_reachable_just [OF assms(1-5)]])
  then show ?thesis using s unfolding home_Some by blast
qed

theorem clients_receive_only_justified_witness:
  "\<exists>cid. home demo_bus cid = Some 0 \<and>
     justified (said demo_bus) (got demo_bus) cid
       (ServerAck \<lparr>ack_msg_id = 1, ack_err = None, num_recipients = None\<rparr>)"
proof -
  have "client_offered harmless_task demo_bus 0 demo_endpoint (FromServer (Inr
      (Msg 0 (ServerAck \<lparr>ack_msg_id = 1, ack_err = None, num_recipients = None\<rparr>))))"
    using demo_bus_session demo_bus_facts by (auto intro!: exI [of _ 1] exI [of _ demo_session])
  from clients_receive_only_justified [OF demo_start demo_hash demo_run demo_bus_endpoint this]
  show ?thesis by simp
qed

text \<open>
  The server's tables say what clients have told it: a subscription was asked for by
  its client and a service was claimed by its owner; a pending request was sent by its
  requester, and passed on to its responder, which has claimed the topic; and every message
  in the queue was sent by the client it is queued for.
\<close>

theorem server_tables_are_justified:
  assumes "regex_engine rx" and "core_new rx = returns c" and "hash_iteration ord"
    and "hash_iteration (hash_order rt)" and "bus_reachable rt ord allowed c b"
  shows "(\<forall>u cid. cid \<in> subs_of (directory (bus_core b)) u \<longrightarrow> cid = 0 \<or> subscribes (said b) cid u) \<and>
    (\<forall>u cid. owner_of (directory (bus_core b)) u = Some cid \<longrightarrow> serves (said b) cid u) \<and>
    (\<forall>j pr. pending_responses (bus_core b) j = Some pr \<longrightarrow> forwarded (said b) (got b)
       (pr_requester_id pr) (pr_request_id pr) (pr_responder_id pr) j) \<and>
    (\<forall>cid m. Message cid m \<in> set (bus_tasks b) \<longrightarrow> said b cid m)"
proof -
  note j = bus_justD [OF bus_reachable_just [OF assms]]
  show ?thesis using j(2) core_justD [OF j(1)] by blast
qed

theorem server_tables_are_justified_witness:
  "forwarded (said demo_bus) (got demo_bus) 1 2 1 1"
  using server_tables_are_justified [OF demo_start demo_hash demo_run] demo_bus_facts(4) by force

section \<open>Timeouts\<close>

text \<open>
  C13: no request is forgotten: while the server runs, every pending request has a timer
  that has not fired yet, or its timeout is in the server's queue; and from then on, in any
  run in which the request stays pending, the server processes fewer tasks than are queued.
\<close>

theorem requests_never_stay_pending:
  assumes "regex_engine rx" and "core_new rx = returns c" and "hash_iteration ord"
    and "bus_reachable rt ord allowed c b" and "bus_outcome b = Running"
    and "pending_responses (bus_core b) j = Some pr"
  shows "((\<exists>k < length (spawned_timers (bus_core b)).
      k \<notin> bus_fired b \<and> spawned_timers (bus_core b) ! k = j) \<or> RequestTimeout j \<in> set (bus_tasks b)) \<and>
    (RequestTimeout j \<in> set (bus_tasks b) \<longrightarrow>
      (\<forall>bs. successively (bus_move rt ord allowed) (b # bs) \<and>
         (\<forall>x \<in> set (b # bs). bus_outcome x = Running \<and> pending_responses (bus_core x) j \<noteq> None) \<longrightarrow>
       processed (b # bs) < length (bus_tasks b)))"
proof (intro conjI impI allI)
  show "(\<exists>k < length (spawned_timers (bus_core b)).
      k \<notin> bus_fired b \<and> spawned_timers (bus_core b) ! k = j) \<or> RequestTimeout j \<in> set (bus_tasks b)"
    using bus_reachable_timers [OF assms(1-4)] assms(5,6) unfolding timers_ok_def timer_left_def by blast
  fix bs
  assume "RequestTimeout j \<in> set (bus_tasks b)"
  then obtain us vs where q: "bus_tasks b = us @ RequestTimeout j # vs" by (blast dest: split_list)
  assume "successively (bus_move rt ord allowed) (b # bs) \<and>
    (\<forall>x \<in> set (b # bs). bus_outcome x = Running \<and> pending_responses (bus_core x) j \<noteq> None)"
  then have "processed (b # bs) \<le> length us" using timeout_processed [OF _ q] by blast
  then show "processed (b # bs) < length (bus_tasks b)" using q by simp
qed

theorem requests_never_stay_pending_witness:
  "(\<exists>k < length (spawned_timers (bus_core demo_bus)).
      k \<notin> bus_fired demo_bus \<and> spawned_timers (bus_core demo_bus) ! k = 1) \<and>
   (\<exists>b b'. demo_exec (demo_events @ [Calling 0 TaskKeepAlive, Reading 1, Firing 0]) = Some b \<and>
     RequestTimeout 1 \<in> set (bus_tasks b) \<and> bus_move demo_runtime ascending harmless_task b b' \<and>
     processed [b, b'] < length (bus_tasks b))"
proof
  have "bus_tasks demo_bus = []" by code_simp
  then show "\<exists>k < length (spawned_timers (bus_core demo_bus)).
      k \<notin> bus_fired demo_bus \<and> spawned_timers (bus_core demo_bus) ! k = 1"
    using requests_never_stay_pending [OF demo_start demo_run demo_bus_facts(1,4)] by simp
next
  let ?evs = "demo_events @ [Calling 0 TaskKeepAlive, Reading 1, Firing 0]"
  let ?info = "\<lambda>b. (bus_tasks b, bus_outcome b, Option.is_none (pending_responses (bus_core b) 1))"
  have info: "map_option ?info (demo_exec ?evs) =
      Some ([Message 1 (Msg 3 ClientKeepAlive), RequestTimeout 1], Running, False)"
    "map_option ?info (demo_exec (?evs @ [Tasking])) = Some ([RequestTimeout 1], Running, False)"
    by code_simp+
  obtain b b' where b: "demo_exec ?evs = Some b" "demo_exec (?evs @ [Tasking]) = Some b'"
    using info by blast
  have facts: "bus_tasks b = [Message 1 (Msg 3 ClientKeepAlive), RequestTimeout 1]" "bus_outcome b = Running"
    "pending_responses (bus_core b) 1 \<noteq> None" "bus_outcome b' = Running" "pending_responses (bus_core b') 1 \<noteq> None"
    using info unfolding b by (auto simp: Option.is_none_def)
  note move = demo_move [OF b]
  obtain pr where "pending_responses (bus_core b) 1 = Some pr" using facts(3) by blast
  from requests_never_stay_pending [OF demo_start demo_exec_reachable [OF b(1)] facts(2) this]
  have "successively (bus_move demo_runtime ascending harmless_task) [b, b'] \<Longrightarrow>
      (\<forall>x \<in> set [b, b']. bus_outcome x = Running \<and> pending_responses (bus_core x) 1 \<noteq> None) \<Longrightarrow>
      processed [b, b'] < length (bus_tasks b)"
    using facts(1) by (metis list.set_intros(1,2))
  then have "processed [b, b'] < length (bus_tasks b)" using facts move by simp
  then show "\<exists>b b'. demo_exec ?evs = Some b \<and> RequestTimeout 1 \<in> set (bus_tasks b) \<and>
      bus_move demo_runtime ascending harmless_task b b' \<and> processed [b, b'] < length (bus_tasks b)"
    using b(1) move facts(1) by auto
qed

section \<open>Rest\<close>

text \<open>
  C12: a bus that is left alone comes to rest: a run in which messages are only read,
  processed, relayed and received, in any interleaving, ends.
\<close>

theorem undisturbed_bus_comes_to_rest:
  assumes "regex_engine rx" and "core_new rx = returns c" and "hash_iteration ord"
    and "bus_reachable rt ord allowed c (f 0)"
  shows "\<exists>k. \<not> (passes_on rt ord (f k) (f (Suc k)) \<and> within_ids (f (Suc k)))"
proof (rule ccontr)
  assume "\<not> ?thesis"
  then have run: "passes_on rt ord (f k) (f (Suc k))" "within_ids (f (Suc k))" for k by auto
  have inv: "bus_inv (f k)" for k
  proof (induction k)
    case (Suc k)
    have "bus_move rt ord allowed (f k) (f (Suc k))"
      using run passes_on_step unfolding bus_move_def by blast
    then show ?case by (rule bus_move_inv [OF _ assms(3) Suc])
  qed (rule bus_reachable_inv [OF assms])
  have "(f (Suc k), f k) \<in> left_to_do" for k
    using passes_on_work [OF run(1)] inv unfolding bus_inv_def by blast
  moreover have "wf left_to_do" by (simp add: left_to_do_def)
  ultimately show False unfolding wf_iff_no_infinite_down_chain by blast
qed

definition demo_relays :: "nat \<Rightarrow> bus" where
  \<comment> \<open>the session relays on and on\<close>
  "demo_relays k = the (demo_exec (demo_events @ replicate k (Relaying 1)))"

theorem undisturbed_bus_comes_to_rest_witness:
  "\<exists>k. \<not> (passes_on demo_runtime ascending (demo_relays k) (demo_relays (Suc k)) \<and> within_ids (demo_relays (Suc k)))"
  by (rule undisturbed_bus_comes_to_rest [OF demo_start, of demo_runtime harmless_task demo_relays])
     (use demo_run in \<open>simp add: demo_relays_def demo_bus_def\<close>)

end
