(* ===== verification/Bus_Links.thy ===== *)
theory Bus_Links
  imports Bus_Invariant
begin

text \<open>
  The core can reach every session that is still served: the session's channel has its
  receiver, the core holds its sender under the session's id, and nothing in the queue is
  about to remove it. So as long as the whole audience of a publication is served, the
  server delivers it to all of them.
\<close>

definition linked :: "bus \<Rightarrow> bool" where
  "linked b \<longleftrightarrow> (\<forall>cid s. bus_sessions b cid = Some s \<and> ss_serving s \<longrightarrow>
     rx_alive (chans (bus_core b) (ss_chan s)) \<and>
     protocol_server_senders (bus_core b) cid = Some (ss_chan s) \<and>
     Deregister cid \<notin> set (bus_tasks b))"

lemma linkedD:
  assumes "linked b" and "bus_sessions b cid = Some s" and "ss_serving s"
  shows "rx_alive (chans (bus_core b) (ss_chan s))"
    "protocol_server_senders (bus_core b) cid = Some (ss_chan s)"
    "Deregister cid \<notin> set (bus_tasks b)"
  using assms unfolding linked_def by blast+

lemma linkedI:
  assumes "\<And>cid s. bus_sessions b cid = Some s \<Longrightarrow> ss_serving s \<Longrightarrow>
     rx_alive (chans (bus_core b) (ss_chan s)) \<and>
     protocol_server_senders (bus_core b) cid = Some (ss_chan s) \<and>
     Deregister cid \<notin> set (bus_tasks b)"
  shows "linked b"
  using assms unfolding linked_def by blast

section \<open>The steps\<close>

lemma core_task_keeps:
  \<comment> \<open>a client that can be reached stays so, unless the task is its own deregistration\<close>
  assumes "core_run rt [Task t] c = (out, c')" and "\<forall>n. t \<noteq> Register n" and "t \<noteq> Deregister a"
    and "protocol_server_senders c a = Some h" and "rx_alive (chans c h)"
  shows "protocol_server_senders c' a = Some h \<and> rx_alive (chans c' h)"
  using core_run_one [OF assms(1)]
proof (elim disjE conjE exE)
  fix r assume p: "process_task rt t c = returns (r, c')"
  show ?thesis
  proof (cases "\<exists>k. t = Deregister k")
    case True
    then obtain k where k: "t = Deregister k" by blast
    then have "c' = snd (deregister_client k c)"
      using p by (simp add: process_task_def prod.case_eq_if)
    then show ?thesis using assms(3-5) k by simp
  next
    case False
    then have g: "grows (\<lambda>_. True) c c'" using process_task_grows [OF p assms(2)] by blast
    have "reachable_client c a" using assms(4,5) by (simp add: reachable_client_def)
    then show ?thesis using grows_keeps [OF g] g assms(4,5) by (simp add: grows_def)
  qed
qed (use assms in simp)

lemma linked_task:
  assumes l: "linked b" and t: "bus_tasks b = t # ts" "\<forall>n. t \<noteq> Register n"
    and run: "core_run rt [Task t] (bus_core b) = (out, c)"
  shows "linked (b\<lparr>bus_core := c, bus_outcome := out, bus_tasks := ts\<rparr>)"
proof (rule linkedI)
  fix cid s
  assume "bus_sessions (b\<lparr>bus_core := c, bus_outcome := out, bus_tasks := ts\<rparr>) cid = Some s" "ss_serving s"
  then have s: "bus_sessions b cid = Some s" "ss_serving s" by simp_all
  note k = linkedD [OF l s]
  have "t \<noteq> Deregister cid" "Deregister cid \<notin> set ts" using k(3) t(1) by auto
  then show "rx_alive (chans (bus_core (b\<lparr>bus_core := c, bus_outcome := out, bus_tasks := ts\<rparr>)) (ss_chan s)) \<and>
      protocol_server_senders (bus_core (b\<lparr>bus_core := c, bus_outcome := out, bus_tasks := ts\<rparr>)) cid = Some (ss_chan s) \<and>
      Deregister cid \<notin> set (bus_tasks (b\<lparr>bus_core := c, bus_outcome := out, bus_tasks := ts\<rparr>))"
    using core_task_keeps [OF run t(2) _ k(2,1)] by simp
qed

lemma register_links:
  "protocol_server_senders (snd (register_client n c)) =
     (protocol_server_senders c)(next_client_id c \<mapsto> next_chan c)"
  by (simp add: register_client_def drop_sender_def Let_def split: option.split)

lemma linked_register:
  assumes w: "wired b" and l: "linked b" and wi: "within_ids b" and t: "bus_tasks b = Register n # ts"
  shows "linked (b\<lparr>bus_core := snd (register_client n (bus_core b)), bus_outcome := out, bus_tasks := ts,
     bus_sessions := open_session (Register n) now b\<rparr>)" (is "linked ?b")
proof (rule linkedI)
  let ?cid = "next_client_id (bus_core b)"
  fix cid s assume s: "bus_sessions ?b cid = Some s" "ss_serving s"
  have new: "bus_sessions b ?cid = None" by (rule fresh_id [OF w wi t])
  show "rx_alive (chans (bus_core ?b) (ss_chan s)) \<and>
      protocol_server_senders (bus_core ?b) cid = Some (ss_chan s) \<and> Deregister cid \<notin> set (bus_tasks ?b)"
  proof (cases "cid = ?cid")
    case True
    then have "s = opened n now (bus_core b)" using s(1) by (simp add: opened_def)
    moreover have "Deregister ?cid \<notin> set ts"
      using queued_task(2) [OF w, of "Deregister ?cid" ?cid] t new by auto
    ultimately show ?thesis using True by (simp add: register_links)
  next
    case False
    then have s': "bus_sessions b cid = Some s" using s(1) by simp
    note k = linkedD [OF l s' s(2)]
    have "ss_chan s \<noteq> next_chan (bus_core b)" using sessions_okD(3) [OF w s'] by simp
    then show ?thesis using k False t by (simp add: register_links)
  qed
qed

lemma stub_ends_last:
  assumes "stub_serve [e] s = (None, s')"
  shows "Deregister cid \<notin> set (drop (length (cs_tasks s)) (cs_tasks s'))"
  using assms
  by (auto simp: stub_serve_def stub_step_def send_task_def stub_transport_send_def Let_def
      split: stub_event.splits option.splits sum.splits if_splits)

lemma linked_stub:
  assumes w: "wired b" and l: "linked b" and s: "bus_sessions b cid = Some s" and serving: "ss_serving s"
    and off: "stub_offered b s e"
  shows "linked (after_stub cid s e b)" (is "linked ?b")
proof (rule linkedI)
  obtain r stub where r: "stub_serve [e] (ss_stub s) = (r, stub)" by fastforce
  let ?ts = "drop (length (cs_tasks (ss_stub s))) (cs_tasks stub)"
  fix c u assume u: "bus_sessions ?b c = Some u" "ss_serving u"
  have dereg: "Deregister c \<notin> set ?ts" if "c \<noteq> cid"
    using stub_turn(2) [OF r sessions_okD(1) [OF w s]] that by auto
  show "rx_alive (chans (bus_core ?b) (ss_chan u)) \<and>
      protocol_server_senders (bus_core ?b) c = Some (ss_chan u) \<and> Deregister c \<notin> set (bus_tasks ?b)"
  proof (cases "c = cid")
    case True
    then have "ss_chan u = ss_chan s" "r = None" using u by (auto simp: after_stub_def r)
    then show ?thesis
      using True linkedD [OF l s serving] stub_ends_last [of e "ss_stub s" stub cid] r by (simp add: after_stub_def)
  next
    case False
    then have u': "bus_sessions b c = Some u" using u(1) by (simp add: after_stub_def r)
    note k = linkedD [OF l u' u(2)]
    have "ss_chan u \<noteq> ss_chan s" using session_unique(1) [OF w u' s] False by blast
    then show ?thesis using k dereg [OF False] by (simp add: after_stub_def r close_chan_def)
  qed
qed

lemma linked_frame:
  assumes "linked b" and "bus_sessions b' = bus_sessions b" and "bus_core b' = bus_core b"
    and "\<And>cid. Deregister cid \<in> set (bus_tasks b') \<Longrightarrow> Deregister cid \<in> set (bus_tasks b)"
  shows "linked b'"
  using assms unfolding linked_def by auto

lemma bus_step_linked:
  assumes "bus_step rt ord allowed b b'" and w: "wired b" and wi: "within_ids b" and l: "linked b"
  shows "linked b'"
  using assms(1)
proof cases
  case (CoreTask t ts out c now)
  show ?thesis
  proof (cases "\<exists>n. t = Register n")
    case True
    then obtain n where n: "t = Register n" by blast
    have "c = snd (register_client n (bus_core b))" using core_register_moves(1) CoreTask(4) unfolding n .
    then show ?thesis using linked_register [OF w l wi] CoreTask(1,3) n by simp
  next
    case False
    then have n: "\<forall>n. t \<noteq> Register n" by simp
    have "b' = b\<lparr>bus_core := c, bus_outcome := out, bus_tasks := ts\<rparr>"
      using CoreTask(1) open_session_none [OF n, of now b] by (cases b) simp
    then show ?thesis using linked_task [OF l CoreTask(3) n CoreTask(4)] by simp
  qed
next
  case (CoreStops out c)
  then show ?thesis by (intro linked_frame [OF l]) auto
next
  case (Stub cid s e)
  then show ?thesis using linked_stub [OF w l] by blast
qed (auto intro!: linked_frame [OF l] simp: after_client_def split: prod.split)

lemma bus_reachable_linked:
  assumes "regex_engine rx" and "core_new rx = returns c" and "hash_iteration ord"
    and "bus_reachable rt ord allowed c b"
  shows "linked b"
proof (rule bus_reachable_induct [where P = linked, OF assms])
  show "linked (bus_new c)" by (simp add: linked_def bus_new_def)
qed (auto simp: bus_inv_def intro: bus_step_linked)

section \<open>Publishing to a served audience\<close>

lemma publish_to_served:
  assumes w: "wired b" and l: "linked b" and ord: "hash_iteration (hash_order rt)"
    and aud: "\<And>k. k \<in> matching (directory (bus_core b)) (pub_topic p) \<Longrightarrow>
      \<exists>s. bus_sessions b k = Some s \<and> ss_serving s"
    and run: "core_run rt [Task (Message cid (Msg i (ClientPub p)))] (bus_core b) = (out, c)"
    and k: "k \<in> matching (directory (bus_core b)) (pub_topic p)" and s: "bus_sessions b k = Some s"
  shows "out = Running \<and> (\<exists>ns. map content (buffer (chans c (ss_chan s))) =
    map content (buffer (chans (bus_core b) (ss_chan s))) @ ServerPub p # ns \<and> (\<forall>q. ServerPub q \<notin> set ns))"
proof -
  let ?S = "matching (directory (bus_core b)) (pub_topic p)"
  have "\<forall>k \<in> ?S. k \<noteq> 0 \<and> reachable_client (bus_core b) k"
  proof
    fix k assume "k \<in> ?S"
    then obtain s where s: "bus_sessions b k = Some s" "ss_serving s" using aud by blast
    have "k \<noteq> 0"
    proof
      assume "k = 0"
      then show False using s(1) wiredD(2) [OF w] unfolding ids_ok_def by (metis less_irrefl option.discI unsigned_0)
    qed
    then show "k \<noteq> 0 \<and> reachable_client (bus_core b) k"
      using linkedD(1,2) [OF l s] by (simp add: reachable_client_def)
  qed
  from publish_delivers_lemma [OF wiredD(1) [OF w] ord this] obtain c1 where
    c1: "core_publish rt p (bus_core b) = returns (Inr (card ?S), c1)"
    and buf: "\<And>h. map content (buffer (chans c1 h)) = map content (buffer (chans (bus_core b) h)) @
        (if gets (bus_core b) ?S h then [ServerPub p] else [])" by blast
  have g: "gets (bus_core b) ?S (ss_chan s)"
  proof -
    have "ss_serving s" using aud [OF k] s by auto
    then show ?thesis using linkedD(2) [OF l s] k unfolding gets_def by blast
  qed
  have "handled rt cid (Msg i (ClientPub p)) (bus_core b) = returns (Inr (Some (card ?S)), c1)"
    using c1 by (simp add: handled_def)
  then have p: "process_msg rt cid (Msg i (ClientPub p)) (bus_core b) =
      returns (Inr False, snd (deliver rt cid (ServerAck (ack_for i (Inr (Some (card ?S))))) c1))"
    by (simp add: process_msg_eq)
  then have c: "out = Running" "c = snd (deliver rt cid (ServerAck (ack_for i (Inr (Some (card ?S))))) c1)"
    using run by (simp_all add: process_task_def)
  have "grows (\<lambda>x. \<forall>q. x \<noteq> ServerPub q) c1 c"
    unfolding c(2) by (rule deliver_grows [OF prod.collapse [symmetric]]) simp
  then obtain ns where "buffer (chans c (ss_chan s)) = buffer (chans c1 (ss_chan s)) @ ns"
    "\<forall>m \<in> set ns. \<forall>q. content m \<noteq> ServerPub q"
    unfolding grows_def appends_def by blast
  moreover have "\<forall>q. ServerPub q \<notin> set (map content ns)"
    using calculation(2) by (simp add: image_iff) metis
  ultimately show ?thesis using c(1) buf g by (intro conjI exI [of _ "map content ns"]) simp_all
qed

end
