(* ===== verification/Bus_Listening.thy ===== *)
theory Bus_Listening
  imports Bus_Links
begin

text \<open>
  What a client does for a subscription that somebody still listens to: whatever else
  happens, as long as the client runs the callback stays, and each publication the client
  receives that its pattern meets is put into its channel.
\<close>

section \<open>Callbacks stay\<close>

definition keeps :: "u32 set \<Rightarrow> client_core \<Rightarrow> client_core \<Rightarrow> bool" where
  \<comment> \<open>live callbacks stay, but for the given ones; channels are only appended to\<close>
  "keeps N c c' \<longleftrightarrow>
     (\<forall>k h. k \<notin> N \<and> callbacks_pub c k = Some h \<and> rx_alive (pub_chans c h) \<longrightarrow>
        callbacks_pub c' k = Some h \<and>
        (\<forall>u. k \<in> subs_of (subscriptions c) u \<longrightarrow> k \<in> subs_of (subscriptions c') u)) \<and>
     (\<forall>h. rx_alive (pub_chans c' h) = rx_alive (pub_chans c h) \<and>
        (\<exists>ns. buffer (pub_chans c' h) = buffer (pub_chans c h) @ ns))"

lemma keepsD:
  assumes "keeps N c c'" and "callbacks_pub c k = Some h" and "rx_alive (pub_chans c h)" and "k \<notin> N"
  shows "callbacks_pub c' k = Some h" "k \<in> subs_of (subscriptions c) u \<Longrightarrow> k \<in> subs_of (subscriptions c') u"
    "rx_alive (pub_chans c' h)"
  using assms unfolding keeps_def by blast+

lemma keeps_buffer: "keeps N c c' \<Longrightarrow> \<exists>ns. buffer (pub_chans c' h) = buffer (pub_chans c h) @ ns"
  unfolding keeps_def by blast

lemma keeps_mono: "keeps M c c' \<Longrightarrow> M \<subseteq> N \<Longrightarrow> keeps N c c'"
  unfolding keeps_def by blast

lemma keeps_same:
  "callbacks_pub c' = callbacks_pub c \<Longrightarrow> subscriptions c' = subscriptions c \<Longrightarrow>
   pub_chans c' = pub_chans c \<Longrightarrow> keeps N c c'"
  by (simp add: keeps_def)

lemma keeps_trans:
  assumes "keeps N a b" and "keeps N b c"
  shows "keeps N a c"
proof -
  have "rx_alive (pub_chans c h) = rx_alive (pub_chans a h)" for h using assms unfolding keeps_def by blast
  moreover have "\<exists>ns. buffer (pub_chans c h) = buffer (pub_chans a h) @ ns" for h
    using keeps_buffer [OF assms(1), of h] keeps_buffer [OF assms(2), of h] by auto
  moreover have "callbacks_pub c k = Some h \<and>
      (\<forall>u. k \<in> subs_of (subscriptions a) u \<longrightarrow> k \<in> subs_of (subscriptions c) u)"
    if k: "k \<notin> N" "callbacks_pub a k = Some h" "rx_alive (pub_chans a h)" for k h
    using keepsD [OF assms(1) k(2,3,1)] keepsD [OF assms(2) _ _ k(1)] by blast
  ultimately show ?thesis unfolding keeps_def by blast
qed

lemma keeps_appended:
  "keeps N c (c\<lparr>pub_chans := (pub_chans c)(h := (pub_chans c h)\<lparr>buffer := buffer (pub_chans c h) @ [p]\<rparr>)\<rparr>)"
  by (auto simp: keeps_def)

lemma keeps_forgotten:
  assumes "client_inv c" and "drop_client k (subscriptions c) = (d, ts)"
    and "callbacks_pub c k = Some h" and "\<not> rx_alive (pub_chans c h)"
    and "callbacks_pub c' = (callbacks_pub c)(k := None)" and "subscriptions c' = d"
    and "pub_chans c' = pub_chans c"
  shows "keeps N c c'"
  using assms(3-7) client_inv_drop_frame [OF assms(1,2)] by (auto simp: keeps_def)

lemma notify_keeps:
  assumes "notify p ids c = returns (r, c')" and "client_inv c"
  shows "keeps N c c' \<and> (r = Inr () \<longrightarrow> (\<forall>k h. k \<in> set ids \<and> callbacks_pub c k = Some h \<and>
     rx_alive (pub_chans c h) \<longrightarrow> (\<exists>xs ys. buffer (pub_chans c' h) = buffer (pub_chans c h) @ xs @ p # ys)))"
  using assms
proof (induction ids arbitrary: c)
  case (Cons k ids)
  obtain h where h: "callbacks_pub c k = Some h" using Cons.prems by (cases "callbacks_pub c k") auto
  show ?case
  proof (cases "rx_alive (pub_chans c h)")
    case True
    let ?c = "c\<lparr>pub_chans := (pub_chans c)(h := (pub_chans c h)\<lparr>buffer := buffer (pub_chans c h) @ [p]\<rparr>)\<rparr>"
    have "client_inv ?c" using Cons.prems(2) by (auto elim: client_inv_cong)
    then have IH: "keeps N ?c c'" "r = Inr () \<Longrightarrow> k' \<in> set ids \<Longrightarrow> callbacks_pub c k' = Some g \<Longrightarrow>
        rx_alive (pub_chans ?c g) \<Longrightarrow> \<exists>xs ys. buffer (pub_chans c' g) = buffer (pub_chans ?c g) @ xs @ p # ys" for k' g
      using Cons.IH [of ?c] Cons.prems(1) notify_step_live [OF h True] by auto
    have first: "\<exists>xs ys. buffer (pub_chans c' h) = buffer (pub_chans c h) @ xs @ p # ys"
    proof -
      obtain ns where "buffer (pub_chans c' h) = buffer (pub_chans c h) @ p # ns"
        using keeps_buffer [OF IH(1), of h] by auto
      then show ?thesis by (metis append_Nil)
    qed
    have "\<exists>xs ys. buffer (pub_chans c' g) = buffer (pub_chans c g) @ xs @ p # ys"
      if "r = Inr ()" "k' \<in> set (k # ids)" "callbacks_pub c k' = Some g" "rx_alive (pub_chans c g)" for k' g
    proof (cases "g = h")
      case False
      then show ?thesis using IH(2) [of k' g] that h by auto
    qed (use first in simp)
    then show ?thesis using keeps_trans [OF keeps_appended IH(1)] by blast
  next
    case False
    obtain c1 d ts and q :: "unit result" where c1: "notify p (k # ids) c =
        (case q of Inl e \<Rightarrow> returns (Inl e, c1) | Inr _ \<Rightarrow> notify p ids c1)"
      "drop_client k (subscriptions c) = (d, ts)" "client_inv c1" "subscriptions c1 = d"
      "callbacks_pub c1 = (callbacks_pub c)(k := None)" "pub_chans c1 = pub_chans c"
        by (rule notify_step_dead [OF Cons.prems(2) h False, of p ids]) (rule that)
    have kept: "keeps N c c1" by (rule keeps_forgotten [OF Cons.prems(2) c1(2) h False c1(5,4,6)])
    show ?thesis
    proof (cases q)
      case (Inl e)
      then show ?thesis using c1(1) Cons.prems(1) kept by auto
    next
      case (Inr u)
      then have "notify p ids c1 = returns (r, c')" using c1(1) Cons.prems(1) by simp
      from Cons.IH [OF this c1(3)] show ?thesis
        using keeps_trans [OF kept] h False c1(5,6) by (auto split: if_splits)
    qed
  qed
qed (simp add: keeps_same)

lemma before_send_keeps:
  assumes "before_send task c = returns (r, c')" and "client_inv c" and "wf_task task"
  shows "keeps {cl_next_msg_id c + 1} c c'"
proof (cases task)
  case (TaskSub m a h)
  then have "wf_topic (sub_topic m)" using assms(3) by (simp add: wf_task_def)
  then show ?thesis
    using assms(1) TaskSub tree.sub_frame(3) [OF client_inv_dir [OF assms(2)]]
    by (auto simp: before_send_def Let_def bus_simps keeps_def insert_ack_def)
next
  case (TaskSrv m a h)
  then have "wf_topic (srv_topic m)" using assms(3) by (simp add: wf_task_def)
  then show ?thesis
    using assms(1) TaskSrv tree.clm_frame(3) [OF client_inv_dir [OF assms(2)]] before_send_id [OF assms(1)]
    by (auto simp: before_send_srv keeps_def split: option.splits)
next
  case (TaskUnsrv m)
  then show ?thesis
    using assms(1) tree.uncl_frame(3) [OF client_inv_dir [OF assms(2)]]
    by (auto simp: before_send_def Let_def keeps_def split: option.splits sum.splits prod.splits)
qed (use assms(1) in \<open>auto simp: before_send_def Let_def insert_ack_def insert_rsp_def intro!: keeps_same\<close>)

lemma client_send_keeps:
  assumes "client_send task c = returns (r, c')" and "client_inv c" and "wf_task task"
  shows "keeps {cl_next_msg_id c + 1} c c'"
proof -
  obtain q c1 where b: "before_send task c = returns (q, c1)"
    and c': "(r, c') = (case q of Inl e \<Rightarrow> (Inl e, c1) | Inr m \<Rightarrow> transport_send m c1)"
    using assms(1) by (auto simp: client_send_def bus_simps)
  have "callbacks_pub c' = callbacks_pub c1" "subscriptions c' = subscriptions c1" "pub_chans c' = pub_chans c1"
    using c' by (cases q; auto simp: transport_send_def split: option.splits)+
  then show ?thesis using keeps_trans [OF before_send_keeps [OF b assms(2,3)] keeps_same] by simp
qed

section \<open>Hearing a topic\<close>

definition hears :: "client_core \<Rightarrow> u32 \<Rightarrow> nat \<Rightarrow> topic \<Rightarrow> bool" where
  \<comment> \<open>the subscription made by message \<open>k\<close> has channel \<open>h\<close>, a listener and a pattern that
    meets the topic\<close>
  "hears c k h t \<longleftrightarrow> k \<in> mid ` set (sent c) \<and> callbacks_pub c k = Some h \<and> rx_alive (pub_chans c h) \<and>
     (\<exists>u. k \<in> subs_of (subscriptions c) u \<and> topic_overlap u t)"

lemma hears_keeps: "hears c k h t \<Longrightarrow> keeps N c c' \<Longrightarrow> k \<notin> N \<Longrightarrow> sends_on c c' \<Longrightarrow> hears c' k h t"
  using keepsD [of N c c' k h] unfolding hears_def sends_on_def by fastforce

definition sole :: "client_core \<Rightarrow> u32 \<Rightarrow> nat \<Rightarrow> bool" where
  \<comment> \<open>no other subscription shares the channel (\<open>subscribe_bytes_into\<close> takes any sender)\<close>
  "sole c k h \<longleftrightarrow> (\<forall>j. callbacks_pub c j = Some h \<longrightarrow> j = k)"

lemma sole_before:
  assumes "keeps N c c'" and "sole c' k h" and "rx_alive (pub_chans c h)"
    and "dom (callbacks_pub c) \<inter> N = {}"
  shows "sole c k h"
  using keepsD(1) [OF assms(1) _ assms(3)] assms(2,4) unfolding sole_def by blast

lemma copies_sole:
  assumes "sole c k h" and "callbacks_pub c k = Some h" and "rx_alive (pub_chans c h)" and "distinct ids"
  shows "copies c ids h = (if k \<in> set ids then 1 else 0)"
proof -
  have "callbacks_pub c j = Some h \<and> rx_alive (pub_chans c h) \<longleftrightarrow> j = k" for j
    using assms(1-3) unfolding sole_def by blast
  then have "copies c ids h = length (filter (\<lambda>j. j = k) ids)" unfolding copies_def by simp
  moreover have "length (filter (\<lambda>j. j = k) ids) = (if k \<in> set ids then 1 else 0)"
    using assms(4) by (induction ids) auto
  ultimately show ?thesis by simp
qed

lemma notify_buffer:
  assumes "notify p ids c = returns (Inr (), c')" and "client_inv c" and "distinct ids"
    and "rx_alive (pub_chans c h)"
  shows "buffer (pub_chans c' h) = buffer (pub_chans c h) @ replicate (copies c ids h) p"
  using assms
proof (induction ids arbitrary: c)
  case (Cons k ids)
  obtain g where g: "callbacks_pub c k = Some g" using Cons.prems by (cases "callbacks_pub c k") auto
  have k: "k \<notin> set ids" "distinct ids" using Cons.prems(3) by auto
  show ?case
  proof (cases "rx_alive (pub_chans c g)")
    case True
    let ?c = "c\<lparr>pub_chans := (pub_chans c)(g := (pub_chans c g)\<lparr>buffer := buffer (pub_chans c g) @ [p]\<rparr>)\<rparr>"
    have "client_inv ?c" using Cons.prems(2) by (auto elim: client_inv_cong)
    then have "buffer (pub_chans c' h) = buffer (pub_chans ?c h) @ replicate (copies ?c ids h) p"
      using Cons.IH [of ?c] Cons.prems(1,4) notify_step_live [OF g True] k(2) by auto
    moreover have "copies ?c ids h = copies c ids h"
      by (auto simp: copies_def)
    moreover have "copies c (k # ids) h = (if g = h then Suc (copies c ids h) else copies c ids h)"
      using g Cons.prems(4) by (simp add: copies_def)
    ultimately show ?thesis by (simp add: replicate_app_Cons_same)
  next
    case False
    obtain c1 and q :: "unit result" where c1: "notify p (k # ids) c =
        (case q of Inl e \<Rightarrow> returns (Inl e, c1) | Inr _ \<Rightarrow> notify p ids c1)"
      "client_inv c1" "callbacks_pub c1 = (callbacks_pub c)(k := None)" "pub_chans c1 = pub_chans c"
        by (rule notify_step_dead [OF Cons.prems(2) g False, of p ids]) (rule that)
    have "notify p ids c1 = returns (Inr (), c')" using c1(1) Cons.prems(1) by (cases q) simp_all
    then have "buffer (pub_chans c' h) = buffer (pub_chans c h) @ replicate (copies c1 ids h) p"
      using Cons.IH [OF _ c1(2) k(2)] Cons.prems(4) c1(4) by simp
    moreover have "copies c1 ids h = copies c ids h"
    proof -
      have "(callbacks_pub c1 j = Some h \<and> rx_alive (pub_chans c1 h)) =
          (callbacks_pub c j = Some h \<and> rx_alive (pub_chans c h))" if "j \<in> set ids" for j
        using that k(1) unfolding c1(3,4) by (cases "j = k") simp_all
      then show ?thesis unfolding copies_def by (simp cong: filter_cong)
    qed
    moreover have "copies c (k # ids) h = copies c ids h"
      using g False by (auto simp: copies_def)
    ultimately show ?thesis by simp
  qed
qed (simp add: copies_def)

definition pub_in :: "client_event \<Rightarrow> pub_msg option" where
  "pub_in ev = (case ev of FromServer (Inr m) \<Rightarrow> (case content m of ServerPub p \<Rightarrow> Some p | _ \<Rightarrow> None) | _ \<Rightarrow> None)"

lemma after_receive_hears:
  assumes rcv: "after_receive ord m c = returns (Inr (), c')" and inv: "client_inv c" and ord: "hash_iteration ord"
  shows "keeps {} c c'"
    and "hears c k h (pub_topic p) \<Longrightarrow> sole c k h \<Longrightarrow> count_list (buffer (pub_chans c' h)) p =
      count_list (buffer (pub_chans c h)) p + (if content m = ServerPub p then 1 else 0)"
proof -
  have n: "notify q (ord (matching (subscriptions c) (pub_topic q))) c = returns (Inr (), c')"
    if "content m = ServerPub q" for q
    using rcv that by (simp add: after_receive_def get_subscribers_eq)
  show "keeps {} c c'"
  proof (cases "content m")
    case (ServerPub q)
    then show ?thesis using notify_keeps [OF n inv] by blast
  qed (use rcv in \<open>auto simp: after_receive_def intro!: keeps_same split: option.splits\<close>)
  assume k: "hears c k h (pub_topic p)" and one: "sole c k h"
  show "count_list (buffer (pub_chans c' h)) p =
      count_list (buffer (pub_chans c h)) p + (if content m = ServerPub p then 1 else 0)"
  proof (cases "content m")
    case (ServerPub q)
    let ?S = "matching (subscriptions c) (pub_topic q)"
    have fin: "finite ?S" using inv by (auto intro: finite_matching)
    note ids = hash_iteration.set_ord [OF ord fin] hash_iteration.distinct_ord [OF ord fin]
    have h: "callbacks_pub c k = Some h" "rx_alive (pub_chans c h)" using k by (simp_all add: hears_def)
    have "buffer (pub_chans c' h) = buffer (pub_chans c h) @ replicate (if k \<in> ?S then 1 else 0) q"
      using notify_buffer [OF n [OF ServerPub] inv ids(2) h(2)] copies_sole [OF one h ids(2)] ids(1) by simp
    moreover have "k \<in> matching (subscriptions c) (pub_topic p)"
      using k matching_eq [OF client_inv_dir [OF inv]] by (auto simp: hears_def)
    ultimately show ?thesis using ServerPub by auto
  qed (use rcv in \<open>auto simp: after_receive_def split: option.splits\<close>)
qed

lemma client_send_chans:
  assumes "client_send task c = returns (r, c')"
  shows "pub_chans c' = pub_chans c"
proof -
  obtain q c1 where b: "before_send task c = returns (q, c1)"
    and c': "(r, c') = (case q of Inl e \<Rightarrow> (Inl e, c1) | Inr m \<Rightarrow> transport_send m c1)"
    using assms by (auto simp: client_send_def bus_simps)
  have "pub_chans c1 = pub_chans c"
    using b by (cases task) (auto simp: before_send_srv split: option.splits,
      auto simp: before_send_def Let_def insert_ack_def insert_rsp_def bus_simps
        split: option.splits sum.splits prod.splits)
  then show ?thesis using c' by (cases q) (auto simp: transport_send_def split: option.splits)
qed

lemma client_step_hears:
  assumes step: "client_step ord ev c = (ClientRunning, c')" and ok: "client_ok ClientRunning c"
    and ev: "wf_client_event ev" and ord: "hash_iteration ord" and len: "length (sent c) < 2 ^ 32 - 1"
  shows "hears c k h (pub_topic p) \<Longrightarrow> hears c' k h (pub_topic p)"
    and "rx_alive (pub_chans c' h) = rx_alive (pub_chans c h)"
    and "rx_alive (pub_chans c h) \<Longrightarrow> dom (callbacks_pub c) \<subseteq> mid ` set (sent c) \<Longrightarrow> sole c' k h \<Longrightarrow> sole c k h"
    and "hears c k h (pub_topic p) \<Longrightarrow> sole c k h \<Longrightarrow> count_list (buffer (pub_chans c' h)) p =
      count_list (buffer (pub_chans c h)) p + (if pub_in ev = Some p then 1 else 0)"
proof -
  have inv: "client_inv c" and num: "numbered c" using ok by (simp_all add: client_ok_def client_valid_def)
  note on = client_step_on [OF step] and new = new_id_fresh [OF num len]
  have *: "\<exists>N. N \<inter> mid ` set (sent c) = {} \<and> keeps N c c' \<and>
      (hears c k h (pub_topic p) \<and> sole c k h \<longrightarrow> count_list (buffer (pub_chans c' h)) p =
        count_list (buffer (pub_chans c h)) p + (if pub_in ev = Some p then 1 else 0))"
  proof (cases ev)
    case (FromServer q)
    then obtain m where m: "q = Inr m" "after_receive ord m c = returns (Inr (), c')"
      using step by (auto simp: client_step_def split: sum.splits option.splits)
    note r = after_receive_hears [OF m(2) inv ord]
    have "pub_in ev = Some p \<longleftrightarrow> content m = ServerPub p"
      using FromServer m(1) by (auto simp: pub_in_def split: protocol_server.split)
    then show ?thesis using r(1) r(2) [of k h p] by (intro exI [of _ "{}"]) (cases "content m = ServerPub p"; simp)
  next
    case (FromClient t)
    then obtain u where s: "client_send t c = returns (Inr u, c')" and "wf_task t"
      using step ev by (auto simp: client_step_def split: sum.splits option.splits if_splits)
    then show ?thesis using client_send_keeps [OF s inv] client_send_chans [OF s] new FromClient
      by (intro exI [of _ "{cl_next_msg_id c + 1}"]) (auto simp: pub_in_def)
  next
    case KeepAliveTick
    then obtain u where s: "client_send TaskKeepAlive c = returns (Inr u, c')"
      using step by (auto simp: client_step_def split: sum.splits option.splits if_splits)
    moreover have "wf_task TaskKeepAlive" by (simp add: wf_task_def)
    ultimately show ?thesis using client_send_keeps [OF s inv] client_send_chans [OF s] new KeepAliveTick
      by (intro exI [of _ "{cl_next_msg_id c + 1}"]) (auto simp: pub_in_def)
  qed (use step in \<open>auto simp: client_step_def\<close>)
  then obtain N where N: "N \<inter> mid ` set (sent c) = {}" "keeps N c c'" by blast
  show "hears c' k h (pub_topic p)" if "hears c k h (pub_topic p)"
    using hears_keeps [OF that N(2) _ on] N(1) that by (auto simp: hears_def)
  show "rx_alive (pub_chans c' h) = rx_alive (pub_chans c h)" using N(2) unfolding keeps_def by blast
  show "sole c k h" if "rx_alive (pub_chans c h)" "dom (callbacks_pub c) \<subseteq> mid ` set (sent c)" "sole c' k h"
    by (rule sole_before [OF N(2) that(3,1)]) (use that(2) N(1) in blast)
  show "count_list (buffer (pub_chans c' h)) p =
      count_list (buffer (pub_chans c h)) p + (if pub_in ev = Some p then 1 else 0)"
    if "hears c k h (pub_topic p)" "sole c k h"
    using * that by blast
qed

end
