(* ===== verification/Bus_Delivery.thy ===== *)
theory Bus_Delivery
  imports Bus_Listening Bus_Rest
begin

text \<open>
  Delivery from end to end: a publication, once processed by the server, travels through
  the core's channel, the session and the connection into the channels of the
  subscriptions that listen. \<open>delivering\<close> follows one subscription of one client along a
  run: nothing between the core and the subscription is taken back, and as long as the
  client runs and nobody has dropped the subscription's receiver, the subscription stays in
  the client's directory, and its channel has got exactly the copies of the publication that
  the client has received since, if no other subscription was given the same channel. A
  channel is the list of all that was ever sent into it, read or not.
\<close>

definition listening :: "u32 \<Rightarrow> nat \<Rightarrow> endpoint \<Rightarrow> bool" where
  "listening k h e \<longleftrightarrow> ep_outcome e = ClientRunning \<and> rx_alive (pub_chans (ep_client e) h) \<and>
     sole (ep_client e) k h"

definition delivering :: "u32 \<Rightarrow> u32 \<Rightarrow> nat \<Rightarrow> pub_msg \<Rightarrow> bus \<Rightarrow> bus \<Rightarrow> bool" where
  "delivering cid k h p b0 b \<longleftrightarrow> (\<exists>s0 e0 s e.
     bus_sessions b0 cid = Some s0 \<and> bus_endpoints b0 (ss_transport s0) = Some e0 \<and>
     bus_sessions b cid = Some s \<and> ss_transport s = ss_transport s0 \<and> ss_chan s = ss_chan s0 \<and>
     bus_endpoints b (ss_transport s0) = Some e \<and> ep_got e0 \<le> ep_got e \<and>
     (\<exists>ns. buffer (chans (bus_core b) (ss_chan s0)) = buffer (chans (bus_core b0) (ss_chan s0)) @ ns) \<and>
     (listening k h e \<longrightarrow> hears (ep_client e) k h (pub_topic p) \<and>
        count_list (buffer (pub_chans (ep_client e) h)) p =
        count_list (buffer (pub_chans (ep_client e0) h)) p +
        count_list (map content (drop (ep_got e0) (take (ep_got e) (buffer (chans (bus_core b) (ss_chan s0))))))
          (ServerPub p)))"

lemma deliveringI:
  assumes "bus_sessions b0 cid = Some s0" and "bus_endpoints b0 (ss_transport s0) = Some e0"
    and "bus_sessions b cid = Some s" and "ss_transport s = ss_transport s0" and "ss_chan s = ss_chan s0"
    and "bus_endpoints b (ss_transport s0) = Some e" and "ep_got e0 \<le> ep_got e"
    and "buffer (chans (bus_core b) (ss_chan s0)) = buffer (chans (bus_core b0) (ss_chan s0)) @ ns"
    and "listening k h e \<Longrightarrow> hears (ep_client e) k h (pub_topic p) \<and>
        count_list (buffer (pub_chans (ep_client e) h)) p =
        count_list (buffer (pub_chans (ep_client e0) h)) p +
        count_list (map content (drop (ep_got e0) (take (ep_got e) (buffer (chans (bus_core b) (ss_chan s0))))))
          (ServerPub p)"
  shows "delivering cid k h p b0 b"
  using assms unfolding delivering_def by blast

lemma delivering_start:
  assumes "bus_sessions b cid = Some s" and "bus_endpoints b (ss_transport s) = Some e"
    and "hears (ep_client e) k h (pub_topic p)"
  shows "delivering cid k h p b b"
  using assms by (auto simp: delivering_def)

definition unmoved :: "client_core \<Rightarrow> client_core \<Rightarrow> bool" where
  \<comment> \<open>the subscriptions and the contents of their channels are the same; receivers may be gone\<close>
  "unmoved c c' \<longleftrightarrow> sent c' = sent c \<and> callbacks_pub c' = callbacks_pub c \<and>
     subscriptions c' = subscriptions c \<and> (\<forall>h. buffer (pub_chans c' h) = buffer (pub_chans c h) \<and>
       (rx_alive (pub_chans c' h) \<longrightarrow> rx_alive (pub_chans c h)))"

lemma unmoved_simps [simp]:
  "unmoved c c" "unmoved c (c\<lparr>sink_error := x\<rparr>)" "unmoved c (drop_receiver r c)"
  by (auto simp: unmoved_def dest: drop_receiver_alive)

lemma unmoved_listening:
  assumes "unmoved (ep_client e) (ep_client e')" and "listening k h e'"
    and "ep_outcome e' = ClientRunning \<Longrightarrow> ep_outcome e = ClientRunning"
  shows "listening k h e" "hears (ep_client e) k h t \<Longrightarrow> hears (ep_client e') k h t"
    "buffer (pub_chans (ep_client e') h) = buffer (pub_chans (ep_client e) h)"
  using assms by (auto simp: unmoved_def listening_def sole_def hears_def)

lemma got_in_channel:
  \<comment> \<open>what a client has received is part of the core's channel to it\<close>
  assumes "wired b" and "fifo_ok b" and "bus_sessions b cid = Some s"
    and "bus_endpoints b (ss_transport s) = Some e"
  shows "ep_got e \<le> length (cs_sent (ss_stub s))"
    and "\<exists>j. cs_sent (ss_stub s) = take j (buffer (chans (bus_core b) (ss_chan s)))"
    and "ep_got e \<le> length (buffer (chans (bus_core b) (ss_chan s)))"
proof -
  show got: "ep_got e \<le> length (cs_sent (ss_stub s))"
    using wiredD(7) [OF assms(1,4)] assms(3) unfolding endpoint_ok_def got_ok_def by blast
  show part: "\<exists>j. cs_sent (ss_stub s) = take j (buffer (chans (bus_core b) (ss_chan s)))"
    using fifo_okD(3) [OF assms(2,3)] unfolding stub_fifo_def by blast
  show "ep_got e \<le> length (buffer (chans (bus_core b) (ss_chan s)))"
    using got part by (metis length_take min.bounded_iff)
qed

section \<open>The steps\<close>

lemma delivering_frame:
  assumes d: "delivering cid k h p b0 b" and w: "wired b" and f: "fifo_ok b"
    and ses: "\<And>s. bus_sessions b cid = Some s \<Longrightarrow> \<exists>s'. bus_sessions b' cid = Some s' \<and>
      ss_transport s' = ss_transport s \<and> ss_chan s' = ss_chan s"
    and buf: "\<And>s. bus_sessions b cid = Some s \<Longrightarrow> \<exists>ns. buffer (chans (bus_core b') (ss_chan s)) =
      buffer (chans (bus_core b) (ss_chan s)) @ ns"
    and ends: "\<And>s e. bus_sessions b cid = Some s \<Longrightarrow> bus_endpoints b (ss_transport s) = Some e \<Longrightarrow>
      \<exists>e'. bus_endpoints b' (ss_transport s) = Some e' \<and> ep_got e' = ep_got e \<and>
        (ep_outcome e' = ClientRunning \<longrightarrow> ep_outcome e = ClientRunning \<and>
          unmoved (ep_client e) (ep_client e'))"
  shows "delivering cid k h p b0 b'"
proof -
  obtain s0 e0 s e ns where s0: "bus_sessions b0 cid = Some s0" "bus_endpoints b0 (ss_transport s0) = Some e0"
    and s: "bus_sessions b cid = Some s" "ss_transport s = ss_transport s0" "ss_chan s = ss_chan s0"
    and e: "bus_endpoints b (ss_transport s0) = Some e" "ep_got e0 \<le> ep_got e"
    and ns: "buffer (chans (bus_core b) (ss_chan s0)) = buffer (chans (bus_core b0) (ss_chan s0)) @ ns"
    and run: "listening k h e \<Longrightarrow> hears (ep_client e) k h (pub_topic p) \<and>
        count_list (buffer (pub_chans (ep_client e) h)) p = count_list (buffer (pub_chans (ep_client e0) h)) p +
        count_list (map content (drop (ep_got e0) (take (ep_got e) (buffer (chans (bus_core b) (ss_chan s0))))))
          (ServerPub p)"
    using d unfolding delivering_def by blast
  obtain s' where s': "bus_sessions b' cid = Some s'" "ss_transport s' = ss_transport s" "ss_chan s' = ss_chan s"
    using ses [OF s(1)] by blast
  obtain ms where ms: "buffer (chans (bus_core b') (ss_chan s0)) = buffer (chans (bus_core b) (ss_chan s0)) @ ms"
    using buf [OF s(1)] s(3) by auto
  obtain e' where e': "bus_endpoints b' (ss_transport s0) = Some e'" "ep_got e' = ep_got e"
    and run': "ep_outcome e' = ClientRunning \<Longrightarrow> ep_outcome e = ClientRunning \<and>
      unmoved (ep_client e) (ep_client e')"
    using ends [OF s(1)] s(2) e(1) by auto
  have "ep_got e \<le> length (buffer (chans (bus_core b) (ss_chan s0)))"
    using got_in_channel(3) [OF w f s(1)] s(2,3) e(1) by simp
  then have "take (ep_got e') (buffer (chans (bus_core b') (ss_chan s0))) =
      take (ep_got e) (buffer (chans (bus_core b) (ss_chan s0)))"
    using ms e'(2) by simp
  moreover have "listening k h e \<and> (hears (ep_client e) k h (pub_topic p) \<longrightarrow> hears (ep_client e') k h (pub_topic p)) \<and>
      buffer (pub_chans (ep_client e') h) = buffer (pub_chans (ep_client e) h)" if l: "listening k h e'"
    using unmoved_listening(1,3) [OF _ l, of e] unmoved_listening(2) [OF _ l, of e "pub_topic p"] run' l
    by (auto simp: listening_def)
  ultimately have cnt: "listening k h e' \<Longrightarrow> hears (ep_client e') k h (pub_topic p) \<and>
        count_list (buffer (pub_chans (ep_client e') h)) p = count_list (buffer (pub_chans (ep_client e0) h)) p +
        count_list (map content (drop (ep_got e0) (take (ep_got e') (buffer (chans (bus_core b') (ss_chan s0))))))
          (ServerPub p)"
    using run by simp
  show ?thesis
    by (rule deliveringI [OF s0 s'(1) _ _ e'(1) _ _ cnt, of "ns @ ms"]) (use s'(2,3) s(2,3) e(2) e'(2) ns ms in simp_all)
qed

lemma delivering_core_task:
  assumes d: "delivering cid k h p b0 b" and w: "wired b" and f: "fifo_ok b" and wi: "within_ids b"
    and t: "bus_tasks b = t # ts" and run: "core_run rt [Task t] (bus_core b) = (out, c)"
  shows "delivering cid k h p b0 (b\<lparr>bus_core := c, bus_outcome := out, bus_tasks := ts,
     bus_sessions := open_session t now b\<rparr>)"
proof (rule delivering_frame [OF d w f])
  fix s assume s: "bus_sessions b cid = Some s"
  show "\<exists>s'. bus_sessions (b\<lparr>bus_core := c, bus_outcome := out, bus_tasks := ts,
      bus_sessions := open_session t now b\<rparr>) cid = Some s' \<and> ss_transport s' = ss_transport s \<and> ss_chan s' = ss_chan s"
  proof (cases "\<exists>n. t = Register n")
    case True
    then obtain n where n: "t = Register n" by blast
    then have "bus_sessions b (next_client_id (bus_core b)) = None" using fresh_id [OF w wi] t by blast
    then have "cid \<noteq> next_client_id (bus_core b)" using s by auto
    then show ?thesis using s n by simp
  qed (use s open_session_none in auto)
  show "\<exists>ns. buffer (chans (bus_core (b\<lparr>bus_core := c, bus_outcome := out, bus_tasks := ts,
      bus_sessions := open_session t now b\<rparr>)) (ss_chan s)) = buffer (chans (bus_core b) (ss_chan s)) @ ns"
  proof (cases "\<exists>n. t = Register n")
    case True
    then obtain n where n: "t = Register n" by blast
    have "c = snd (register_client n (bus_core b))" using core_register_moves(1) run unfolding n .
    moreover have "ss_chan s \<noteq> next_chan (bus_core b)" using sessions_okD(3) [OF w s] by simp
    ultimately show ?thesis using register_frame(5) [of n "bus_core b"] by simp
  next
    case False
    then show ?thesis using task_effect_buffer [OF core_task_moves(1) [OF run]] by simp
  qed
qed auto

lemma delivering_client:
  assumes d: "delivering cid k h p b0 b" and inv: "bus_inv b" and f: "fifo_ok b" and ord: "hash_iteration ord"
    and n: "bus_endpoints b n = Some e" and run: "ep_outcome e = ClientRunning"
    and off: "client_offered allowed b n e ev"
  shows "delivering cid k h p b0 (after_client ord n e ev b)"
proof -
  have w: "wired b" and len: "length (sent (ep_client e)) < 2 ^ 32 - 1"
    using inv n by (auto simp: bus_inv_def within_ids_def)
  obtain out c where step: "client_step ord ev (ep_client e) = (out, c)" by fastforce
  have b': "after_client ord n e ev b = b\<lparr>bus_endpoints := (bus_endpoints b)(n \<mapsto> stepped e ev out c)\<rparr>"
    using step by (simp add: after_client_def stepped_def)
  obtain s0 e0 s f ns where s0: "bus_sessions b0 cid = Some s0" "bus_endpoints b0 (ss_transport s0) = Some e0"
    and s: "bus_sessions b cid = Some s" "ss_transport s = ss_transport s0" "ss_chan s = ss_chan s0"
    and e: "bus_endpoints b (ss_transport s0) = Some f" "ep_got e0 \<le> ep_got f"
    and buf: "buffer (chans (bus_core b) (ss_chan s0)) = buffer (chans (bus_core b0) (ss_chan s0)) @ ns"
    and cnt: "listening k h f \<Longrightarrow> hears (ep_client f) k h (pub_topic p) \<and>
        count_list (buffer (pub_chans (ep_client f) h)) p = count_list (buffer (pub_chans (ep_client e0) h)) p +
        count_list (map content (drop (ep_got e0) (take (ep_got f) (buffer (chans (bus_core b) (ss_chan s0))))))
          (ServerPub p)"
    using d unfolding delivering_def by blast
  show ?thesis
  proof (cases "n = ss_transport s0")
    case False
    then show ?thesis unfolding b'
      by (intro delivering_frame [OF d w f]) (use s(1,2) in auto)
  next
    case True
    then have fe: "f = e" using n e(1) by simp
    let ?buf = "buffer (chans (bus_core b) (ss_chan s0))"
    have ok: "client_ok ClientRunning (ep_client e)" using wiredD(7) [OF w n] run by (simp add: endpoint_ok_def)
    have dom: "dom (callbacks_pub (ep_client e)) \<subseteq> mid ` set (sent (ep_client e))"
      using inv holds_servicesD(2) [OF services_okD [OF _ n run]] by (simp add: bus_inv_def)
    have "hears c k h (pub_topic p) \<and>
        count_list (buffer (pub_chans c h)) p = count_list (buffer (pub_chans (ep_client e0) h)) p +
        count_list (map content (drop (ep_got e0) (take (ep_got e + client_gets ev) ?buf))) (ServerPub p)"
      if out: "out = ClientRunning" and l: "rx_alive (pub_chans c h)" "sole c k h"
    proof -
      have st: "client_step ord ev (ep_client e) = (ClientRunning, c)" using step out by simp
      note new = client_step_hears [OF st ok client_offered_wf [OF off] ord len]
      have "rx_alive (pub_chans (ep_client e) h)" using new(2) l(1) by simp
      then have l': "listening k h e" using new(3) [OF _ dom l(2)] run by (simp add: listening_def)
      have old: "hears (ep_client e) k h (pub_topic p)" "sole (ep_client e) k h"
          "count_list (buffer (pub_chans (ep_client e) h)) p = count_list (buffer (pub_chans (ep_client e0) h)) p +
          count_list (map content (drop (ep_got e0) (take (ep_got e) ?buf))) (ServerPub p)"
        using cnt l' unfolding fe listening_def by simp_all
      have "count_list (map content (drop (ep_got e0) (take (ep_got e + client_gets ev) ?buf))) (ServerPub p) =
          count_list (map content (drop (ep_got e0) (take (ep_got e) ?buf))) (ServerPub p) +
          (if pub_in ev = Some p then 1 else 0)"
      proof (cases "\<exists>m. ev = FromServer (Inr m)")
        case True
        then obtain m where m: "ev = FromServer (Inr m)" by blast
        obtain c2 u where u: "bus_sessions b c2 = Some u" "ss_transport u = n"
          "ep_got e < length (cs_sent (ss_stub u))" "m = cs_sent (ss_stub u) ! ep_got e"
          using off m by auto
        have "u = s" using session_unique(2) [OF w u(1) s(1)] u(2) s(2) \<open>n = ss_transport s0\<close> by simp
        then have "ep_got e < length ?buf" "m = ?buf ! ep_got e"
          using u(3,4) got_in_channel(2) [OF w \<open>fifo_ok b\<close> s(1), of e] s(2,3) n \<open>n = ss_transport s0\<close> by auto
        then have "take (ep_got e + client_gets ev) ?buf = take (ep_got e) ?buf @ [m]"
          using m by (simp add: client_gets_def take_Suc_conv_app_nth)
        moreover have "pub_in ev = Some p \<longleftrightarrow> content m = ServerPub p"
          using m by (auto simp: pub_in_def split: protocol_server.split)
        ultimately show ?thesis using e(2) unfolding fe by (auto simp: \<open>ep_got e < length ?buf\<close> less_imp_le)
      next
        case False
        then have "client_gets ev = 0" "pub_in ev = None"
          by (auto simp: client_gets_def pub_in_def split: client_event.split sum.split)
        then show ?thesis by simp
      qed
      then show ?thesis using new(1) [OF old(1)] new(4) [OF old(1,2)] old(3) by simp
    qed
    then have cnt: "listening k h (stepped e ev out c) \<Longrightarrow>
        hears (ep_client (stepped e ev out c)) k h (pub_topic p) \<and>
        count_list (buffer (pub_chans (ep_client (stepped e ev out c)) h)) p =
        count_list (buffer (pub_chans (ep_client e0) h)) p +
        count_list (map content (drop (ep_got e0) (take (ep_got (stepped e ev out c))
          (buffer (chans (bus_core (after_client ord n e ev b)) (ss_chan s0)))))) (ServerPub p)"
      by (simp add: b' listening_def)
    show ?thesis
      by (rule deliveringI [OF s0 _ s(2,3) _ _ _ cnt]) (use s(1) e(2) buf True fe in \<open>simp_all add: b' [unfolded True]\<close>)
  qed
qed

lemma bus_step_delivering:
  assumes "bus_step rt ord allowed b b'" and inv: "bus_inv b" and f: "fifo_ok b" and ord: "hash_iteration ord"
    and d: "delivering cid k h p b0 b"
  shows "delivering cid k h p b0 b'"
proof -
  have w: "wired b" and wi: "within_ids b" using inv by (simp_all add: bus_inv_def)
  show ?thesis using assms(1)
  proof cases
    case (Connect n acks rsps pubs reqs)
    have "ss_transport s \<noteq> n" if "bus_sessions b cid = Some s" for s
      using sessions_okD(2) [OF w that] Connect(2) by simp
    then show ?thesis unfolding Connect(1)
      by (intro delivering_frame [OF d w f]) auto
  next
    case (CoreTask t ts out c now)
    then show ?thesis using delivering_core_task [OF d w f wi] by blast
  next
    case (CoreStops out c)
    then show ?thesis by (intro delivering_frame [OF d w f]) auto
  next
    case (Timer j)
    then show ?thesis by (intro delivering_frame [OF d w f]) auto
  next
    case (Stub c s ev)
    have same: "same_sessions b b'" unfolding Stub(1) by (rule after_stub_same [OF w Stub(2,4)])
    show ?thesis
    proof (rule delivering_frame [OF d w f])
      show "\<exists>s'. bus_sessions b' cid = Some s' \<and> ss_transport s' = ss_transport u \<and> ss_chan s' = ss_chan u"
        if "bus_sessions b cid = Some u" for u
        using same_sessionsD(2) [OF same that] by (auto simp: same_session_def)
      show "\<exists>ns. buffer (chans (bus_core b') (ss_chan u)) = buffer (chans (bus_core b) (ss_chan u)) @ ns" for u
        unfolding Stub(1) by (auto simp: after_stub_def split: prod.split)
      show "\<exists>e'. bus_endpoints b' (ss_transport u) = Some e' \<and> ep_got e' = ep_got e \<and>
          (ep_outcome e' = ClientRunning \<longrightarrow> ep_outcome e = ClientRunning \<and>
            unmoved (ep_client e) (ep_client e'))"
        if "bus_endpoints b (ss_transport u) = Some e" for u e
        using that unfolding Stub(1)
        by (auto simp: after_stub_def split: prod.split)
    qed
  next
    case (Client n e ev)
    then show ?thesis using delivering_client [OF d inv f ord] by blast
  next
    case (ClientSinkBreaks n e err)
    then show ?thesis
      by (intro delivering_frame [OF d w f]) auto
  next
    case (CallerDrops n e r)
    then show ?thesis
      by (intro delivering_frame [OF d w f]) auto
  qed
qed

lemma run_delivering:
  assumes start: "regex_engine rx" "core_new rx = returns c" "hash_iteration ord"
    and b: "bus_reachable rt ord allowed c b" and run: "(bus_move rt ord allowed)\<^sup>*\<^sup>* b b'"
    and d: "delivering cid k h p b0 b"
  shows "bus_reachable rt ord allowed c b' \<and> delivering cid k h p b0 b'"
  using run
proof (induction rule: rtranclp_induct)
  case (step b1 b2)
  then have r: "bus_reachable rt ord allowed c b1" and s: "bus_step rt ord allowed b1 b2"
    by (simp_all add: bus_move_def)
  have "bus_reachable rt ord allowed c b2"
    using r step.hyps(2) unfolding bus_reachable_def by simp
  then show ?case
    using bus_step_delivering [OF s bus_reachable_inv [OF start r] bus_reachable_fifo [OF start r] start(3)] step.IH
    by blast
qed (use b d in simp)

end
