(* ===== verification/Bus_Delivery_Properties.thy ===== *)
theory Bus_Delivery_Properties
  imports Bus_Delivery Bus_Demo
begin

text \<open>
  The properties of whole runs of the bus: what the model can compute is what can happen,
  and a publication that the server processes arrives at every subscription that listens.
\<close>

section \<open>Runs\<close>

text \<open>
  The executable runs are all the runs: a list of events that \<open>bus_exec\<close> accepts leads
  to a reachable state of the bus, and every reachable state is computed by such a list.
\<close>

theorem executions_are_the_runs:
  "bus_reachable rt ord allowed c b \<longleftrightarrow> (\<exists>evs. bus_exec rt ord allowed evs (bus_new c) = Some b)"
  using bus_exec_reachable bus_reachable_exec by blast

section \<open>Delivery\<close>

text \<open>
  C5: a publication arrives, exactly once. When the server processes a publication whose
  whole audience is being served (a subscriber whose session has ended may cut off others,
  see below), and the bus later comes to rest, take any subscription that a client of the
  audience listens on, with a channel of its own, and whose receiver nobody has dropped by
  then: of that publication its channel holds the copies it held, those that were already on
  their way to the client, one for this publication, and one for each the server has put into
  the client's channel since.
\<close>

theorem publication_arrives:
  assumes start: "regex_engine rx" "core_new rx = returns c" "hash_iteration ord"
    and rt: "hash_iteration (hash_order rt)" and b: "bus_reachable rt ord allowed c b"
    and q: "bus_tasks b = Message pub (Msg i (ClientPub p)) # ts"
    and now: "bus_do rt ord allowed (Works now) b = Some b1"
    and audience: "\<forall>k \<in> matching (directory (bus_core b)) (pub_topic p).
      \<exists>s. bus_sessions b k = Some s \<and> ss_serving s"
    and sub: "cid \<in> matching (directory (bus_core b)) (pub_topic p)" "bus_sessions b cid = Some s"
      "bus_endpoints b (ss_transport s) = Some e" "hears (ep_client e) k h (pub_topic p)"
    and later: "(bus_move rt ord allowed)\<^sup>*\<^sup>* b1 b2" "bus_outcome b2 = Running" "at_rest rt ord b2"
      "bus_sessions b2 cid = Some s2" "ss_serving s2"
      "bus_endpoints b2 (ss_transport s) = Some e2" "ep_outcome e2 = ClientRunning"
    and kept: "rx_alive (pub_chans (ep_client e2) h)" "sole (ep_client e2) k h"
  shows "count_list (buffer (pub_chans (ep_client e2) h)) p =
      count_list (buffer (pub_chans (ep_client e) h)) p +
      count_list (map content (drop (ep_got e) (buffer (chans (bus_core b) (ss_chan s))))) (ServerPub p) + 1 +
      count_list (map content (drop (length (buffer (chans (bus_core b1) (ss_chan s))))
        (buffer (chans (bus_core b2) (ss_chan s))))) (ServerPub p)"
proof -
  have w: "wired b" and wi: "within_ids b" using bus_reachable_inv [OF start b] by (simp_all add: bus_inv_def)
  note f = bus_reachable_fifo [OF start b]
  obtain out c1 where run: "core_run rt [Task (Message pub (Msg i (ClientPub p)))] (bus_core b) = (out, c1)"
    by fastforce
  have "bus_outcome b = Running" using now q by (auto split: outcome.splits)
  then have b1: "b1 = b\<lparr>bus_core := c1, bus_outcome := out, bus_tasks := ts\<rparr>"
    using now q run by (simp del: core_run.simps)
  have "bus_step rt ord allowed b b1" by (rule bus_do_step [OF now])
  moreover have "within_ids b1" using wi by (simp add: b1 within_ids_def)
  ultimately have reach1: "bus_reachable rt ord allowed c b1"
    using b unfolding bus_reachable_def bus_move_def by (simp add: rtranclp.rtrancl_into_rtrancl)
  obtain ns where ns: "map content (buffer (chans c1 (ss_chan s))) =
      map content (buffer (chans (bus_core b) (ss_chan s))) @ ServerPub p # ns" "ServerPub p \<notin> set ns"
    using publish_to_served [OF w bus_reachable_linked [OF start b] rt _ run sub(1,2)] audience by blast
  have "delivering cid k h p b1 b1"
    by (rule delivering_start) (use sub in \<open>simp_all add: b1\<close>)
  then have reach2: "bus_reachable rt ord allowed c b2" and d: "delivering cid k h p b1 b2"
    using run_delivering [OF start reach1 later(1)] by blast+
  have w2: "wired b2" using bus_reachable_inv [OF start reach2] by (simp add: bus_inv_def)
  obtain ms where s2: "ss_transport s2 = ss_transport s" "ss_chan s2 = ss_chan s"
    and ms: "buffer (chans (bus_core b2) (ss_chan s)) = buffer (chans c1 (ss_chan s)) @ ms"
    and cnt: "count_list (buffer (pub_chans (ep_client e2) h)) p = count_list (buffer (pub_chans (ep_client e) h)) p +
      count_list (map content (drop (ep_got e) (take (ep_got e2) (buffer (chans (bus_core b2) (ss_chan s))))))
        (ServerPub p)"
    using d sub(2,3) later(4,6,7) kept unfolding delivering_def listening_def b1 by auto
  note rest = at_rest_session [OF w2 bus_reachable_fifo [OF start reach2] later(3,4,5), unfolded s2, OF later(6)]
  have "take (ep_got e2) (buffer (chans (bus_core b2) (ss_chan s))) = buffer (chans (bus_core b2) (ss_chan s))"
    using rest(2) rest(3) [OF later(7)] by simp
  moreover have "ep_got e \<le> length (map content (buffer (chans (bus_core b) (ss_chan s))))"
    using got_in_channel(3) [OF w f sub(2,3)] by simp
  moreover have "length (buffer (chans (bus_core b) (ss_chan s))) \<le> length (buffer (chans c1 (ss_chan s)))"
    using arg_cong [OF ns(1), of length] by simp
  moreover have "count_list ns (ServerPub p) = 0" using ns(2) by simp
  ultimately show ?thesis using cnt ns(1) by (simp add: ms b1 drop_map [symmetric])
qed

definition delivery_events :: "bus_event list" where
  \<comment> \<open>client 2 subscribes and client 1 publishes; the publication is next in the queue\<close>
  "delivery_events = [Connecting, Connecting, Tasking, Tasking,
     Calling 1 (TaskSub (SubMsg demo_topic) 0 5), Reading 2, Tasking,
     Calling 0 (TaskPub demo_pub 0), Reading 1]"

definition delivery_rest :: "bus_event list" where
  "delivery_rest = [Relaying 2, Relaying 2, Relaying 1, Receiving 1 2, Receiving 1 2, Receiving 0 1]"

definition delivery_bus :: bus where
  "delivery_bus = the (demo_exec delivery_events)"

definition delivered_bus :: bus where
  "delivered_bus = the (demo_exec (delivery_events @ Tasking # delivery_rest))"

lemma delivery_runs:
  "demo_exec delivery_events = Some delivery_bus"
  "demo_exec (delivery_events @ Tasking # delivery_rest) = Some delivered_bus"
  unfolding delivery_bus_def delivered_bus_def by (rule not_none, code_simp)+

lemma delivery_facts:
  "bus_tasks delivery_bus = [Message 1 (Msg 1 (ClientPub demo_pub))]"
  "matching (directory (bus_core delivery_bus)) (pub_topic demo_pub) = {2}"
  "map_option (\<lambda>s. (ss_serving s, ss_transport s)) (bus_sessions delivery_bus 2) = Some (True, 1)"
  "map_option (\<lambda>e. (map mid (sent (ep_client e)),
     1 \<in> matching (subscriptions (ep_client e)) demo_topic, callbacks_pub (ep_client e) 1, rx_alive (pub_chans (ep_client e) 5),
     buffer (pub_chans (ep_client e) 5))) (bus_endpoints delivery_bus 1) = Some ([1], True, Some 5, True, [])"
  by code_simp+

lemma delivered_facts:
  "(bus_next delivered_bus, bus_outcome delivered_bus, bus_tasks delivered_bus) = (2, Running, [])"
  "map_option (\<lambda>s. (ss_serving s, ss_transport s, ss_taken s,
     length (buffer (chans (bus_core delivered_bus) (ss_chan s))), length (cs_sent (ss_stub s))))
     (bus_sessions delivered_bus 1) = Some (True, 0, 1, 1, 1)"
  "map_option (\<lambda>s. (ss_serving s, ss_transport s, ss_taken s,
     length (buffer (chans (bus_core delivered_bus) (ss_chan s))), length (cs_sent (ss_stub s))))
     (bus_sessions delivered_bus 2) = Some (True, 1, 2, 2, 2)"
  "map_option (\<lambda>e. (ep_read e, length (sent (ep_client e)), ep_got e)) (bus_endpoints delivered_bus 0) =
     Some (1, 1, 1)"
  "map_option (\<lambda>e. (ep_outcome e, ep_read e, length (sent (ep_client e)), ep_got e)) (bus_endpoints delivered_bus 1) =
     Some (ClientRunning, 1, 1, 2)"
  "map_option (\<lambda>e. (map mid (sent (ep_client e)), rx_alive (pub_chans (ep_client e) 5))) (bus_endpoints delivered_bus 1) =
     Some ([1], True)"
  by code_simp+

lemma delivered_at_rest: "at_rest demo_runtime ascending delivered_bus"
proof (rule at_restI)
  show "wired delivered_bus"
    using bus_reachable_inv [OF demo_start demo_exec_reachable [OF delivery_runs(2)]] by (simp add: bus_inv_def)
  fix n assume "n < bus_next delivered_bus"
  then consider "n = 0" | "n = 1" using delivered_facts(1) by fastforce
  then show "\<exists>cid s e. bus_sessions delivered_bus cid = Some s \<and> ss_transport s = n \<and>
      ss_taken s = length (buffer (chans (bus_core delivered_bus) (ss_chan s))) \<and>
      bus_endpoints delivered_bus n = Some e \<and> ep_read e = length (sent (ep_client e)) \<and>
      ep_got e = length (cs_sent (ss_stub s))"
  proof cases
    case 1
    show ?thesis unfolding 1 by (rule exI [of _ 1]) (use delivered_facts(2,4) in auto)
  next
    case 2
    show ?thesis unfolding 2 by (rule exI [of _ 2]) (use delivered_facts(3,5) in auto)
  qed
qed (use delivered_facts(1) in simp)

theorem publication_arrives_witness:
  "\<exists>e. bus_endpoints delivered_bus 1 = Some e \<and> 0 < count_list (buffer (pub_chans (ep_client e) 5)) demo_pub"
proof -
  note r = demo_exec_reachable [OF delivery_runs(1)]
  have inv: "bus_inv delivery_bus" by (rule bus_reachable_inv [OF demo_start r])
  obtain s where s: "bus_sessions delivery_bus 2 = Some s" "ss_serving s" "ss_transport s = 1"
    using delivery_facts(3) by auto
  obtain e where e: "bus_endpoints delivery_bus 1 = Some e" "map mid (sent (ep_client e)) = [1]"
    "1 \<in> matching (subscriptions (ep_client e)) demo_topic" "callbacks_pub (ep_client e) 1 = Some 5"
    "rx_alive (pub_chans (ep_client e) 5)" "buffer (pub_chans (ep_client e) 5) = []"
    using delivery_facts(4) by auto
  obtain s2 where s2: "bus_sessions delivered_bus 2 = Some s2" "ss_serving s2"
    using delivered_facts(3) by auto
  obtain e2 where e2: "bus_endpoints delivered_bus 1 = Some e2" "ep_outcome e2 = ClientRunning"
    using delivered_facts(5) by auto
  have e2': "map mid (sent (ep_client e2)) = [1]" "rx_alive (pub_chans (ep_client e2) 5)"
    using delivered_facts(6) e2(1) by simp_all
  have "services_ok delivered_bus"
    using bus_reachable_inv [OF demo_start demo_exec_reachable [OF delivery_runs(2)]] by (simp add: bus_inv_def)
  from holds_servicesD(2) [OF services_okD [OF this e2]] have "dom (callbacks_pub (ep_client e2)) \<subseteq> {1}"
    using arg_cong [OF e2'(1), of set] by simp
  then have own: "sole (ep_client e2) 1 5" by (auto simp: sole_def)
  have "dir_inv (subscriptions (ep_client e))"
    using inv e(1) wiredD(7) [of delivery_bus 1 e]
    by (simp add: bus_inv_def endpoint_ok_def client_ok_def client_valid_def client_inv_def)
  moreover have "1 \<in> mid ` set (sent (ep_client e))" using arg_cong [OF e(2), of set] by simp
  ultimately have h: "hears (ep_client e) 1 5 (pub_topic demo_pub)"
    using e(3-5) by (auto simp: hears_def matching_eq)
  obtain b1 where b1: "bus_do demo_runtime ascending harmless_task Tasking delivery_bus = Some b1"
    and rest: "bus_exec demo_runtime ascending harmless_task delivery_rest b1 = Some delivered_bus"
    using delivery_runs(2) unfolding demo_exec_append [OF delivery_runs(1)]
    by (auto simp del: bus_do.simps split: option.splits if_splits)
  have "bus_endpoints b1 n \<noteq> None \<Longrightarrow> n < bus_next b1" for n
    by (rule bus_step_ends [OF bus_do_step [OF b1]]) (use inv wiredD(6) in \<open>auto simp: bus_inv_def\<close>)
  note later = bus_exec_steps [OF rest this]
  have audience: "\<forall>k \<in> matching (directory (bus_core delivery_bus)) (pub_topic demo_pub).
      \<exists>s. bus_sessions delivery_bus k = Some s \<and> ss_serving s"
    using delivery_facts(2) s by simp
  have "2 \<in> matching (directory (bus_core delivery_bus)) (pub_topic demo_pub)"
    using delivery_facts(2) by simp
  from publication_arrives [OF demo_start demo_hash r delivery_facts(1) b1 audience this s(1), unfolded s(3),
      OF e(1) h later _ delivered_at_rest s2 e2 e2'(2) own]
  have "0 < count_list (buffer (pub_chans (ep_client e2) 5)) demo_pub"
    using delivered_facts(1) by simp
  then show ?thesis using e2(1) by blast
qed

section \<open>When part of the audience is gone\<close>

lemma publish_to_append:
  "publish_to rt p xs c = returns (Inr (), c1) \<Longrightarrow> publish_to rt p (xs @ ys) c = publish_to rt p ys c1"
  by (induction xs arbitrary: c) (auto split: if_splits prod.splits sum.splits)

text \<open>
  C22: one dead subscriber is enough to cut off others: the server publishes in the order in
  which the set of subscribers is iterated, and at the first one whose stub has ended it
  answers with an error; the subscribers after it get nothing.
\<close>

theorem dead_subscriber_cuts_off_the_rest:
  assumes "core_inv c" and "hash_iteration (hash_order rt)"
    and order: "hash_order rt (matching (directory c) (pub_topic p)) = xs @ dead # ys"
    and "\<forall>cid \<in> set xs. cid \<noteq> 0 \<and> reachable_client c cid"
    and "dead \<noteq> 0" and "protocol_server_senders c dead = Some h" and "\<not> rx_alive (chans c h)"
  shows "\<exists>c'. core_publish rt p c = returns (Inl (DeliveryFailed dead (send_error_text rt)), c') \<and>
    protocol_server_senders c' dead = None \<and>
    (\<forall>cid k. protocol_server_senders c cid = Some k \<longrightarrow> map content (buffer (chans c' k)) =
       map content (buffer (chans c k)) @ (if cid \<in> set xs then [ServerPub p] else []))"
proof -
  have "finite (matching (directory c) (pub_topic p))" using assms(1) by (auto intro: finite_matching)
  then have "distinct xs" using hash_iteration.distinct_ord [OF assms(2)] order by (metis distinct_append)
  from publish_to_delivers [OF assms(1) this assms(4), of rt "ServerPub p"] obtain c1 where
    c1: "publish_to rt (ServerPub p) xs c = returns (Inr (), c1)"
    and buf: "\<And>k. map content (buffer (chans c1 k)) =
      map content (buffer (chans c k)) @ (if gets c (set xs) k then [ServerPub p] else [])"
    and senders: "protocol_server_senders c1 = protocol_server_senders c" by blast
  have "grows (\<lambda>_. True) c c1" using publish_to_grows [OF c1] by simp
  then have "\<not> rx_alive (chans c1 h)" using assms(7) by (simp add: grows_def)
  then have "deliver rt dead (ServerPub p) c1 =
      (Inl (DeliveryFailed dead (send_error_text rt)), snd (deregister_client dead (bump c1)))"
    using assms(6) senders by (cases rule: deliver_cases [of c1 dead rt "ServerPub p"]) auto
  then have "publish_to rt (ServerPub p) (xs @ dead # ys) c =
      returns (Inl (DeliveryFailed dead (send_error_text rt)), snd (deregister_client dead (bump c1)))"
    using publish_to_append [OF c1] assms(5) by simp
  then have "core_publish rt p c =
      returns (Inl (DeliveryFailed dead (send_error_text rt)), snd (deregister_client dead (bump c1)))"
    by (simp add: core_publish_def Let_def get_subscribers_eq order)
  moreover have "gets c (set xs) k \<longleftrightarrow> cid \<in> set xs" if "protocol_server_senders c cid = Some k" for cid k
    using assms(1) that unfolding gets_def core_inv_def by blast
  ultimately show ?thesis using buf by auto
qed

definition demo_both :: directory where
  "demo_both = (case subscribe 2 demo_topic demo_directory of Some d \<Rightarrow> d | None \<Rightarrow> demo_directory)"

definition demo_gone :: core where
  \<comment> \<open>clients 1 and 2 subscribe; the stub of client 1 has ended\<close>
  "demo_gone = close_chan 0 (demo_core\<lparr>directory := demo_both\<rparr>)"

lemma demo_gone_facts:
  "core_inv demo_gone" "directory demo_gone = demo_both"
  "protocol_server_senders demo_gone = [1 \<mapsto> 0, 2 \<mapsto> 1]" "\<not> rx_alive (chans demo_gone 0)"
proof -
  have "dir_inv demo_both"
    using tree.sub_law [OF demo_facts(3) wf_demo_topic, of 2] by (auto simp: demo_both_def)
  moreover have "0 < next_chan demo_core"
  proof -
    have "protocol_server_senders demo_core 1 = Some 0" using demo_core_facts(3) by simp
    then show ?thesis using demo_core_facts(1) unfolding core_inv_def by blast
  qed
  ultimately show "core_inv demo_gone"
    using core_inv_close_chan [OF core_inv_directory [OF demo_core_facts(1)]] by (simp add: demo_gone_def)
qed (use demo_core_facts in \<open>simp_all add: demo_gone_def close_chan_def\<close>)

lemma demo_gone_order: "ascending (matching demo_both demo_topic) = [] @ 1 # [2]"
  by code_simp

theorem dead_subscriber_cuts_off_the_rest_witness:
  "\<exists>c'. core_publish demo_runtime demo_pub demo_gone = returns (Inl (DeliveryFailed 1 ''channel closed''), c') \<and>
     map content (buffer (chans c' 1)) = map content (buffer (chans demo_gone 1))"
  using dead_subscriber_cuts_off_the_rest [OF demo_gone_facts(1) demo_hash, of demo_pub "[]" 1 "[2]" 0]
    demo_gone_facts(2-4) demo_gone_order
  by (auto simp: demo_runtime_def)

end
