(* ===== verification/Server_Holdings.thy ===== *)
theory Server_Holdings
  imports Server_Core_Run
begin

text \<open>
  What a client is told is what it has: the server changes a client's subscriptions and
  services exactly by the client's own messages that it acknowledges without an error.
\<close>

fun comply :: "protocol_client msg \<Rightarrow> ack_msg \<Rightarrow> topic set \<times> topic set \<Rightarrow> topic set \<times> topic set" where
  "comply m a v = (if ack_err a = None then obey (content m) v else v)"

definition complied ::
    "protocol_client msg list \<Rightarrow> ack_msg list \<Rightarrow> topic set \<times> topic set" where
  \<comment> \<open>the abstract server of one client: its messages with their acknowledgements\<close>
  "complied ms as = fold (\<lambda>(m, a). comply m a) (zip ms as) ({}, {})"

lemma complied_simps [simp]:
  "complied [] [] = ({}, {})"
  "length ms = length as \<Longrightarrow> complied (ms @ [m]) (as @ [a]) = comply m a (complied ms as)"
  by (simp_all add: complied_def)

lemma senders_unique:
  "core_inv c \<Longrightarrow> protocol_server_senders c a = Some h \<Longrightarrow> protocol_server_senders c b = Some h \<Longrightarrow> a = b"
  unfolding core_inv_def by blast

definition unheard :: "u32 \<Rightarrow> nat \<Rightarrow> core \<Rightarrow> core \<Rightarrow> bool" where
  \<comment> \<open>nothing changes for the client, and it gets no acknowledgement\<close>
  "unheard a h c c' \<longleftrightarrow> holdings a c' = holdings a c \<and>
     acks_of (buffer (chans c' h)) = acks_of (buffer (chans c h))"

definition granted :: "protocol_client msg \<Rightarrow> u32 \<Rightarrow> nat \<Rightarrow> core \<Rightarrow> core \<Rightarrow> bool" where
  \<comment> \<open>the client gets one acknowledgement of the message and what it says\<close>
  "granted m a h c c' \<longleftrightarrow> (\<exists>x. ack_msg_id x = mid m \<and>
     acks_of (buffer (chans c' h)) = acks_of (buffer (chans c h)) @ [x] \<and>
     holdings a c' = comply m x (holdings a c))"

lemma process_msg_grants:
  assumes p: "process_msg rt cid m c = returns (r, c')" and inv: "core_inv c" and wf: "wf_client_msg m"
    and a: "protocol_server_senders c a = Some h" "protocol_server_senders c' a = Some h"
  shows "if a = cid then granted m a h c c' else unheard a h c c'"
proof -
  have "protocol_server_senders c' a = protocol_server_senders c a" using a by simp
  then obtain res c1 where h: "handled rt cid m c = returns (res, c1)" and g: "no_acks c c1"
    and d: "c' = snd (deliver rt cid (ServerAck (ack_for (mid m) res)) c1)"
    and s: "protocol_server_senders c1 a = Some h"
    and v: "holdings a c' = (if a = cid \<and> (\<exists>n. res = Inr n) then obey (content m) (holdings a c) else holdings a c)"
    using process_msg_holdings [OF p inv wf] a(1) by metis
  have inv1: "core_inv c1" using h wf inv by (rule handled_inv)
  have same: "acks_of (buffer (chans c1 h)) = acks_of (buffer (chans c h))"
    using g by (simp add: grows_def acks_of_no_acks)
  show ?thesis
  proof (cases rule: deliver_cases [of c1 cid rt "ServerAck (ack_for (mid m) res)"])
    case (sent k)
    have "k = h \<longleftrightarrow> a = cid" using senders_unique [OF inv1 s, of cid] sent(1) s by auto
    then show ?thesis using sent d v same
      by (auto simp: granted_def unheard_def intro!: exI [of _ "ack_for (mid m) res"] split: sum.splits)
  next
    case (dead k)
    then have "a \<noteq> cid" using d a(2) by auto
    then show ?thesis using dead d v same by (simp add: unheard_def)
  next
    case unknown
    then have "a \<noteq> cid" using s by auto
    then show ?thesis using unknown d v same by (simp add: unheard_def)
  qed
qed

lemma process_task_grants:
  assumes p: "process_task rt t c = returns (r, c')" and inv: "core_inv c" and wf: "wf_event (Task t)"
    and n: "\<forall>n. t \<noteq> Register n"
    and a: "protocol_server_senders c a = Some h" "protocol_server_senders c' a = Some h"
  shows "if \<exists>m. t = Message a m then \<exists>m. t = Message a m \<and> granted m a h c c' else unheard a h c c'"
proof (cases t)
  case (Message cid m)
  then show ?thesis using process_msg_grants [of rt cid m c r c' a h] assms by (auto simp: process_task_def)
next
  case (Deregister cid)
  then have c': "c' = snd (deregister_client cid c)" using p by (simp add: process_task_def prod.case_eq_if)
  then have "a \<noteq> cid" using a(2) by auto
  then show ?thesis using Deregister c' holdings_deregister [OF inv] by (simp add: unheard_def)
next
  case (RequestTimeout i)
  then obtain q x where q: "core_respond rt 0 x c = (q, c')"
    using p by (auto simp: process_task_def split: prod.splits sum.splits)
  then have "no_acks c c'" by (rule core_respond_grows)
  then show ?thesis using RequestTimeout core_respond_holdings [OF q inv] a
    by (simp add: unheard_def grows_def acks_of_no_acks)
qed (use n in simp)

end
