(* ===== verification/Bus_Holdings.thy ===== *)
theory Bus_Holdings
  imports Bus_Fifo Bus_Provenance Server_Holdings
begin

text \<open>
  What a client holds at the server, in the whole bus: the subscriptions and services of a
  registered client are those its acknowledged messages make, taken in the order it sent
  them, and the acknowledgements are for a beginning of what it has sent.
\<close>

definition processed :: "bus \<Rightarrow> nat \<Rightarrow> endpoint \<Rightarrow> protocol_client msg list" where
  \<comment> \<open>what the stub has read of the client's messages but for those still in the queue\<close>
  "processed b n e =
     take (ep_read e - length (queue_of (home b) n (bus_tasks b))) (sent (ep_client e))"

definition acks_given :: "bus \<Rightarrow> session \<Rightarrow> ack_msg list" where
  "acks_given b s = acks_of (buffer (chans (bus_core b) (ss_chan s)))"

definition in_step :: "bus \<Rightarrow> u32 \<Rightarrow> session \<Rightarrow> endpoint \<Rightarrow> bool" where
  "in_step b cid s e \<longleftrightarrow>
     map ack_msg_id (acks_given b s) = map mid (processed b (ss_transport s) e) \<and>
     holdings cid (bus_core b) = complied (processed b (ss_transport s) e) (acks_given b s)"

definition settled :: "bus \<Rightarrow> bool" where
  "settled b \<longleftrightarrow> (bus_outcome b = Running \<longrightarrow>
     (\<forall>n e. bus_endpoints b n = Some e \<and> (\<forall>cid. home b cid \<noteq> Some n) \<longrightarrow> ep_read e = 0) \<and>
     (\<forall>cid s e. bus_sessions b cid = Some s \<and> bus_endpoints b (ss_transport s) = Some e \<and>
        protocol_server_senders (bus_core b) cid = Some (ss_chan s) \<longrightarrow> in_step b cid s e))"

lemma settledI:
  assumes "\<And>n e. bus_outcome b = Running \<Longrightarrow> bus_endpoints b n = Some e \<Longrightarrow> \<forall>cid. home b cid \<noteq> Some n \<Longrightarrow>
      ep_read e = 0"
    and "\<And>cid s e. bus_outcome b = Running \<Longrightarrow> bus_sessions b cid = Some s \<Longrightarrow>
      bus_endpoints b (ss_transport s) = Some e \<Longrightarrow>
      protocol_server_senders (bus_core b) cid = Some (ss_chan s) \<Longrightarrow> in_step b cid s e"
  shows "settled b"
  using assms unfolding settled_def by blast

lemma settledD:
  assumes "settled b" and "bus_outcome b = Running"
  shows "bus_endpoints b n = Some e \<Longrightarrow> \<forall>cid. home b cid \<noteq> Some n \<Longrightarrow> ep_read e = 0"
    and "bus_sessions b cid = Some s \<Longrightarrow> bus_endpoints b (ss_transport s) = Some e \<Longrightarrow>
      protocol_server_senders (bus_core b) cid = Some (ss_chan s) \<Longrightarrow> in_step b cid s e"
  using assms unfolding settled_def by blast+

section \<open>What has been processed\<close>

lemma processed_same:
  assumes "sends_on (ep_client e) (ep_client e')" and "ep_read e \<le> length (sent (ep_client e))"
    and "ep_read e' - length (queue_of (home b') n (bus_tasks b')) = ep_read e - length (queue_of (home b) n (bus_tasks b))"
  shows "processed b' n e' = processed b n e"
  using assms unfolding processed_def sends_on_def by auto

lemma processed_pop:
  assumes "queue_fifo b n e" and "queue_of (home b) n (bus_tasks b) = m # queue_of (home b') n (bus_tasks b')"
    and "ep_read e \<le> length (sent (ep_client e))"
  shows "processed b' n e = processed b n e @ [m]"
proof -
  obtain k where k: "k \<le> ep_read e"
    "m # queue_of (home b') n (bus_tasks b') = drop k (take (ep_read e) (sent (ep_client e)))"
    using assms(1,2) unfolding queue_fifo_def by auto
  have l: "Suc (length (queue_of (home b') n (bus_tasks b'))) = ep_read e - k"
    using arg_cong [OF k(2), of length] assms(3) by simp
  then have "k < ep_read e" "sent (ep_client e) ! k = m"
    using arg_cong [OF k(2), of "\<lambda>xs. xs ! 0"] assms(3) by simp_all
  moreover have "ep_read e - length (queue_of (home b') n (bus_tasks b')) = Suc k"
    "ep_read e - length (queue_of (home b) n (bus_tasks b)) = k" using l assms(2) k(1) by simp_all
  ultimately show ?thesis unfolding processed_def using assms(3) by (simp add: take_Suc_conv_app_nth)
qed

section \<open>The steps\<close>

lemma settled_frame:
  assumes st: "settled b" and run: "bus_outcome b' = Running \<Longrightarrow> bus_outcome b = Running"
    and same: "same_sessions b b'"
    and core: "\<And>cid s. bus_sessions b cid = Some s \<Longrightarrow>
      protocol_server_senders (bus_core b') cid = Some (ss_chan s) \<Longrightarrow>
      protocol_server_senders (bus_core b) cid = Some (ss_chan s) \<and> unheard cid (ss_chan s) (bus_core b) (bus_core b')"
    and ends: "\<And>n e'. bus_outcome b' = Running \<Longrightarrow> bus_endpoints b' n = Some e' \<Longrightarrow>
      (\<exists>e. bus_endpoints b n = Some e \<and> processed b' n e' = processed b n e \<and>
         (ep_read e' = ep_read e \<or> (\<exists>cid. home b cid = Some n))) \<or>
      ep_read e' = 0 \<and> (\<forall>cid. home b cid \<noteq> Some n)"
  shows "settled b'"
proof (rule settledI)
  fix n e' assume "bus_outcome b' = Running" "bus_endpoints b' n = Some e'" "\<forall>cid. home b' cid \<noteq> Some n"
  then show "ep_read e' = 0"
    using ends [of n e'] settledD(1) [OF st run, of n] unfolding same_sessions_home [OF same] by auto
next
  fix cid s' e'
  assume r: "bus_outcome b' = Running" and s': "bus_sessions b' cid = Some s'"
    and e': "bus_endpoints b' (ss_transport s') = Some e'"
    and c: "protocol_server_senders (bus_core b') cid = Some (ss_chan s')"
  obtain s where s: "bus_sessions b cid = Some s" "ss_transport s' = ss_transport s" "ss_chan s' = ss_chan s"
    using same_sessionsD(1) [OF same s'] by (auto simp: same_session_def)
  have "home b cid = Some (ss_transport s)" using s(1) by (simp add: home_def)
  then obtain e where e: "bus_endpoints b (ss_transport s) = Some e"
    "processed b' (ss_transport s) e' = processed b (ss_transport s) e"
    using ends [OF r e'] s(2) by auto
  note k = core [OF s(1), unfolded s(3) [symmetric], OF c]
  then have "in_step b cid s e" using settledD(2) [OF st run [OF r] s(1) e(1)] s(3) by simp
  moreover have "acks_given b' s' = acks_given b s" using k s(3) by (simp add: acks_given_def unheard_def)
  ultimately show "in_step b' cid s' e'" using k s(2) e(2) by (simp add: in_step_def unheard_def)
qed

lemma unheard_same [simp]: "directory c' = directory c \<Longrightarrow> buffer (chans c' h) = buffer (chans c h) \<Longrightarrow> unheard a h c c'"
  by (simp add: unheard_def holdings_def)

lemma settled_endpoint:
  assumes st: "settled b" and w: "wired b" and n: "bus_endpoints b n = Some e"
    and on: "sends_on (ep_client e) (ep_client e')" and rd: "ep_read e' = ep_read e"
  shows "settled (b\<lparr>bus_endpoints := (bus_endpoints b)(n \<mapsto> e')\<rparr>)" (is "settled ?b")
proof (rule settled_frame [OF st])
  fix k g assume g: "bus_endpoints ?b k = Some g"
  show "(\<exists>e. bus_endpoints b k = Some e \<and> processed ?b k g = processed b k e \<and>
      (ep_read g = ep_read e \<or> (\<exists>cid. home b cid = Some k))) \<or> ep_read g = 0 \<and> (\<forall>cid. home b cid \<noteq> Some k)"
  proof (cases "k = n")
    case True
    then show ?thesis using g n rd processed_same [OF on read_sent [OF w n], of ?b n b] by simp
  next
    case False
    then show ?thesis using g by (simp add: processed_def)
  qed
qed simp_all

lemma settled_connect:
  assumes st: "settled b" and w: "wired b" and n: "n = bus_next b"
  shows "settled (b\<lparr>bus_endpoints := (bus_endpoints b)(n \<mapsto> new_endpoint c), bus_tasks := bus_tasks b @ [Register n],
     bus_next := n + 1\<rparr>)" (is "settled ?b")
proof (rule settled_frame [OF st])
  fix k g assume g: "bus_endpoints ?b k = Some g"
  have "home b cid \<noteq> Some n" for cid
    using sessions_okD(2) [OF w, of cid] n unfolding home_Some by fastforce
  then show "(\<exists>e. bus_endpoints b k = Some e \<and> processed ?b k g = processed b k e \<and>
      (ep_read g = ep_read e \<or> (\<exists>cid. home b cid = Some k))) \<or> ep_read g = 0 \<and> (\<forall>cid. home b cid \<noteq> Some k)"
    using g by (cases "k = n") (auto simp: new_endpoint_def processed_def)
qed simp_all

lemma settled_task:
  assumes st: "settled b" and w: "wired b" and f: "fifo_ok b" and t: "bus_tasks b = t # ts" "\<forall>n. t \<noteq> Register n"
    and o: "bus_outcome b = Running" and run: "core_run rt [Task t] (bus_core b) = (out, c)"
  shows "settled (b\<lparr>bus_core := c, bus_outcome := out, bus_tasks := ts\<rparr>)" (is "settled ?b")
proof (rule settledI)
  fix n e assume "bus_endpoints ?b n = Some e" "\<forall>cid. home ?b cid \<noteq> Some n"
  then show "ep_read e = 0" using settledD(1) [OF st o, of n e] by simp
next
  fix cid s e
  assume "bus_outcome ?b = Running" and s': "bus_sessions ?b cid = Some s"
    and e': "bus_endpoints ?b (ss_transport s) = Some e"
    and c': "protocol_server_senders (bus_core ?b) cid = Some (ss_chan s)"
  then have s: "bus_sessions b cid = Some s" and e: "bus_endpoints b (ss_transport s) = Some e"
    and out: "out = Running" by simp_all
  have "out \<noteq> Panicked" using out by simp
  then obtain r where p: "process_task rt t (bus_core b) = returns (r, c)" using core_run_one [OF run] by blast
  have snd: "protocol_server_senders (bus_core b) cid = Some (ss_chan s)"
    using core_task_moves(4) [OF run t(2)] c' by simp
  have old: "in_step b cid s e" by (rule settledD(2) [OF st o s e snd])
  have wf: "wf_event (Task t)" using queued_task(1) [OF w, of t] t(1) by (simp add: task_valid_event)
  have "protocol_server_senders c cid = Some (ss_chan s)" using c' by simp
  note g = process_task_grants [OF p wiredD(1) [OF w] wf t(2) snd this]
  show "in_step ?b cid s e"
  proof (cases "\<exists>m. t = Message cid m")
    case True
    then obtain m x where m: "t = Message cid m" and x: "ack_msg_id x = mid m"
      "acks_given ?b s = acks_given b s @ [x]" "holdings cid c = comply m x (holdings cid (bus_core b))"
      using g by (auto simp: granted_def acks_given_def)
    have "home b cid = Some (ss_transport s)" using s by (simp add: home_def)
    then have "processed ?b (ss_transport s) e = processed b (ss_transport s) e @ [m]"
      using processed_pop [OF fifo_okD(1) [OF f o e], of m ?b] read_sent [OF w e] t(1) m by simp
    moreover have "length (processed b (ss_transport s) e) = length (acks_given b s)"
      using old unfolding in_step_def by (metis length_map)
    ultimately show ?thesis using old x by (simp add: in_step_def del: comply.simps)
  next
    case False
    then have "holdings cid c = holdings cid (bus_core b)" "acks_given ?b s = acks_given b s"
      using g by (simp_all add: unheard_def acks_given_def)
    moreover have "queue_of (home b) (ss_transport s) [t] = []"
      using False session_unique(1) [OF w s] by (auto simp: home_Some split: task.split)
    ultimately show ?thesis using old t(1) by (simp add: in_step_def processed_def)
  qed
qed

lemma settled_register:
  assumes st: "settled b" and w: "wired b" and wi: "within_ids b" and j: "bus_just b"
    and t: "bus_tasks b = Register n # ts" and o: "bus_outcome b = Running"
  shows "settled (b\<lparr>bus_core := snd (register_client n (bus_core b)), bus_outcome := out, bus_tasks := ts,
     bus_sessions := open_session (Register n) now b\<rparr>)" (is "settled ?b")
proof (rule settledI)
  let ?cid = "next_client_id (bus_core b)"
  have new: "bus_sessions b ?cid = None" by (rule fresh_id [OF w wi t])
  have hm: "home ?b = (home b)(?cid \<mapsto> n)" by (auto simp: home_def)
  have q: "queue_of (home ?b) k ts = queue_of (home b) k (bus_tasks b)" for k
  proof -
    have "queue_of (home ?b) k ts = queue_of (home b) k ts"
    proof (rule queue_of_cong)
      fix cid m assume "Message cid m \<in> set ts"
      then have "bus_sessions b cid \<noteq> None" using queued_task(2) [OF w, of "Message cid m" cid] t by simp
      then show "home ?b cid = Some k \<longleftrightarrow> home b cid = Some k" using new unfolding hm by auto
    qed
    then show ?thesis using t by simp
  qed
  {
    fix k e assume "bus_endpoints ?b k = Some e" and h: "\<forall>cid. home ?b cid \<noteq> Some k"
    moreover have "home b cid \<noteq> Some k" for cid
      using h [THEN spec, of cid] new unfolding hm by (cases "cid = ?cid") (simp_all add: home_def)
    ultimately show "ep_read e = 0" using settledD(1) [OF st o, of k e] by simp
  next
    fix cid s e
    assume s: "bus_sessions ?b cid = Some s" and e: "bus_endpoints ?b (ss_transport s) = Some e"
      and c: "protocol_server_senders (bus_core ?b) cid = Some (ss_chan s)"
    show "in_step ?b cid s e"
    proof (cases "cid = ?cid")
      case True
      have s': "ss_transport s = n" "ss_chan s = next_chan (bus_core b)" using s True by auto
      have "home b a \<noteq> Some n" for a using wiredD(3) [OF w] t by (simp add: regs_ok_def)
      then have "ep_read e = 0" using settledD(1) [OF st o, of n e] e s'(1) by simp
      moreover have "holdings ?cid (bus_core b) = ({}, {})"
      proof -
        have "?cid \<noteq> 0" by (rule fresh_id [OF w wi t]) auto
        moreover have "\<not> said b ?cid m" for m using new by (simp add: said_def home_def)
        ultimately have "?cid \<notin> subs_of (directory (bus_core b)) u" "owner_of (directory (bus_core b)) u \<noteq> Some ?cid" for u
          using core_justD(1,2) [OF bus_justD(1) [OF j]] unfolding subscribes_def serves_def by blast+
        then show ?thesis by (simp add: holdings_def)
      qed
      ultimately show ?thesis using s' True by (simp add: in_step_def processed_def acks_given_def holdings_def)
    next
      case False
      then have s': "bus_sessions b cid = Some s" using s by simp
      have "ss_chan s \<noteq> next_chan (bus_core b)" using sessions_okD(3) [OF w s'] by simp
      then have "acks_given ?b s = acks_given b s" by (simp add: acks_given_def)
      moreover have "in_step b cid s e" using settledD(2) [OF st o s'] e c False by simp
      ultimately show ?thesis using q by (simp add: in_step_def processed_def holdings_def)
    qed
  }
qed

lemma settled_stub:
  assumes st: "settled b" and w: "wired b" and f: "fifo_ok b" and s: "bus_sessions b cid = Some s"
    and serving: "ss_serving s" and off: "stub_offered b s ev"
  shows "settled (after_stub cid s ev b)" (is "settled ?b")
proof -
  obtain r stub ts ms p where r: "stub_serve [ev] (ss_stub s) = (r, stub)"
    and p: "bus_endpoints b (ss_transport s) = Some p"
    and b': "?b = b\<lparr>bus_sessions := (bus_sessions b)(cid \<mapsto>
          s\<lparr>ss_stub := stub, ss_serving := (r = None), ss_taken := ss_taken s + stub_takes ev\<rparr>),
        bus_endpoints := (bus_endpoints b)(ss_transport s \<mapsto> p\<lparr>ep_read := ep_read p + stub_reads ev\<rparr>),
        bus_tasks := bus_tasks b @ ts,
        bus_core := (if r = None then bus_core b else close_chan (ss_chan s) (bus_core b))\<rparr>"
    and ts: "ts = [] \<or> ts = [Deregister cid] \<or> (\<exists>m. ev = FromTransport (Some (Inr m)) \<and>
      m \<in> set (sent (ep_client p)) \<and> ep_read p < length (sent (ep_client p)) \<and>
      m = sent (ep_client p) ! ep_read p \<and> ts = [Message cid m])"
    by (rule after_stub_parts [OF w s off])
  have same: "same_sessions b ?b" by (rule after_stub_same [OF w s off])
  have mine: "home b cid = Some (ss_transport s)" using s by (simp add: home_def)
  have ends: "processed ?b n e' = processed b n e"
    if run: "bus_outcome ?b = Running" and e': "bus_endpoints ?b n = Some e'"
      and e: "bus_endpoints b n = Some e" for n e e'
  proof (cases "n = ss_transport s")
    case True
    have "bus_outcome b = Running" using run by (simp add: b')
    then have alive: "cs_core_alive (ss_stub s)" by (rule fifo_okD(2) [OF f _ s])
    have "length (queue_of (home b) n ts) = stub_reads ev"
    proof (cases "\<exists>m. ev = FromTransport (Some (Inr m))")
      case True
      then obtain m where m: "ev = FromTransport (Some (Inr m))" by blast
      have "bus_tasks ?b = bus_tasks b @ drop (length (cs_tasks (ss_stub s))) (cs_tasks stub)"
        by (simp add: after_stub_def r)
      then have "ts = drop (length (cs_tasks (ss_stub s))) (cs_tasks stub)" by (simp add: b')
      then have "ts = [Message cid m]"
        using stub_hears [OF alive sessions_okD(1) [OF w s], of m r stub] r m by simp
      then show ?thesis using m mine \<open>n = ss_transport s\<close> by (simp add: stub_reads_def)
    next
      case False
      then show ?thesis using ts by (auto simp: stub_reads_def split: stub_event.split option.split sum.split)
    qed
    moreover have "e' = e\<lparr>ep_read := ep_read e + stub_reads ev\<rparr>" using e' e p True by (simp add: b')
    ultimately show ?thesis
      using same_sessions_home [OF same] unfolding processed_def by (simp add: b')
  next
    case False
    then have "queue_of (home b) n ts = []" using ts mine by auto
    moreover have "e' = e" using False e' e by (simp add: b')
    ultimately show ?thesis using same_sessions_home [OF same] unfolding processed_def by (simp add: b')
  qed
  show ?thesis
  proof (rule settled_frame [OF st _ same])
    fix n e' assume run: "bus_outcome ?b = Running" and e': "bus_endpoints ?b n = Some e'"
    obtain e where e: "bus_endpoints b n = Some e" using e' p by (auto simp: b' split: if_splits)
    have "ep_read e' = ep_read e \<or> (\<exists>cid. home b cid = Some n)"
      using e' e mine by (auto simp: b' split: if_splits)
    then show "(\<exists>e. bus_endpoints b n = Some e \<and> processed ?b n e' = processed b n e \<and>
        (ep_read e' = ep_read e \<or> (\<exists>cid. home b cid = Some n))) \<or> ep_read e' = 0 \<and> (\<forall>cid. home b cid \<noteq> Some n)"
      using ends [OF run e' e] e by blast
  qed (simp_all add: b' close_chan_def split: if_splits)
qed

lemma bus_step_settled:
  assumes "bus_step rt ord allowed b b'" and inv: "bus_inv b" and f: "fifo_ok b" and j: "bus_just b"
    and st: "settled b"
  shows "settled b'"
proof -
  have w: "wired b" and wi: "within_ids b" using inv by (simp_all add: bus_inv_def)
  show ?thesis using assms(1)
  proof cases
    case (Connect n acks rsps pubs reqs)
    then show ?thesis using settled_connect [OF st w] by blast
  next
    case (CoreTask t ts out c now)
    show ?thesis
    proof (cases "\<exists>n. t = Register n")
      case True
      then obtain n where n: "t = Register n" by blast
      have "c = snd (register_client n (bus_core b))" using core_register_moves(1) CoreTask(4) unfolding n .
      then show ?thesis using settled_register [OF st w wi j] CoreTask(1-3) n by simp
    next
      case False
      then have n: "\<forall>n. t \<noteq> Register n" by simp
      have "b' = b\<lparr>bus_core := c, bus_outcome := out, bus_tasks := ts\<rparr>"
        using CoreTask(1) open_session_none [OF n, of now b] by (cases b) simp
      then show ?thesis using settled_task [OF st w f CoreTask(3) n CoreTask(2,4)] by simp
    qed
  next
    case (CoreStops out c)
    then show ?thesis by (auto simp: settled_def)
  next
    case (Timer k)
    then show ?thesis by (intro settled_frame [OF st]) (auto simp: processed_def)
  next
    case (Stub cid s e)
    then show ?thesis using settled_stub [OF st w f] by blast
  next
    case (Client n e ev)
    obtain out c where s: "client_step ord ev (ep_client e) = (out, c)" by fastforce
    then have "b' = b\<lparr>bus_endpoints := (bus_endpoints b)(n \<mapsto> stepped e ev out c)\<rparr>"
      using Client(1) by (simp add: after_client_def stepped_def)
    then show ?thesis
      using settled_endpoint [OF st w Client(2), of "stepped e ev out c"] client_step_on [OF s] by simp
  next
    case (ClientSinkBreaks n e err)
    then show ?thesis
      using settled_endpoint [OF st w, of n e "e\<lparr>ep_client := (ep_client e)\<lparr>sink_error := Some err\<rparr>\<rparr>"]
      by (simp add: sends_on_def)
  next
    case (CallerDrops n e r)
    then show ?thesis
      using settled_endpoint [OF st w, of n e "e\<lparr>ep_client := drop_receiver r (ep_client e)\<rparr>"]
      by (simp add: sends_on_def)
  qed
qed

lemma settled_new: "settled (bus_new c)"
  by (simp add: settled_def bus_new_def)

lemma bus_reachable_settled:
  assumes "regex_engine rx" and "core_new rx = returns c" and "hash_iteration ord"
    and "hash_iteration (hash_order rt)" and "bus_reachable rt ord allowed c b"
  shows "settled b"
proof -
  have "fifo_ok b \<and> bus_just b \<and> settled b"
  proof (rule bus_reachable_induct [where P = "\<lambda>b. fifo_ok b \<and> bus_just b \<and> settled b", OF assms(1-3,5)])
    show "fifo_ok (bus_new c) \<and> bus_just (bus_new c) \<and> settled (bus_new c)"
      using fifo_ok_new bus_just_new [OF assms(1,2)] settled_new by blast
  next
    fix b b' assume i: "bus_inv b" and p: "fifo_ok b \<and> bus_just b \<and> settled b" and s: "bus_step rt ord allowed b b'"
    then show "fifo_ok b' \<and> bus_just b' \<and> settled b'"
      using bus_step_fifo [OF s] bus_step_just [OF s i _ assms(4)] bus_step_settled [OF s i]
      by (simp add: bus_inv_def)
  qed
  then show ?thesis by blast
qed

end
