(* ===== verification/Bus_Holdings_Properties.thy ===== *)
theory Bus_Holdings_Properties
  imports Bus_Holdings Bus_Delivery_Properties
begin

text \<open>
  The properties of what a client holds at the server of a bus: it is a function of the
  messages acknowledged to the client, what has been granted and not given up since is in
  force, and at rest every message has been answered.
\<close>

section \<open>Holdings over a stretch of messages\<close>

abbreviation comply_all :: "(protocol_client msg \<times> ack_msg) list \<Rightarrow> topic set \<times> topic set \<Rightarrow> topic set \<times> topic set" where
  "comply_all xs \<equiv> fold (\<lambda>(m, a). comply m a) xs"

lemma complied_split:
  "length xs = length as \<Longrightarrow>
   complied (xs @ m # ys) (as @ a # bs) = comply_all (zip ys bs) (comply m a (complied xs as))"
  by (simp add: complied_def)

lemma obey_keeps:
  "u \<in> fst v \<Longrightarrow> cnt \<noteq> ClientUnsub (UnsubMsg u) \<Longrightarrow> u \<in> fst (obey cnt v)"
  "u \<in> snd v \<Longrightarrow> cnt \<noteq> ClientUnsrv (UnsrvMsg u) \<Longrightarrow> u \<in> snd (obey cnt v)"
proof -
  have "p = UnsubMsg (unsub_topic p)" for p by (cases p) simp
  then show "u \<in> fst v \<Longrightarrow> cnt \<noteq> ClientUnsub (UnsubMsg u) \<Longrightarrow> u \<in> fst (obey cnt v)"
    by (cases "(cnt, v)" rule: obey.cases) auto
  have "p = UnsrvMsg (unsrv_topic p)" for p by (cases p) simp
  then show "u \<in> snd v \<Longrightarrow> cnt \<noteq> ClientUnsrv (UnsrvMsg u) \<Longrightarrow> u \<in> snd (obey cnt v)"
    by (cases "(cnt, v)" rule: obey.cases) auto
qed

lemma comply_all_keeps:
  "u \<in> fst v \<Longrightarrow> \<forall>y \<in> set ys. content y \<noteq> ClientUnsub (UnsubMsg u) \<Longrightarrow> u \<in> fst (comply_all (zip ys bs) v)"
  "u \<in> snd v \<Longrightarrow> \<forall>y \<in> set ys. content y \<noteq> ClientUnsrv (UnsrvMsg u) \<Longrightarrow> u \<in> snd (comply_all (zip ys bs) v)"
  by (induction ys bs arbitrary: v rule: list_induct2') (simp_all add: obey_keeps)

lemma same_position:
  \<comment> \<open>in lists of the same keys, without repetition, equal keys are at equal positions\<close>
  assumes "map f as = map g ps" and "distinct (map g (ps @ qs))" and "ps @ qs = xs @ m # ys"
    and "a \<in> set as" and "f a = g m"
  obtains bs cs zs where "as = bs @ a # cs" "ps = xs @ m # zs" "length bs = length xs" "set zs \<subseteq> set ys"
proof -
  obtain bs cs where as: "as = bs @ a # cs" using assms(4) by (auto dest: split_list)
  have len: "length as = length ps" using assms(1) by (metis length_map)
  then have i: "length bs < length ps" using as by simp
  have "g (ps ! length bs) = f (as ! length bs)" using i len assms(1) by (metis nth_map)
  then have "map g (ps @ qs) ! length bs = g m" using i as assms(5) by (simp add: nth_append)
  moreover have "map g (ps @ qs) ! length xs = g m" unfolding assms(3) by (simp add: nth_append)
  moreover have "length xs < length (ps @ qs)" using assms(3) by simp
  ultimately have l: "length bs = length xs"
    using nth_eq_iff_index_eq [OF assms(2), of "length bs" "length xs"] i by simp
  have "ps = take (length ps) (xs @ m # ys)" using assms(3) [symmetric] by simp
  also have "\<dots> = xs @ m # take (length ps - Suc (length xs)) ys"
    using i l by (simp add: take_Cons' Suc_diff_Suc)
  finally show ?thesis using that as l set_take_subset by metis
qed

section \<open>The server follows what it acknowledges\<close>

lemma server_follows_acknowledgements_lemma:
  assumes start: "regex_engine rx" "core_new rx = returns c" "hash_iteration ord"
    and rt: "hash_iteration (hash_order rt)" and b: "bus_reachable rt ord allowed c b"
    and run: "bus_outcome b = Running" and s: "bus_sessions b cid = Some s" "ss_serving s"
    and e: "bus_endpoints b (ss_transport s) = Some e"
  shows "\<exists>k \<le> ep_read e.
     queue_of (home b) (ss_transport s) (bus_tasks b) = drop k (take (ep_read e) (sent (ep_client e))) \<and>
     map ack_msg_id (acks_of (buffer (chans (bus_core b) (ss_chan s)))) = map mid (take k (sent (ep_client e))) \<and>
     holdings cid (bus_core b) =
       complied (take k (sent (ep_client e))) (acks_of (buffer (chans (bus_core b) (ss_chan s))))"
proof -
  have w: "wired b" using bus_reachable_inv [OF start b] by (simp add: bus_inv_def)
  have "protocol_server_senders (bus_core b) cid = Some (ss_chan s)"
    by (rule linkedD(2) [OF bus_reachable_linked [OF start b] s])
  then have st: "in_step b cid s e"
    by (rule settledD(2) [OF bus_reachable_settled [OF start rt b] run s(1) e])
  obtain k where k: "k \<le> ep_read e"
    "queue_of (home b) (ss_transport s) (bus_tasks b) = drop k (take (ep_read e) (sent (ep_client e)))"
    using fifo_okD(1) [OF bus_reachable_fifo [OF start b] run e] unfolding queue_fifo_def by blast
  then have "ep_read e - length (queue_of (home b) (ss_transport s) (bus_tasks b)) = k"
    using read_sent [OF w e] by simp
  then have "processed b (ss_transport s) e = take k (sent (ep_client e))" by (simp add: processed_def)
  then show ?thesis using k st by (auto simp: in_step_def acks_given_def)
qed

text \<open>
  C4: the server does what it acknowledges, and nothing else: what a client that is being
  served is subscribed to and what it serves is, at every moment, the result of applying the
  messages that were acknowledged to it without an error, in the order it sent them; the
  acknowledgements are those of a beginning of what it sent, and what follows of what was
  read is still in the queue.
\<close>

theorem server_follows_acknowledgements:
  assumes start: "regex_engine rx" "core_new rx = returns c" "hash_iteration ord"
    and rt: "hash_iteration (hash_order rt)" and b: "bus_reachable rt ord allowed c b"
    and run: "bus_outcome b = Running" and s: "bus_sessions b cid = Some s" "ss_serving s"
    and e: "bus_endpoints b (ss_transport s) = Some e"
  shows "\<exists>k \<le> ep_read e. let ms = take k (sent (ep_client e));
       as = acks_of (buffer (chans (bus_core b) (ss_chan s))) in
     queue_of (home b) (ss_transport s) (bus_tasks b) = drop k (take (ep_read e) (sent (ep_client e))) \<and>
     map ack_msg_id as = map mid ms \<and> holdings cid (bus_core b) = complied ms as"
  using server_follows_acknowledgements_lemma [OF assms] by (simp add: Let_def)

lemma delivered_holder:
  "map_option (\<lambda>s. (ss_serving s, ss_transport s, ss_chan s)) (bus_sessions delivered_bus 2) = Some (True, 1, 1)"
  "acks_of (buffer (chans (bus_core delivered_bus) 1)) = [\<lparr>ack_msg_id = 1, ack_err = None, num_recipients = None\<rparr>]"
  "map_option (\<lambda>s. content (hd (cs_sent (ss_stub s)))) (bus_sessions delivered_bus 2) =
     Some (ServerAck \<lparr>ack_msg_id = 1, ack_err = None, num_recipients = None\<rparr>)"
  "map_option (\<lambda>e. (ep_outcome e, ep_got e, sent (ep_client e))) (bus_endpoints delivered_bus 1) =
     Some (ClientRunning, 2, [Msg 1 (ClientSub (SubMsg demo_topic))])"
  by code_simp+

theorem server_follows_acknowledgements_witness:
  "holdings 2 (bus_core delivered_bus) = ({demo_topic}, {})"
proof -
  obtain s where s: "bus_sessions delivered_bus 2 = Some s" "ss_serving s" "ss_transport s = 1" "ss_chan s = 1"
    using delivered_holder(1) by auto
  obtain e where e: "bus_endpoints delivered_bus 1 = Some e"
    "sent (ep_client e) = [Msg 1 (ClientSub (SubMsg demo_topic))]"
    using delivered_holder(4) by auto
  have "bus_outcome delivered_bus = Running" using delivered_facts(1) by simp
  from server_follows_acknowledgements [OF demo_start demo_hash demo_exec_reachable [OF delivery_runs(2)] this
      s(1,2), unfolded s(3,4), OF e(1)]
  obtain k where k: "map mid (take k (sent (ep_client e))) = [1]"
    "holdings 2 (bus_core delivered_bus) = complied (take k (sent (ep_client e)))
      [\<lparr>ack_msg_id = 1, ack_err = None, num_recipients = None\<rparr>]"
    unfolding delivered_holder(2) Let_def by force
  then have "take k (sent (ep_client e)) = sent (ep_client e)" using e(2) by (cases k) simp_all
  then show ?thesis using k(2) e(2) by (simp add: complied_def)
qed

section \<open>What was granted is in force\<close>

text \<open>
  C6: what a client was told is in force. When a client has received the acknowledgement of
  its subscription and has not sent the opposite since, the server's search for the
  subscribers of any topic the pattern meets finds the client; when it has received that of
  its claim of a topic without a wildcard, and has not given it up, requests go to it.
\<close>

theorem acknowledged_is_in_force:
  assumes start: "regex_engine rx" "core_new rx = returns c" "hash_iteration ord"
    and rt: "hash_iteration (hash_order rt)" and b: "bus_reachable rt ord allowed c b"
    and run: "bus_outcome b = Running" and s: "bus_sessions b cid = Some s" "ss_serving s"
    and e: "bus_endpoints b (ss_transport s) = Some e" "ep_outcome e = ClientRunning"
    and m: "sent (ep_client e) = xs @ m # ys"
    and ack: "Msg j (ServerAck a) \<in> set (take (ep_got e) (cs_sent (ss_stub s)))" "ack_msg_id a = mid m"
      "ack_err a = None"
  shows "(\<forall>u t. content m = ClientSub (SubMsg u) \<and> (\<forall>y \<in> set ys. content y \<noteq> ClientUnsub (UnsubMsg u)) \<and>
      topic_overlap u t \<longrightarrow> cid \<in> set (get_subscribers (hash_order rt) t (directory (bus_core b)))) \<and>
    (\<forall>u. content m = ClientSrv (SrvMsg u) \<and> (\<forall>y \<in> set ys. content y \<noteq> ClientUnsrv (UnsrvMsg u)) \<and>
      \<not> topic_wild u \<longrightarrow> get_owner u (directory (bus_core b)) = Some cid)"
proof -
  have inv: "wired b" "within_ids b" using bus_reachable_inv [OF start b] by (simp_all add: bus_inv_def)
  let ?as = "acks_of (buffer (chans (bus_core b) (ss_chan s)))"
  obtain k where k: "map ack_msg_id ?as = map mid (take k (sent (ep_client e)))"
    "holdings cid (bus_core b) = complied (take k (sent (ep_client e))) ?as"
    using server_follows_acknowledgements_lemma [OF start rt b run s e(1)] by blast
  obtain i where "cs_sent (ss_stub s) = take i (buffer (chans (bus_core b) (ss_chan s)))"
    using got_in_channel(2) [OF inv(1) bus_reachable_fifo [OF start b] s(1) e(1)] by blast
  then have "Msg j (ServerAck a) \<in> set (buffer (chans (bus_core b) (ss_chan s)))"
    using ack(1) by (auto dest!: in_set_takeD)
  then have a: "a \<in> set ?as" by (force simp: acks_of_def set_map_filter)
  have "numbered (ep_client e)" using wiredD(7) [OF inv(1) e(1)] e(2) by (simp add: endpoint_ok_def client_ok_def)
  moreover have "length (sent (ep_client e)) < 2 ^ 32" using inv(2) e(1) by (fastforce simp: within_ids_def)
  ultimately have "distinct (map mid (take k (sent (ep_client e)) @ drop k (sent (ep_client e))))"
    using numbered_distinct by simp
  then obtain bs cs zs where p: "?as = bs @ a # cs" "take k (sent (ep_client e)) = xs @ m # zs"
    "length bs = length xs" "set zs \<subseteq> set ys"
    by (rule same_position [OF k(1) _ _ a ack(2), OF _ append_take_drop_id [THEN trans, OF m]])
  have h: "holdings cid (bus_core b) = comply_all (zip zs cs) (obey (content m) (complied xs bs))"
    unfolding k(2) p(1,2) using complied_split p(3) ack(3) by simp
  have dir: "dir_inv (directory (bus_core b))" using wiredD(1) [OF inv(1)] by simp
  show ?thesis
  proof (intro conjI allI impI; elim conjE)
    fix u t assume u: "content m = ClientSub (SubMsg u)" "\<forall>y \<in> set ys. content y \<noteq> ClientUnsub (UnsubMsg u)"
      and t: "topic_overlap u t"
    have "u \<in> fst (obey (content m) (complied xs bs))" using u(1) by (cases "complied xs bs") simp
    then have "u \<in> fst (holdings cid (bus_core b))" unfolding h by (rule comply_all_keeps(1)) (use u p(4) in auto)
    then have "cid \<in> matching (directory (bus_core b)) t"
      using t matching_eq [OF dir] by (auto simp: holdings_def)
    then show "cid \<in> set (get_subscribers (hash_order rt) t (directory (bus_core b)))"
      using hash_iteration.set_ord [OF rt finite_matching [OF dir]] by (simp add: get_subscribers_eq)
  next
    fix u assume u: "content m = ClientSrv (SrvMsg u)" "\<forall>y \<in> set ys. content y \<noteq> ClientUnsrv (UnsrvMsg u)"
      and t: "\<not> topic_wild u"
    have "u \<in> snd (obey (content m) (complied xs bs))" using u(1) t by (cases "complied xs bs") simp
    then have "u \<in> snd (holdings cid (bus_core b))" unfolding h by (rule comply_all_keeps(2)) (use u p(4) in auto)
    then show "get_owner u (directory (bus_core b)) = Some cid" using t by (simp add: get_owner_eq holdings_def)
  qed
qed

theorem acknowledged_is_in_force_witness:
  "2 \<in> set (get_subscribers ascending demo_topic (directory (bus_core delivered_bus)))"
proof -
  obtain s where s: "bus_sessions delivered_bus 2 = Some s" "ss_serving s" "ss_transport s = 1"
    "content (hd (cs_sent (ss_stub s))) = ServerAck \<lparr>ack_msg_id = 1, ack_err = None, num_recipients = None\<rparr>"
    using delivered_holder(1,3) by auto
  obtain e where e: "bus_endpoints delivered_bus 1 = Some e" "ep_outcome e = ClientRunning" "ep_got e = 2"
    "sent (ep_client e) = [] @ Msg 1 (ClientSub (SubMsg demo_topic)) # []"
    using delivered_holder(4) by auto
  have "cs_sent (ss_stub s) \<noteq> []"
    using delivered_facts(3) s(1) by auto
  then have "Msg (mid (hd (cs_sent (ss_stub s)))) (ServerAck \<lparr>ack_msg_id = 1, ack_err = None, num_recipients = None\<rparr>)
      \<in> set (take (ep_got e) (cs_sent (ss_stub s)))"
    using s(4) e(3) by (cases "cs_sent (ss_stub s)") (auto simp: msg.expand)
  moreover have "bus_outcome delivered_bus = Running" using delivered_facts(1) by simp
  moreover have "topic_overlap demo_topic demo_topic" by code_simp
  ultimately show ?thesis
    using acknowledged_is_in_force [OF demo_start demo_hash demo_exec_reachable [OF delivery_runs(2)] _ s(1,2),
      unfolded s(3), OF _ e(1,2,4)]
    by (auto simp: demo_runtime_def)
qed

section \<open>At rest nothing is left open\<close>

text \<open>
  C11: at rest every message has been answered and obeyed. When the bus has come to rest with
  its server running, the acknowledgements that a running client has received through its
  session are for all the messages it has sent, one for each, in the order it sent them, and
  what it holds at the server is exactly what these messages, so answered, add up to; no
  task is left for the server.
\<close>

theorem everything_answered_at_rest:
  assumes start: "regex_engine rx" "core_new rx = returns c" "hash_iteration ord"
    and rt: "hash_iteration (hash_order rt)" and b: "bus_reachable rt ord allowed c b"
    and run: "bus_outcome b = Running" and rest: "at_rest rt ord b"
    and s: "bus_sessions b cid = Some s" "ss_serving s"
    and e: "bus_endpoints b (ss_transport s) = Some e" "ep_outcome e = ClientRunning"
  shows "let as = acks_of (take (ep_got e) (cs_sent (ss_stub s))) in
     map ack_msg_id as = map mid (sent (ep_client e)) \<and>
     holdings cid (bus_core b) = complied (sent (ep_client e)) as \<and> bus_tasks b = []"
proof -
  have w: "wired b" using bus_reachable_inv [OF start b] by (simp add: bus_inv_def)
  note r = at_rest_session [OF w bus_reachable_fifo [OF start b] rest s e(1)] and q = at_rest_empty [OF rest run]
  obtain k where k: "k \<le> ep_read e"
    "queue_of (home b) (ss_transport s) (bus_tasks b) = drop k (take (ep_read e) (sent (ep_client e)))"
    "map ack_msg_id (acks_of (buffer (chans (bus_core b) (ss_chan s)))) = map mid (take k (sent (ep_client e)))"
    "holdings cid (bus_core b) =
       complied (take k (sent (ep_client e))) (acks_of (buffer (chans (bus_core b) (ss_chan s))))"
    using server_follows_acknowledgements_lemma [OF start rt b run s e(1)] by blast
  have "k = length (sent (ep_client e))" using k(1,2) r(1) q by simp
  moreover have "take (ep_got e) (cs_sent (ss_stub s)) = buffer (chans (bus_core b) (ss_chan s))"
    using r(2) r(3) [OF e(2)] by simp
  ultimately show ?thesis using k(3,4) q by (simp add: Let_def)
qed

theorem everything_answered_at_rest_witness:
  "\<exists>s e. bus_sessions delivered_bus 2 = Some s \<and> bus_endpoints delivered_bus 1 = Some e \<and>
     map ack_msg_id (acks_of (take (ep_got e) (cs_sent (ss_stub s)))) = [1] \<and>
     holdings 2 (bus_core delivered_bus) = complied [Msg 1 (ClientSub (SubMsg demo_topic))]
       (acks_of (take (ep_got e) (cs_sent (ss_stub s))))"
proof -
  obtain s where s: "bus_sessions delivered_bus 2 = Some s" "ss_serving s" "ss_transport s = 1"
    using delivered_holder(1) by auto
  obtain e where e: "bus_endpoints delivered_bus 1 = Some e" "ep_outcome e = ClientRunning"
    "sent (ep_client e) = [Msg 1 (ClientSub (SubMsg demo_topic))]"
    using delivered_holder(4) by auto
  have "bus_outcome delivered_bus = Running" using delivered_facts(1) by simp
  from everything_answered_at_rest [OF demo_start demo_hash demo_exec_reachable [OF delivery_runs(2)] this
      delivered_at_rest s(1,2), unfolded s(3), OF e(1,2)]
  show ?thesis using s(1) e(1,3) by (simp add: Let_def)
qed

end
