(* ===== verification/Client_Forgetting.thy ===== *)
theory Client_Forgetting
  imports Bus_Clients
begin

text \<open>
  What the client core never forgets: the callback that waits for the response to a request
  leaves its table only with a response to that request, so one whose request was refused
  stays there for the rest of the client's life.
\<close>

definition answers_to :: "u32 \<Rightarrow> client_event \<Rightarrow> bool" where
  "answers_to i ev \<longleftrightarrow> (\<exists>m r. ev = FromServer (Inr m) \<and> content m = ServerRsp r \<and> rsp_req_id r = i)"

lemma client_step_waits:
  assumes "client_step ord ev c = (ClientRunning, c')" and "\<not> answers_to i ev"
    and "i \<in> dom (callbacks_rsp c)"
  shows "i \<in> dom (callbacks_rsp c')"
  using client_step_effect [OF assms(1)] assms(2,3)
  by (auto simp: client_effect_def calm_def answers_to_def
      split: client_event.splits sum.splits protocol_server.splits client_task.splits)

lemma client_run_waits:
  assumes "client_run ord es c = (ClientRunning, c')" and "\<forall>ev \<in> set es. \<not> answers_to i ev"
    and "i \<in> dom (callbacks_rsp c)"
  shows "i \<in> dom (callbacks_rsp c')"
  using assms
proof (induction es arbitrary: c)
  case (Cons ev es)
  obtain c1 where s: "client_step ord ev c = (ClientRunning, c1)"
    and r: "client_run ord es c1 = (ClientRunning, c')"
    using Cons.prems(1) by (auto split: prod.splits client_outcome.splits)
  show ?case
    by (rule Cons.IH [OF r]) (use Cons.prems(2,3) client_step_waits [OF s] in auto)
qed simp

text \<open>
  C29: a request the server refuses is never forgotten: its acknowledgement, which carries the
  error to the caller, is taken from the table of acknowledgements, but the callback for the
  response stays in the client's table as long as the client runs, since a refused request
  has no response.
\<close>

theorem refused_request_is_never_forgotten:
  assumes "client_send (TaskReq q a h) c = returns (Inr (), c1)" and "i = cl_next_msg_id c1"
    and "client_step ord (FromServer (Inr (Msg j (ServerAck
      \<lparr>ack_msg_id = i, ack_err = Some e, num_recipients = None\<rparr>)))) c1 = (ClientRunning, c2)"
    and "client_run ord es c2 = (ClientRunning, c3)" and "\<forall>ev \<in> set es. \<not> answers_to i ev"
  shows "callbacks_ack c2 i = None \<and> i \<in> dom (callbacks_rsp c3)"
proof
  have "callbacks_ack c1 i = Some a \<and> callbacks_rsp c1 i = Some h"
    using assms(1,2) by (auto simp: client_send_def before_send_def transport_send_def Let_def split: option.splits)
  then have "i \<in> dom (callbacks_rsp c1)" "callbacks_ack c2 i = None"
    using assms(3) by (auto simp: client_step_def after_receive_def)
  moreover have "i \<in> dom (callbacks_rsp c2)"
    by (rule client_step_waits [OF assms(3) _ calculation(1)]) (simp add: answers_to_def)
  ultimately show "callbacks_ack c2 i = None" "i \<in> dom (callbacks_rsp c3)"
    using client_run_waits [OF assms(4,5)] by blast+
qed

theorem refused_request_is_never_forgotten_witness:
  "1 \<in> dom (callbacks_rsp (snd (client_run ascending
     [FromClient (TaskReq demo_req 0 0),
      FromServer (Inr (Msg 7 (ServerAck \<lparr>ack_msg_id = 1, ack_err = Some (ServiceNotFound demo_topic), num_recipients = None\<rparr>))),
      KeepAliveTick, KeepAliveTick] demo_client)))"
proof -
  let ?ack = "FromServer (Inr (Msg 7 (ServerAck
    \<lparr>ack_msg_id = 1, ack_err = Some (ServiceNotFound demo_topic), num_recipients = None\<rparr>)))"
  let ?es = "[KeepAliveTick, KeepAliveTick]"
  have "fst (client_run ascending (FromClient (TaskReq demo_req 0 0) # ?ack # ?es) demo_client) = ClientRunning"
    by code_simp
  then obtain c1 c2 c3 where s: "client_step ascending (FromClient (TaskReq demo_req 0 0)) demo_client = (ClientRunning, c1)"
    and r: "client_step ascending ?ack c1 = (ClientRunning, c2)" "client_run ascending ?es c2 = (ClientRunning, c3)"
    by (auto split: prod.splits client_outcome.splits)
  have c1: "client_send (TaskReq demo_req 0 0) demo_client = returns (Inr (), c1)"
    using s by (auto simp: client_step_def split: option.splits sum.splits)
  then have "1 = cl_next_msg_id c1"
    by (auto simp: client_send_def before_send_def transport_send_def demo_client_def client_start_def Let_def)
  from refused_request_is_never_forgotten [OF c1 this r] show ?thesis
    using s r by (simp add: answers_to_def)
qed

end
