(* ===== verification/Client_Services.thy ===== *)
theory Client_Services
  imports Client_Api_Properties Bus_System "HOL-Library.Multiset"
begin

text \<open>
  The services of a client as its callers handle them: whatever the calls of the public
  interface are and however they end, the tasks they send to the main loop give up a
  service only after they have claimed it, and once for each claim. This is what
  \<open>client_offered\<close> takes of a client's callers in the model of the whole bus, where
  \<open>ep_services\<close> is what the tasks taken so far leave to give up.
\<close>

section \<open>Tasks in order\<close>

fun services_left :: "client_task list \<Rightarrow> topic list \<Rightarrow> topic list option" where
  \<comment> \<open>what is left to give up after the tasks, if each of them gives up only what is held\<close>
  "services_left [] ts = Some ts"
| "services_left (task # tasks) ts =
     (if gives_up_held task ts then services_left tasks (services_after (FromClient task) ts) else None)"

lemma services_left_append:
  "services_left (xs @ ys) ts = (case services_left xs ts of None \<Rightarrow> None | Some us \<Rightarrow> services_left ys us)"
  by (induction xs arbitrary: ts) (simp_all split: option.split)

lemma services_left_prefix:
  \<comment> \<open>so each task meets the condition when its turn comes\<close>
  "services_left (xs @ task # ys) ts \<noteq> None \<Longrightarrow>
   \<exists>us. services_left xs ts = Some us \<and> gives_up_held task us"
  by (auto simp: services_left_append split: option.splits if_splits)

section \<open>The calls\<close>

definition plain_call :: "client \<Rightarrow> client \<Rightarrow> bool" where
  \<comment> \<open>whatever it sends concerns no service\<close>
  "plain_call cl cl' \<longleftrightarrow> (\<exists>ts. cl_tasks cl' = cl_tasks cl @ ts \<and>
     (\<forall>t \<in> set ts. \<forall>us. gives_up_held t us \<and> services_after (FromClient t) us = us))"

lemma plain_callI:
  "cl_tasks cl' = cl_tasks cl @ ts \<Longrightarrow>
   (\<And>t us. t \<in> set ts \<Longrightarrow> gives_up_held t us \<and> services_after (FromClient t) us = us) \<Longrightarrow> plain_call cl cl'"
  unfolding plain_call_def by blast

lemma plain_call_same: "cl_tasks cl' = cl_tasks cl \<Longrightarrow> plain_call cl cl'"
  by (rule plain_callI [of _ _ "[]"]) simp_all

lemma plain_call_fresh: "fresh_handle cl = (h, cl1) \<Longrightarrow> plain_call cl1 cl' = plain_call cl cl'"
  by (auto simp: fresh_handle_def plain_call_def)

lemma plain_call_send:
  assumes "\<And>us. gives_up_held t us \<and> services_after (FromClient t) us = us"
  shows "plain_call cl (snd (send_to_loop t cl))"
  using assms by (cases "cl_loop_alive cl") (auto intro: plain_callI [of _ _ "[t]"] plain_call_same)

text \<open>Every call but \<open>serve\<close> and the drop of its subscription is plain.\<close>

lemma plain_calls:
  "plain_call cl (snd (publish_bytes gz_enc acks t d cl))"
  "plain_call cl (snd (send_request gz_enc acks rsps t d cl))"
  "plain_call cl (snd (respond_with gz_enc acks i st d cl))"
  "plain_call cl (snd (subscribe_bytes_into acks t h cl))"
  "plain_call cl (snd (drop_subscription_into s cl))"
  "plain_call cl (snd (stop_bus acks cl))"
  "plain_call cl (snd (stop_client out text cl))"
  by (auto simp: api_defs drop_subscription_into_def stop_client_def plain_call_def send_to_loop_def
      split: option.split sum.split nat.split awaited.split client_outcome.split)

lemma plain_typed_calls:
  "plain_call cl (snd (publish rx gz_enc P acks p v cl))"
  "plain_call cl (snd (request_bytes gz_enc gz_dec acks rsps t d cl))"
  "plain_call cl (snd (request rx gz_enc gz_dec P acks rsps p v cl))"
  "plain_call cl (snd (respond gz_enc P acks i w cl))"
proof -
  show "plain_call cl (snd (publish rx gz_enc P acks p v cl))"
    using plain_calls(1) by (auto simp: publish_def plain_call_same split: sum.split)
  obtain q cl1 where r: "send_request gz_enc acks rsps t d cl = (q, cl1)" by fastforce
  have "snd (request_bytes gz_enc gz_dec acks rsps t d cl) = cl1"
    using r by (simp add: request_bytes_def split: call.split sum.split option.split)
  then show "plain_call cl (snd (request_bytes gz_enc gz_dec acks rsps t d cl))"
    using plain_calls(2) [of cl gz_enc acks rsps t d] r by simp
  show "plain_call cl (snd (request rx gz_enc gz_dec P acks rsps p v cl))"
  proof (cases "topic_new rx (proto_prefix P) p")
    case (Inr u)
    show ?thesis
    proof (cases "ser (write_value P) v")
      case (Inr d)
      obtain q cl1 where r: "send_request gz_enc acks rsps u d cl = (q, cl1)" by fastforce
      have "snd (request rx gz_enc gz_dec P acks rsps p v cl) = cl1"
        using \<open>topic_new rx (proto_prefix P) p = Inr u\<close> Inr r
        by (simp add: request_def split: call.split sum.split)
      then show ?thesis using plain_calls(2) [of cl gz_enc acks rsps u d] r by simp
    qed (simp add: request_def \<open>topic_new rx (proto_prefix P) p = Inr u\<close> plain_call_same)
  qed (simp add: request_def plain_call_same)
  show "plain_call cl (snd (respond gz_enc P acks i w cl))"
    using plain_calls(3) by (auto simp: respond_def plain_call_same split: sum.split)
qed

lemma plain_subscribe_into: "plain_call cl (snd (subscribe_into rx P acks p cl))"
proof (cases "topic_new rx (proto_prefix P) p")
  case (Inr t)
  then show ?thesis
    by (auto simp: subscribe_into_def fresh_handle_def Let_def plain_call_def send_to_loop_def split: sum.split)
qed (simp add: subscribe_into_def plain_call_same)

lemma plain_subscriptions:
  "plain_call cl (snd (subscribe_bytes acks t cl))"
  "plain_call cl (snd (client_subscribe rx P acks p cl))"
proof -
  obtain h cl1 where f: "fresh_handle cl = (h, cl1)" by fastforce
  obtain q cl2 where s: "subscribe_bytes_into acks t h cl1 = (q, cl2)" by fastforce
  then have "snd (subscribe_bytes acks t cl) = cl2"
    using f by (simp add: subscribe_bytes_def split: call.split sum.split)
  then show "plain_call cl (snd (subscribe_bytes acks t cl))"
    using plain_calls(4) [of cl1 acks t h] s plain_call_fresh [OF f] by simp
  obtain r cl3 where t: "subscribe_into rx P acks p cl1 = (r, cl3)" by fastforce
  then have "snd (client_subscribe rx P acks p cl) = cl3"
    using f by (simp add: client_subscribe_def split: call.split sum.split)
  then show "plain_call cl (snd (client_subscribe rx P acks p cl))"
    using plain_subscribe_into [of cl1 rx P acks p] t plain_call_fresh [OF f] by simp
qed

section \<open>Callers\<close>

text \<open>
  A program over the client: any calls in any order, with whatever the acknowledgements and
  responses turn out to be, the services it still holds, and the main loop ending at any
  moment. \<open>Ps\<close> are the protocols it uses, with the sum of their types as the type of values.
\<close>

inductive caller_step ::
    "(rexp \<Rightarrow> string \<Rightarrow> bool) \<Rightarrow> ('r, 's) protocol_of set \<Rightarrow> client \<times> request_subscription list \<Rightarrow>
     client \<times> request_subscription list \<Rightarrow> bool" for rx Ps where
  Serves:
    "P \<in> Ps \<Longrightarrow> serve rx P acks p cl = (Returned (Inr s), cl') \<Longrightarrow>
     caller_step rx Ps (cl, held) (cl', s # held)"
| ServeFails:
    "P \<in> Ps \<Longrightarrow> serve rx P acks p cl = (Returned (Inl e), cl') \<Longrightarrow>
     caller_step rx Ps (cl, held) (cl', held)"
| DropsService:
    "s \<in> set held \<Longrightarrow> caller_step rx Ps (cl, held) (snd (drop_request_subscription s cl), remove1 s held)"
| DropsSubscription:
    "caller_step rx Ps (cl, held) (snd (drop_subscription_into si cl), held)"
| Publishes:
    "P \<in> Ps \<Longrightarrow> caller_step rx Ps (cl, held) (snd (publish rx gz_enc P acks p v cl), held)"
| PublishesBytes:
    "caller_step rx Ps (cl, held) (snd (publish_bytes gz_enc acks t d cl), held)"
| Requests:
    "P \<in> Ps \<Longrightarrow> caller_step rx Ps (cl, held) (snd (request rx gz_enc gz_dec P acks rsps p v cl), held)"
| RequestsBytes:
    "caller_step rx Ps (cl, held) (snd (request_bytes gz_enc gz_dec acks rsps t d cl), held)"
| Responds:
    "P \<in> Ps \<Longrightarrow> caller_step rx Ps (cl, held) (snd (respond gz_enc P acks i w cl), held)"
| RespondsWith:
    "caller_step rx Ps (cl, held) (snd (respond_with gz_enc acks i st d cl), held)"
| Subscribes:
    "P \<in> Ps \<Longrightarrow> caller_step rx Ps (cl, held) (snd (client_subscribe rx P acks p cl), held)"
| SubscribesInto:
    "P \<in> Ps \<Longrightarrow> caller_step rx Ps (cl, held) (snd (subscribe_into rx P acks p cl), held)"
| SubscribesBytes:
    "caller_step rx Ps (cl, held) (snd (subscribe_bytes acks t cl), held)"
| SubscribesBytesInto:
    "caller_step rx Ps (cl, held) (snd (subscribe_bytes_into acks t h cl), held)"
| StopsBus:
    "caller_step rx Ps (cl, held) (snd (stop_bus acks cl), held)"
| StopsClient:
    "caller_step rx Ps (cl, held) (snd (stop_client out text cl), held)"
| LoopEnds:
    "caller_step rx Ps (cl, held) (cl\<lparr>cl_loop_alive := False\<rparr>, held)"

definition held_topics :: "request_subscription list \<Rightarrow> topic list" where
  "held_topics held = map (\<lambda>s. the (rs_topic s)) held"

definition in_order :: "client \<times> request_subscription list \<Rightarrow> bool" where
  "in_order x \<longleftrightarrow> (\<forall>s \<in> set (snd x). rs_topic s \<noteq> None) \<and>
     (\<exists>ts. services_left (cl_tasks (fst x)) [] = Some ts \<and> mset (held_topics (snd x)) \<subseteq># mset ts)"

lemma in_order_new: "in_order (new_client, [])"
  by (simp add: in_order_def new_client_def held_topics_def)

lemma plain_call_left:
  assumes "plain_call cl cl'"
  shows "services_left (cl_tasks cl') [] = services_left (cl_tasks cl) []"
proof -
  obtain ts where ts: "cl_tasks cl' = cl_tasks cl @ ts"
    "\<forall>t \<in> set ts. \<forall>us. gives_up_held t us \<and> services_after (FromClient t) us = us"
    using assms unfolding plain_call_def by blast
  have "services_left ts us = Some us" for us
    using ts(2) by (induction ts) simp_all
  then show ?thesis using ts(1) by (simp add: services_left_append split: option.split)
qed

lemma in_order_plain: "in_order (cl, held) \<Longrightarrow> plain_call cl cl' \<Longrightarrow> in_order (cl', held)"
  by (simp add: in_order_def plain_call_left)

lemma in_order_tasks:
  "in_order (cl, held) \<Longrightarrow> cl_tasks cl' = cl_tasks cl \<Longrightarrow> in_order (cl', held)"
  by (simp add: in_order_def)

text \<open>Claiming a topic, and giving it up.\<close>

lemma in_order_claim:
  assumes "in_order (cl, held)" and "cl_tasks cl' = cl_tasks cl @ [TaskSrv (SrvMsg t) a r]"
  shows "in_order (cl', \<lparr>rs_topic = Some t, rs_receiver = h\<rparr> # held)"
  using assms by (auto simp: in_order_def services_left_append held_topics_def)

lemma in_order_drop:
  assumes "in_order (cl, s # held)"
  shows "in_order (snd (drop_request_subscription s cl), held)"
proof -
  obtain t ts where t: "rs_topic s = Some t" and ts: "services_left (cl_tasks cl) [] = Some ts"
    "add_mset t (mset (held_topics held)) \<subseteq># mset ts" and rest: "\<forall>s \<in> set held. rs_topic s \<noteq> None"
    using assms by (auto simp: in_order_def held_topics_def)
  have "mset (held_topics held) \<subseteq># mset ts - {#t#}" using ts(2) by (simp add: insert_subset_eq_iff)
  moreover have "t \<in> set ts" "mset (held_topics held) \<subseteq># mset ts"
    using mset_subset_eq_insertD [OF ts(2)] by (auto intro: subset_mset.less_imp_le)
  ultimately show ?thesis using t ts(1) rest
    by (cases "cl_loop_alive cl")
       (simp_all add: drop_request_subscription_def in_order_def services_left_append)
qed

lemma in_order_permute:
  assumes "mset held = mset held'" and "in_order (cl, held)"
  shows "in_order (cl, held')"
  using assms(2) mset_eq_setD [OF assms(1)] by (simp add: in_order_def held_topics_def assms(1))

lemma serve_in_order:
  assumes "in_order (cl, held)" and "serve rx P acks p cl = (res, cl')"
  shows "case res of Returned (Inr s) \<Rightarrow> in_order (cl', s # held) | _ \<Rightarrow> in_order (cl', held)"
proof (cases "topic_new rx (proto_prefix P) p")
  case (Inl e)
  then show ?thesis using assms by (auto simp: serve_def)
next
  case (Inr t)
  let ?cl = "cl\<lparr>cl_fresh := cl_fresh cl + 3\<rparr>"
  let ?s = "\<lparr>rs_topic = Some t, rs_receiver = cl_fresh cl + 2\<rparr>"
  let ?task = "TaskSrv (SrvMsg t) (cl_fresh cl) (cl_fresh cl + 1)"
  have sv: "serve rx P acks p cl = (case send_to_loop ?task ?cl of
        (Inl e, c) \<Rightarrow> (Returned (Inl e), snd (drop_request_subscription ?s c))
      | (Inr _, c) \<Rightarrow> (case expect_ack (acks (cl_fresh cl)) of
           Inl e \<Rightarrow> (Returned (Inl e), snd (drop_request_subscription ?s c))
         | Inr _ \<Rightarrow> (Returned (Inr ?s), c)))"
    using Inr by (cases "cl_loop_alive cl")
      (simp_all add: serve_def fresh_handle_def Let_def numeral_3_eq_3 numeral_2_eq_2 split: sum.split)
  show ?thesis
  proof (cases "cl_loop_alive cl")
    case True
    let ?cl1 = "?cl\<lparr>cl_tasks := cl_tasks cl @ [?task]\<rparr>"
    have c: "in_order (?cl1, ?s # held)" by (rule in_order_claim [OF assms(1)]) simp
    show ?thesis using True sv assms(2) c in_order_drop [OF c] by (auto split: sum.splits)
  next
    case False
    then have "cl' = ?cl" "\<exists>e. res = Returned (Inl e)"
      using sv assms(2) by (auto simp: drop_request_subscription_def)
    then show ?thesis using in_order_tasks [OF assms(1), of ?cl] by auto
  qed
qed

lemma caller_step_in_order:
  assumes "caller_step rx Ps x y" and "in_order x"
  shows "in_order y"
  using assms
proof (induction rule: caller_step.induct)
  case (Serves P acks p cl s cl' held)
  then show ?case using serve_in_order [OF _ Serves(2)] by simp
next
  case (ServeFails P acks p cl e cl' held)
  then show ?case using serve_in_order [OF _ ServeFails(2)] by simp
next
  case (DropsService s held cl)
  have "in_order (cl, s # remove1 s held)"
    by (rule in_order_permute [OF _ DropsService(2)]) (use DropsService(1) in simp)
  then show ?case by (rule in_order_drop)
next
  case (LoopEnds cl held)
  then show ?case by (rule in_order_tasks) simp
qed (rule in_order_plain, assumption,
  rule plain_calls plain_typed_calls plain_subscribe_into plain_subscriptions)+

interpretation callers: transition_system "\<lambda>x. x = (new_client, [])" "caller_step rx Ps" in_order for rx Ps
  by unfold_locales (auto intro: in_order_new caller_step_in_order)


lemma callers_in_order:
  "(caller_step rx Ps)\<^sup>*\<^sup>* (new_client, []) x \<Longrightarrow> in_order x"
  by (rule callers.reachable_inv) simp_all

text \<open>
  When the main loop has taken some of the tasks, the next one meets the condition of
  \<open>client_offered\<close> for what those taken have left to give up.
\<close>

lemma callers_offered:
  assumes "(caller_step rx Ps)\<^sup>*\<^sup>* (new_client, []) (cl, held)" and "cl_tasks cl = taken @ task # rest"
  shows "\<exists>us. services_left taken [] = Some us \<and> gives_up_held task us"
  using callers_in_order [OF assms(1)] assms(2) services_left_prefix [of taken task rest "[]"]
  by (auto simp: in_order_def)

section \<open>One release for each claim\<close>

fun claims :: "topic \<Rightarrow> client_task \<Rightarrow> bool" where
  "claims t (TaskSrv m _ _) \<longleftrightarrow> srv_topic m = t"
| "claims t _ \<longleftrightarrow> False"

fun releases :: "topic \<Rightarrow> client_task \<Rightarrow> bool" where
  "releases t (TaskUnsrv m) \<longleftrightarrow> unsrv_topic m = t"
| "releases t _ \<longleftrightarrow> False"

definition how_many :: "('a \<Rightarrow> bool) \<Rightarrow> 'a list \<Rightarrow> nat" where
  "how_many P xs = length (filter P xs)"

lemma count_list_removed:
  "x \<in> set xs \<Longrightarrow> count_list xs t = count_list (remove1 x xs) t + (if x = t then 1 else 0)"
  by (induction xs) auto

lemma services_left_count:
  "services_left xs ts = Some us \<Longrightarrow>
   count_list us t + how_many (releases t) xs = count_list ts t + how_many (claims t) xs"
proof (induction xs arbitrary: ts)
  case (Cons task xs)
  have IH: "count_list us t + how_many (releases t) xs =
      count_list (services_after (FromClient task) ts) t + how_many (claims t) xs"
    using Cons by (simp split: if_splits)
  show ?case
  proof (cases task)
    case (TaskUnsrv m)
    then have "unsrv_topic m \<in> set ts" using Cons.prems by (simp split: if_splits)
    then have "count_list ts t = count_list (remove1 (unsrv_topic m) ts) t + (if unsrv_topic m = t then 1 else 0)"
      by (rule count_list_removed)
    then show ?thesis using IH TaskUnsrv by (simp add: how_many_def del: count_list_remove1)
  qed (use IH in \<open>simp_all add: how_many_def\<close>)
qed (simp add: how_many_def)

text \<open>
  C40: services are claimed before they are given up, and given up once. Whatever calls a
  program makes and however they end, among the tasks the main loop gets, each that gives up
  a topic comes after more tasks that claim the topic than give it up; and for each service
  object the program still holds there is a claim that has not been given up.
\<close>

theorem services_given_up_once:
  assumes "(caller_step rx Ps)\<^sup>*\<^sup>* (new_client, []) (cl, held)"
  shows "(\<forall>xs m ys. cl_tasks cl = xs @ TaskUnsrv m # ys \<longrightarrow>
      how_many (releases (unsrv_topic m)) xs < how_many (claims (unsrv_topic m)) xs) \<and>
    (\<forall>t. how_many (\<lambda>s. rs_topic s = Some t) held + how_many (releases t) (cl_tasks cl) \<le>
      how_many (claims t) (cl_tasks cl))"
proof (intro conjI allI impI)
  fix xs m ys assume "cl_tasks cl = xs @ TaskUnsrv m # ys"
  from callers_offered [OF assms this]
  obtain us where us: "services_left xs [] = Some us" "unsrv_topic m \<in> set us" by auto
  then have "0 < count_list us (unsrv_topic m)" by (metis count_list_0_iff gr0I)
  then show "how_many (releases (unsrv_topic m)) xs < how_many (claims (unsrv_topic m)) xs"
    using services_left_count [OF us(1), of "unsrv_topic m"] by simp
next
  fix t
  obtain ts where ts: "services_left (cl_tasks cl) [] = Some ts" "mset (held_topics held) \<subseteq># mset ts"
    and some: "\<forall>s \<in> set held. rs_topic s \<noteq> None"
    using callers_in_order [OF assms] by (auto simp: in_order_def)
  have "how_many (\<lambda>s. rs_topic s = Some t) held = count_list (held_topics held) t"
    using some by (induction held) (auto simp: how_many_def held_topics_def)
  also have "\<dots> \<le> count_list ts t" using mset_subset_eq_count [OF ts(2), of t] by (simp add: count_mset)
  finally show "how_many (\<lambda>s. rs_topic s = Some t) held + how_many (releases t) (cl_tasks cl) \<le>
      how_many (claims t) (cl_tasks cl)"
    using services_left_count [OF ts(1), of t] by simp
qed

definition demo_granted :: "nat \<Rightarrow> ack_msg oneshot" where
  "demo_granted = (\<lambda>_. cell_with \<lparr>ack_msg_id = 1, ack_err = None, num_recipients = None\<rparr>)"

definition demo_served :: "request_subscription call \<times> client" where
  "demo_served = serve deriv_match demo_bytes_protocol demo_granted (Path ''a'') new_client"

lemma demo_served_facts:
  "case demo_served of (Returned (Inr s), cl) \<Rightarrow> cl_loop_alive cl \<and> rs_topic s \<noteq> None \<and>
     map (\<lambda>t. task_topic t) (cl_tasks cl) = [rs_topic s] \<and> how_many (claims (the (rs_topic s))) (cl_tasks cl) = 1
   | _ \<Rightarrow> False"
  by code_simp

theorem services_given_up_once_witness:
  "\<exists>s cl m. demo_served = (Returned (Inr s), cl) \<and>
     cl_tasks (snd (drop_request_subscription s cl)) = cl_tasks cl @ [TaskUnsrv m] \<and>
     how_many (releases (unsrv_topic m)) (cl_tasks cl) < how_many (claims (unsrv_topic m)) (cl_tasks cl)"
proof -
  obtain s cl t where s: "demo_served = (Returned (Inr s), cl)" "cl_loop_alive cl" "rs_topic s = Some t"
    using demo_served_facts by (auto split: prod.splits call.splits sum.splits)
  have "caller_step deriv_match {demo_bytes_protocol} (new_client, []) (cl, [s])"
    by (rule Serves [of demo_bytes_protocol]) (use s(1) in \<open>simp_all add: demo_served_def\<close>)
  moreover have "caller_step deriv_match {demo_bytes_protocol} (cl, [s])
      (snd (drop_request_subscription s cl), remove1 s [s])"
    by (rule DropsService) simp
  ultimately have "(caller_step deriv_match {demo_bytes_protocol})\<^sup>*\<^sup>* (new_client, [])
      (snd (drop_request_subscription s cl), remove1 s [s])"
    by (meson converse_rtranclp_into_rtranclp r_into_rtranclp)
  note all = services_given_up_once [OF this, THEN conjunct1, rule_format]
  have "cl_tasks (snd (drop_request_subscription s cl)) = cl_tasks cl @ TaskUnsrv (UnsrvMsg t) # []"
    using s(2,3) by (simp add: drop_request_subscription_def)
  then show ?thesis using all s(1) by blast
qed

end
