(* ===== verification/Unit_Tests.thy ===== *)
theory Unit_Tests
  imports Directory_Registry "HOL-Library.List_Lexorder" "HOL-Library.Char_ord"
begin

text \<open>
  The unit tests in \<open>topic.rs\<close> and \<open>directory.rs\<close>, as functions that panic where an assertion
  or an \<open>unwrap\<close> fails. The helpers of \<open>directory.rs\<close> that take an argument are shown to
  pass for every argument of the kind the authors tried, not only for those.
\<close>

section \<open>Assertions\<close>

definition unwrap :: "'a result \<Rightarrow> 'a run" where
  "unwrap r = (case r of Inl e \<Rightarrow> panic | Inr x \<Rightarrow> returns x)"

definition unwrap_err :: "'a result \<Rightarrow> bus_error run" where
  "unwrap_err r = (case r of Inl e \<Rightarrow> returns e | Inr x \<Rightarrow> panic)"

definition assert_that :: "bool \<Rightarrow> unit run" where
  "assert_that b = (if b then returns () else panic)"

lemma test_simps [simp]:
  "unwrap (Inr x) = returns x" "unwrap_err (Inl e) = returns e"
  "assert_that b = returns () \<longleftrightarrow> b" "b \<Longrightarrow> assert_that b = returns ()"
  by (simp_all add: unwrap_def unwrap_err_def assert_that_def)

section \<open>The directory's tests\<close>

definition test_topic :: "(rexp \<Rightarrow> string \<Rightarrow> bool) \<Rightarrow> string \<Rightarrow> topic run" where
  "test_topic rx p = do { p \<leftarrow> unwrap (path_from_str rx p); unwrap (topic_new rx ''p'' p) }"

fun subscribe_all :: "(rexp \<Rightarrow> string \<Rightarrow> bool) \<Rightarrow> u32 \<Rightarrow> string list \<Rightarrow> directory \<Rightarrow> directory run" where
  "subscribe_all rx i [] d = returns d"
| "subscribe_all rx i (t # ts) d = do {
     t \<leftarrow> test_topic rx t;
     d \<leftarrow> subscribe i t d;
     subscribe_all rx i ts d
   }"

fun subscribe_clients :: "(rexp \<Rightarrow> string \<Rightarrow> bool) \<Rightarrow> nat \<Rightarrow> string list list \<Rightarrow> directory \<Rightarrow> directory run" where
  "subscribe_clients rx i [] d = returns d"
| "subscribe_clients rx i (ts # tss) d = do {
     d \<leftarrow> subscribe_all rx (of_nat i) ts d;
     subscribe_clients rx (i + 1) tss d
   }"

fun assert_unsubscribed ::
    "(rexp \<Rightarrow> string \<Rightarrow> bool) \<Rightarrow> (u32 set \<Rightarrow> u32 list) \<Rightarrow> string list \<Rightarrow> directory \<Rightarrow> unit run" where
  "assert_unsubscribed rx ord [] d = returns ()"
| "assert_unsubscribed rx ord (t # ts) d = do {
     t \<leftarrow> test_topic rx t;
     assert_that (0 \<notin> set (get_subscribers ord t d));
     assert_unsubscribed rx ord ts d
   }"

definition test_drop_client_with ::
    "(rexp \<Rightarrow> string \<Rightarrow> bool) \<Rightarrow> (u32 set \<Rightarrow> u32 list) \<Rightarrow> string list list \<Rightarrow> unit run" where
  "test_drop_client_with rx ord subscriptions = do {
     d \<leftarrow> subscribe_clients rx 0 subscriptions directory_new;
     let (d, empty_topics) = drop_client 0 d;
     own \<leftarrow> (case subscriptions of [] \<Rightarrow> panic | own # _ \<Rightarrow> returns own);
     assert_that (\<forall>t \<in> set empty_topics. path_as_str (topic_path t) \<in> set own);
     assert_unsubscribed rx ord own d
   }"

definition test_drop_client_claim_with :: "(rexp \<Rightarrow> string \<Rightarrow> bool) \<Rightarrow> string \<Rightarrow> unit run" where
  "test_drop_client_claim_with rx p = do {
     t \<leftarrow> test_topic rx p;
     (r, d) \<leftarrow> claim 0 t directory_new;
     unwrap r;
     let (d, _) = drop_client 0 d;
     assert_that (get_owner t d = None)
   }"

definition test_ownership_happy_path :: "(rexp \<Rightarrow> string \<Rightarrow> bool) \<Rightarrow> string \<Rightarrow> unit run" where
  "test_ownership_happy_path rx p = do {
     t \<leftarrow> test_topic rx p;
     (r, d) \<leftarrow> claim 0 t directory_new;
     unwrap r;
     assert_that (get_owner t d = Some 0)
   }"

definition test_ownership_no_duplicate :: "(rexp \<Rightarrow> string \<Rightarrow> bool) \<Rightarrow> unit run" where
  "test_ownership_no_duplicate rx = do {
     t \<leftarrow> test_topic rx ''a'';
     (r, d) \<leftarrow> claim 0 t directory_new;
     unwrap r;
     (r, d) \<leftarrow> claim 1 t d;
     unwrap_err r;
     assert_that (get_owner t d = Some 0)
   }"

definition test_ownership_no_wildcard_with :: "(rexp \<Rightarrow> string \<Rightarrow> bool) \<Rightarrow> string \<Rightarrow> unit run" where
  "test_ownership_no_wildcard_with rx p = do {
     t \<leftarrow> test_topic rx p;
     (r, d) \<leftarrow> claim 0 t directory_new;
     unwrap_err r;
     assert_that (get_owner t d = None)
   }"

definition test_ownership_unclaim :: "(rexp \<Rightarrow> string \<Rightarrow> bool) \<Rightarrow> unit run" where
  "test_ownership_unclaim rx = do {
     t \<leftarrow> test_topic rx ''a'';
     (r, d) \<leftarrow> claim 0 t directory_new;
     unwrap r;
     let (r, d) = unclaim 0 t d;
     unwrap r;
     assert_that (get_owner t d = None);
     (r, d) \<leftarrow> claim 1 t d;
     unwrap r
   }"

definition assert_keys_match ::
    "(rexp \<Rightarrow> string \<Rightarrow> bool) \<Rightarrow> (u32 set \<Rightarrow> u32 list) \<Rightarrow> string \<Rightarrow> string \<Rightarrow> bool \<Rightarrow> unit run" where
  "assert_keys_match rx ord sub pub expect = do {
     s \<leftarrow> test_topic rx sub;
     p \<leftarrow> test_topic rx pub;
     d \<leftarrow> subscribe 0 s directory_new;
     assert_that (length (get_subscribers ord p d) = (if expect then 1 else 0))
   }"

definition assert_match ::
    "(rexp \<Rightarrow> string \<Rightarrow> bool) \<Rightarrow> (u32 set \<Rightarrow> u32 list) \<Rightarrow> string \<Rightarrow> string \<Rightarrow> bool \<Rightarrow> unit run" where
  \<comment> \<open>the closure of \<open>test_protocol_matching\<close>\<close>
  "assert_match rx ord sub publ expect = do {
     s \<leftarrow> unwrap (topic_from_str rx sub);
     d \<leftarrow> subscribe 0 s directory_new;
     p \<leftarrow> unwrap (topic_from_str rx publ);
     assert_that (of_bool expect = length (get_subscribers ord p d))
   }"

section \<open>They pass for every argument\<close>

abbreviation p_topic :: "string \<Rightarrow> topic" where
  "p_topic p \<equiv> \<lparr>protocol = ''p'', path_of = Path p\<rparr>"

lemma valid_p: "valid_protocol ''p''"
  by (simp add: valid_protocol_def is_word_def word_class_def)

lemma wf_p_topic: "wf_path (Path p) \<Longrightarrow> wf_topic (p_topic p)"
  by (simp add: wf_topic_def valid_p)

definition joined :: "nat \<Rightarrow> string list list \<Rightarrow> topic \<Rightarrow> u32 set" where
  \<comment> \<open>the clients, numbered from \<open>i\<close>, whose list names the topic\<close>
  "joined i pss u = {of_nat (i + j) |j. j < length pss \<and> (\<exists>p \<in> set (pss ! j). u = p_topic p)}"

lemma joined_Nil: "joined i [] u = {}"
  by (simp add: joined_def)

lemma joined_Cons:
  "joined i (ps # pss) u = (if \<exists>p \<in> set ps. u = p_topic p then {of_nat i} else {}) \<union> joined (i + 1) pss u"
    (is "?A = ?B \<union> ?C")
proof (intro equalityI subsetI)
  fix x assume "x \<in> ?A"
  then obtain j where "x = of_nat (i + j)" "j < length (ps # pss)" "\<exists>p \<in> set ((ps # pss) ! j). u = p_topic p"
    unfolding joined_def by blast
  then show "x \<in> ?B \<union> ?C" by (cases j) (auto simp: joined_def)
next
  fix x assume "x \<in> ?B \<union> ?C"
  then consider "x \<in> ?B" | j where "x = of_nat (i + Suc j)" "j < length pss" "\<exists>p \<in> set (pss ! j). u = p_topic p"
    by (auto simp: joined_def)
  then show "x \<in> ?A"
  proof cases
    case 1
    then show ?thesis unfolding joined_def by (intro CollectI exI [of _ 0]) (auto split: if_splits)
  next
    case (2 j)
    then show ?thesis unfolding joined_def by (intro CollectI exI [of _ "Suc j"]) auto
  qed
qed

context regex_engine
begin

lemma test_topic_valid: "wf_path (Path p) \<Longrightarrow> test_topic is_match p = returns (p_topic p)"
proof -
  assume "wf_path (Path p)"
  then have "path_from_str is_match p = Inr (Path p)" "topic_new is_match ''p'' (Path p) = Inr (p_topic p)"
    using path_new_Inr topic_new_Inr valid_p by (simp_all add: path_from_str_def)
  then show ?thesis by (simp add: test_topic_def)
qed

lemma subscribe_all_spec:
  assumes "dir_inv d" and "\<forall>p \<in> set ps. wf_path (Path p)"
  shows "\<exists>d'. subscribe_all is_match i ps d = returns d' \<and> dir_inv d' \<and>
    (\<forall>u. subs_of d' u = subs_of d u \<union> (if \<exists>p \<in> set ps. u = p_topic p then {i} else {}))"
  using assms
proof (induction ps arbitrary: d)
  case (Cons p ps)
  then have p: "wf_path (Path p)" by simp
  obtain d1 where d1: "subscribe i (p_topic p) d = returns d1" "dir_inv d1"
    "subs_of d1 = (subs_of d)(p_topic p := insert i (subs_of d (p_topic p)))"
    using tree.sub_law [OF Cons.prems(1) wf_p_topic [OF p]] by blast
  obtain d2 where d2: "subscribe_all is_match i ps d1 = returns d2" "dir_inv d2"
    "\<And>u. subs_of d2 u = subs_of d1 u \<union> (if \<exists>p \<in> set ps. u = p_topic p then {i} else {})"
    using Cons.IH [OF d1(2)] Cons.prems(2) by auto
  then show ?case using test_topic_valid [OF p] d1 by auto
qed simp

lemma subscribe_clients_spec:
  assumes "dir_inv d" and "\<forall>ps \<in> set pss. \<forall>p \<in> set ps. wf_path (Path p)"
  shows "\<exists>d'. subscribe_clients is_match i pss d = returns d' \<and> dir_inv d' \<and>
    (\<forall>u. subs_of d' u = subs_of d u \<union> joined i pss u)"
  using assms
proof (induction pss arbitrary: d i)
  case (Cons ps pss)
  have v: "\<forall>p \<in> set ps. wf_path (Path p)" using Cons.prems(2) by simp
  obtain d1 where d1: "subscribe_all is_match (of_nat i) ps d = returns d1" "dir_inv d1"
    "\<And>u. subs_of d1 u = subs_of d u \<union> (if \<exists>p \<in> set ps. u = p_topic p then {of_nat i} else {})"
    using subscribe_all_spec [OF Cons.prems(1) v] by blast
  obtain d2 where d2: "subscribe_clients is_match (i + 1) pss d1 = returns d2" "dir_inv d2"
    "\<And>u. subs_of d2 u = subs_of d1 u \<union> joined (i + 1) pss u"
    using Cons.IH [OF d1(2), of "i + 1"] Cons.prems(2) by auto
  have "subs_of d2 u = subs_of d u \<union> joined i (ps # pss) u" for u
    unfolding d2(3) d1(3) joined_Cons by blast
  then show ?case using d1(1) d2(1,2) by simp
qed (simp add: joined_Nil)

lemma assert_unsubscribed_spec:
  assumes "hash_iteration ord" and "dir_inv d" and "\<forall>p \<in> set ps. wf_path (Path p)" and "\<And>u. 0 \<notin> subs_of d u"
  shows "assert_unsubscribed is_match ord ps d = returns ()"
  using assms(3)
proof (induction ps)
  case (Cons p ps)
  have "0 \<notin> matching d (p_topic p)" using matching_eq [OF assms(2)] assms(4) by simp
  then have "0 \<notin> set (get_subscribers ord (p_topic p) d)"
    using hash_iteration.set_ord [OF assms(1) finite_matching [OF assms(2)]] by (simp add: get_subscribers_eq)
  then show ?case using Cons test_topic_valid by simp
qed simp

lemma drop_client_test_passes:
  assumes "hash_iteration ord" and "0 < length pss" "length pss < 2 ^ 32"
    and "\<forall>ps \<in> set pss. \<forall>p \<in> set ps. wf_path (Path p)"
  shows "test_drop_client_with is_match ord pss = returns ()"
proof -
  obtain own rest where pss: "pss = own # rest" using assms(2) by (cases pss) auto
  obtain d where d: "subscribe_clients is_match 0 pss directory_new = returns d" "dir_inv d"
    "\<And>u. subs_of d u = joined 0 pss u"
    using subscribe_clients_spec [OF dir_inv_new(1) assms(4), of 0] dir_inv_new(2) by auto
  obtain d' ts where d': "drop_client 0 d = (d', ts)" "dir_inv d'" "\<And>u. subs_of d' u = subs_of d u - {0}"
    "set ts = {u. subs_of d u = {0}}"
    by (rule drop_client_spec [OF d(2), of 0]) (rule that)
  have "path_as_str (topic_path u) \<in> set own" if "u \<in> set ts" for u
  proof -
    have "0 \<in> subs_of d u" using that d'(4) by auto
    then obtain j where j: "(0::u32) = of_nat j" "j < length pss" "\<exists>p \<in> set (pss ! j). u = p_topic p"
      unfolding d(3) joined_def by auto
    have "unat (of_nat j :: u32) = j" using j(2) assms(3) by (simp add: unsigned_of_nat take_bit_nat_eq_self)
    then have "j = 0" using j(1) by simp
    then show ?thesis using j(3) pss by (auto simp: path_as_str_def topic_path_def)
  qed
  moreover have "assert_unsubscribed is_match ord own d' = returns ()"
    by (rule assert_unsubscribed_spec [OF assms(1) d'(2)]) (use assms(4) pss d'(3) in auto)
  ultimately show ?thesis using d(1) d'(1) pss by (simp add: test_drop_client_with_def)
qed

lemma claim_new:
  assumes "wf_path (Path p)"
  obtains d where "claim 0 (p_topic p) directory_new =
      returns (if topic_wild (p_topic p) then Inl ClaimWildcardNotSupported else Inr (), d)"
    and "dir_inv d" and "\<And>u. owner_of d u = (if u = p_topic p \<and> \<not> topic_wild (p_topic p) then Some 0 else None)"
proof -
  have "claim_result 0 (p_topic p) directory_new =
      (if topic_wild (p_topic p) then Inl ClaimWildcardNotSupported else Inr ())"
    by (simp add: claim_result_def dir_inv_new)
  moreover obtain d where d: "claim 0 (p_topic p) directory_new = returns (claim_result 0 (p_topic p) directory_new, d)"
    "dir_inv d" "\<And>u. owner_of d u =
      (if u = p_topic p \<and> claim_result 0 (p_topic p) directory_new = Inr () then Some 0 else owner_of directory_new u)"
    by (rule claim_spec [OF dir_inv_new(1) wf_p_topic [OF assms], of 0]) (rule that)
  ultimately show ?thesis by (intro that [of d]) (auto simp: dir_inv_new)
qed

lemma ownership_tests_pass:
  assumes p: "wf_path (Path p)"
  shows "topic_wild (p_topic p) \<Longrightarrow> test_ownership_no_wildcard_with is_match p = returns ()"
    and "\<not> topic_wild (p_topic p) \<Longrightarrow> test_ownership_happy_path is_match p = returns ()"
    and "p = ''a'' \<Longrightarrow> test_ownership_no_duplicate is_match = returns ()"
    and "p = ''a'' \<Longrightarrow> test_ownership_unclaim is_match = returns ()"
    and "\<not> topic_wild (p_topic p) \<Longrightarrow> test_drop_client_claim_with is_match p = returns ()"
proof -
  let ?t = "p_topic p"
  note t = test_topic_valid [OF p] and wf = wf_p_topic [OF p]
  obtain d where d: "claim 0 ?t directory_new =
      returns (if topic_wild ?t then Inl ClaimWildcardNotSupported else Inr (), d)"
    "dir_inv d" "\<And>u. owner_of d u = (if u = ?t \<and> \<not> topic_wild ?t then Some 0 else None)"
    by (rule claim_new [OF p]) (rule that)
  show "topic_wild ?t \<Longrightarrow> test_ownership_no_wildcard_with is_match p = returns ()"
    using d t by (simp add: test_ownership_no_wildcard_with_def get_owner_eq)
  show "\<not> topic_wild ?t \<Longrightarrow> test_ownership_happy_path is_match p = returns ()"
    using d t by (simp add: test_ownership_happy_path_def get_owner_eq)
  {
    assume a: "p = ''a''"
    have w: "\<not> topic_wild ?t" unfolding a by code_simp
    have "claim_result 1 ?t d = Inl TopicAlreadyClaimed" using w d(3) by (simp add: claim_result_def)
    moreover obtain d1 where "claim 1 ?t d = returns (claim_result 1 ?t d, d1)"
      "\<And>u. owner_of d1 u = (if u = ?t \<and> claim_result 1 ?t d = Inr () then Some 1 else owner_of d u)"
      by (rule claim_spec [OF d(2) wf, of 1]) (rule that)
    ultimately have "claim 1 ?t d = returns (Inl TopicAlreadyClaimed, d1)" "\<And>u. owner_of d1 u = owner_of d u"
      by simp_all
    then show "test_ownership_no_duplicate is_match = returns ()"
      using d t w unfolding a by (simp add: test_ownership_no_duplicate_def get_owner_eq)
    obtain r d2 where d2: "unclaim 0 ?t d = (r, d2)" "dir_inv d2" "r = Inr () \<or> topic_wild ?t"
      "\<And>u. owner_of d2 u = (if u = ?t \<and> \<not> topic_wild ?t \<and> owner_of d ?t = Some 0 then None else owner_of d u)"
      by (rule unclaim_spec [OF d(2), of 0 ?t]) blast
    have "claim_result 1 ?t d2 = Inr ()" using w d(3) d2(4) by (simp add: claim_result_def)
    moreover obtain d3 where "claim 1 ?t d2 = returns (claim_result 1 ?t d2, d3)"
      by (rule claim_spec [OF d2(2) wf, of 1])
    ultimately have "claim 1 ?t d2 = returns (Inr (), d3)" by simp
    then show "test_ownership_unclaim is_match = returns ()"
      using d t w d2 unfolding a by (simp add: test_ownership_unclaim_def get_owner_eq)
  }
  {
    assume w: "\<not> topic_wild ?t"
    obtain d4 ts where "drop_client 0 d = (d4, ts)"
      "\<And>u. owner_of d4 u = (if owner_of d u = Some 0 then None else owner_of d u)"
      by (rule drop_client_spec [OF d(2), of 0]) (rule that)
    then show "test_drop_client_claim_with is_match p = returns ()"
      using d t w by (simp add: test_drop_client_claim_with_def get_owner_eq)
  }
qed

lemma one_subscriber:
  assumes "hash_iteration ord" and "wf_topic s"
  obtains d where "subscribe 0 s directory_new = returns d"
    and "length (get_subscribers ord t d) = of_bool (topic_overlap s t)"
proof -
  obtain d where d: "subscribe 0 s directory_new = returns d" "dir_inv d"
    "subs_of d = (subs_of directory_new)(s := insert 0 (subs_of directory_new s))"
    using tree.sub_law [OF dir_inv_new(1) assms(2)] by blast
  have "matching d t = (if topic_overlap s t then {0} else {})"
    using matching_eq [OF d(2)] d(3) by (auto simp: dir_inv_new)
  then have "length (get_subscribers ord t d) = of_bool (topic_overlap s t)"
    using hash_iteration.length_ord [OF assms(1), of "matching d t"] by (simp add: get_subscribers_eq)
  then show ?thesis using that d(1) by blast
qed

lemma keys_match_test_iff:
  assumes "hash_iteration ord" and s: "wf_path (Path s)" and p: "wf_path (Path p)"
  shows "assert_keys_match is_match ord s p expect = returns () \<longleftrightarrow> expect = topic_overlap (p_topic s) (p_topic p)"
proof -
  obtain d where "subscribe 0 (p_topic s) directory_new = returns d"
    "length (get_subscribers ord (p_topic p) d) = of_bool (topic_overlap (p_topic s) (p_topic p))"
    by (rule one_subscriber [OF assms(1) wf_p_topic [OF s]])
  then show ?thesis
    using test_topic_valid [OF s] test_topic_valid [OF p] by (auto simp: assert_keys_match_def)
qed

lemma match_test_iff:
  assumes "hash_iteration ord" and s: "wf_topic s" and p: "wf_topic p"
  shows "assert_match is_match ord (display_topic s) (display_topic p) expect = returns () \<longleftrightarrow>
    expect = topic_overlap s p"
proof -
  obtain d where "subscribe 0 s directory_new = returns d"
    "length (get_subscribers ord p d) = of_bool (topic_overlap s p)"
    by (rule one_subscriber [OF assms(1) s])
  moreover have "topic_from_str is_match (display_topic s) = Inr s" "topic_from_str is_match (display_topic p) = Inr p"
    using s p topic_from_str_Inr by blast+
  ultimately show ?thesis by (auto simp: assert_match_def)
qed

end

section \<open>The tests as they are\<close>

fun for_each :: "('a \<Rightarrow> unit run) \<Rightarrow> 'a list \<Rightarrow> unit run" where
  "for_each f [] = returns ()"
| "for_each f (x # xs) = do { f x; for_each f xs }"

lemma for_each_iff: "for_each f xs = returns () \<longleftrightarrow> (\<forall>x \<in> set xs. f x = returns ())"
  by (induction xs) (auto simp: bus_simps)

definition drop_client_cases :: "string list list list" where
  "drop_client_cases = [
     [[]], [[''a'']], [[''a/b'']], [[''a'', ''b'']], [[''a''], []], [[''a''], [''a'']],
     [[''a/b''], [''a'']], [[''a''], [''a/b'']], [[''a/b''], [''a/b'']], [[''a''], [''b'']],
     [[''a'', ''b''], [''a'']], [[''a''], [''a'', ''b'']], [[''*''], []], [[''*''], [''a'']],
     [[''*''], [''*'']], [[''*'', ''a''], []], [[''*'', ''a''], [''a'']],
     [[''*'', ''a''], [''*'']], [[''**''], []], [[''**''], [''a'']], [[''**''], [''*'']],
     [[''**'', ''a''], []], [[''**'', ''a''], [''a'']], [[''**'', ''a''], [''*'']]]"

definition test_drop_client :: "(rexp \<Rightarrow> string \<Rightarrow> bool) \<Rightarrow> (u32 set \<Rightarrow> u32 list) \<Rightarrow> unit run" where
  "test_drop_client rx ord = for_each (test_drop_client_with rx ord) drop_client_cases"

definition test_drop_client_claim :: "(rexp \<Rightarrow> string \<Rightarrow> bool) \<Rightarrow> unit run" where
  "test_drop_client_claim rx = for_each (test_drop_client_claim_with rx) [''a'', ''a/b'']"

definition test_ownership :: "(rexp \<Rightarrow> string \<Rightarrow> bool) \<Rightarrow> unit run" where
  "test_ownership rx = for_each (test_ownership_happy_path rx) [''a'', ''a/b'']"

definition test_ownership_no_wildcard :: "(rexp \<Rightarrow> string \<Rightarrow> bool) \<Rightarrow> unit run" where
  "test_ownership_no_wildcard rx =
     for_each (test_ownership_no_wildcard_with rx) [''*'', ''**'', ''*/a'', ''a/*'', ''**/a'', ''a/**'']"

definition topic_matching_cases :: "(string \<times> string \<times> bool) list" where
  "topic_matching_cases = [
     (''a'', ''a'', True), (''a'', ''a'', True), (''a'', ''b'', False),
     (''a/b'', ''a/b'', True), (''a/*'', ''a/b'', True), (''*/b'', ''a/b'', True),
     (''*/c'', ''a/b'', False), (''c/b'', ''a/b'', False), (''a/**'', ''a/b/c'', True),
     (''a/**/d'', ''a/b/c/d'', True), (''a/**/d'', ''a/b/c/d/e'', False),
     (''a/**/d/*'', ''a/b/c/d/e'', True), (''a/**/d/f'', ''a/b/c/d/e'', False),
     (''a'', ''*'', True), (''a/b'', ''*'', False), (''a/b'', ''a/*'', True),
     (''a/b'', ''*/b'', True), (''a/b'', ''*/c'', False), (''a/b'', ''*/*'', True),
     (''*'', ''*'', True), (''*/b'', ''*/b'', True), (''a/*'', ''*/b'', True),
     (''*/b'', ''a/*'', True), (''*/*'', ''*/*'', True), (''a'', ''**'', True),
     (''a/b/c'', ''a/**'', True), (''a/b/c'', ''a/**/c'', True),
     (''a/b/c'', ''a/**/d'', False), (''a/b/c/d'', ''a/**/d'', True),
     (''a/*/d'', ''a/**/d'', True), (''a/**/d'', ''a/**/c/d'', True),
     (''a/**/c/d'', ''a/**/d'', True), (''a/**/c/d'', ''a/**/c/d'', True),
     (''a/b/**/d'', ''a/**/c/d'', True), (''a/**'', ''a'', True), (''a'', ''a/**'', True),
     (''a/**/b'', ''a/b'', True), (''a/b'', ''a/**/b'', True), (''**/a'', ''a'', True),
     (''a/**/**/b'', ''a/b'', True), (''a/**/*'', ''a/b'', True), (''a/**/*'', ''a'', False),
     (''a/**/b'', ''a/c'', False), (''a/**'', ''b'', False), (''a/**/b'', ''a'', False),
     (''a/**'', ''a/*/b'', True), (''a/**/b'', ''a/*'', True), (''a/**/c'', ''a/*/b'', False)]"

definition test_topic_matching :: "(rexp \<Rightarrow> string \<Rightarrow> bool) \<Rightarrow> (u32 set \<Rightarrow> u32 list) \<Rightarrow> unit run" where
  "test_topic_matching rx ord = for_each (\<lambda>(s, p, e). assert_keys_match rx ord s p e) topic_matching_cases"

definition protocol_matching_cases :: "(string \<times> string \<times> bool) list" where
  "protocol_matching_cases = [
     (''p:a'', ''p:a'', True), (''p:a'', ''q:a'', False), (''p:'', ''p:'', True),
     (''p:'', ''p:a'', False), (''*:a'', ''p:a'', True), (''*:a'', ''q:a'', True),
     (''*:**'', ''p:a/b'', True), (''p:**'', ''q:a'', False), (''*:**'', ''p:'', True),
     (''p:**'', ''p:'', True), (''p:**/**'', ''p:'', True), (''p:'', ''p:**'', True),
     (''p:a'', ''p:'', False)]"

definition test_protocol_matching :: "(rexp \<Rightarrow> string \<Rightarrow> bool) \<Rightarrow> (u32 set \<Rightarrow> u32 list) \<Rightarrow> unit run" where
  "test_protocol_matching rx ord = for_each (\<lambda>(s, p, e). assert_match rx ord s p e) protocol_matching_cases"

definition test_drop_client_returns_topics :: "(rexp \<Rightarrow> string \<Rightarrow> bool) \<Rightarrow> unit run" where
  "test_drop_client_returns_topics rx = do {
     t \<leftarrow> unwrap (topic_from_str rx ''p:a/b'');
     d \<leftarrow> subscribe 0 t directory_new;
     q \<leftarrow> unwrap (topic_from_str rx ''q:'');
     d \<leftarrow> subscribe 0 q d;
     let (d, dropped) = drop_client 0 d;
     q \<leftarrow> unwrap (topic_from_str rx ''q:'');
     assert_that ([t, q] = sort_key display_topic dropped)
   }"

section \<open>The tests of \<open>topic.rs\<close>\<close>

definition test_rgx_path :: "(rexp \<Rightarrow> string \<Rightarrow> bool) \<Rightarrow> unit run" where
  "test_rgx_path rx = do {
     for_each (\<lambda>s. assert_that (rx RGX_PATH s)) [
     ''a'', ''abc'', ''0'', ''a0'', ''0a'', ''*'', ''**'', ''a/b'', ''0/b'', ''a/0'', ''ab/b'',
     ''a/ba'', ''**/b'', ''*/b'', ''a/*'', ''a/**'', ''**/*'', ''*/**'', ''1/2'', ''a_1/2_a_'',
     ''1_/_2''];
     for_each (\<lambda>s. assert_that (\<not> rx RGX_PATH s)) [
     ''a/'', ''0/'', ''*/'', ''**/'', ''/a'', ''a//b'', ''A'', ''a:b'', ''***'']
   }"

fun is_err :: "'a result \<Rightarrow> bool" where
  "is_err (Inl e) \<longleftrightarrow> True"
| "is_err (Inr x) \<longleftrightarrow> False"

definition test_path :: "(rexp \<Rightarrow> string \<Rightarrow> bool) \<Rightarrow> unit run" where
  "test_path rx = do {
     p \<leftarrow> unwrap (path_new rx '''');
     assert_that (is_root p);
     p \<leftarrow> unwrap (path_from_str rx '''');
     assert_that (path_root = p);
     assert_that (0 = length (path_segments path_root));
     p \<leftarrow> unwrap (path_new rx ''a/*/**'');
     assert_that ([''a'', ''*'', ''**''] = path_segments p);
     assert_that (is_err (path_new rx ''a/''));
     assert_that (is_err (path_new rx ''f32:a''));
     p \<leftarrow> unwrap (path_new rx ''a/b'');
     assert_that (''a/b'' = display_path p)
   }"

definition test_topic_parse_and_display :: "(rexp \<Rightarrow> string \<Rightarrow> bool) \<Rightarrow> unit run" where
  "test_topic_parse_and_display rx = do {
     for_each (\<lambda>s. do { t \<leftarrow> unwrap (topic_from_str rx s); assert_that (s = display_topic t) })
       [''f32:a/b/c'', ''f32:'', ''*:**'', ''a_1:*''];
     topic \<leftarrow> unwrap (topic_from_str rx ''f32:a/b'');
     assert_that (''f32'' = topic_protocol topic);
     assert_that (''a/b'' = path_as_str (topic_path topic));
     assert_that ([''f32'', ''a'', ''b''] = topic_segments topic);
     t \<leftarrow> unwrap (topic_from_str rx ''f32:'');
     assert_that ([''f32''] = topic_segments t);
     for_each (\<lambda>s. assert_that (is_err (topic_from_str rx s)))
       [''f32'', ''f32/a'', '':a'', ''**:a'', ''F32:a'', ''f32:a/'', ''f32:a:b'']
   }"

definition test_topic_from_valid_segments :: "(rexp \<Rightarrow> string \<Rightarrow> bool) \<Rightarrow> unit run" where
  "test_topic_from_valid_segments rx = do {
     assert_that (None = topic_from_valid_segments []);
     t \<leftarrow> unwrap (topic_from_str rx ''p:'');
     u \<leftarrow> topic_from_valid_segments [''p''];
     assert_that (t = u);
     t \<leftarrow> unwrap (topic_from_str rx ''p:a/b'');
     u \<leftarrow> topic_from_valid_segments [''p'', ''a'', ''b''];
     assert_that (t = u)
   }"

section \<open>They pass\<close>

definition case_ok :: "topic \<times> topic \<times> bool \<Rightarrow> bool" where
  "case_ok c = (case c of (s, p, e) \<Rightarrow>
     wf_topic s \<and> wf_topic p \<and> e = overlap (topic_segments s) (topic_segments p))"

definition read_topic :: "string \<Rightarrow> topic" where
  \<comment> \<open>the topic a string denotes, if any\<close>
  "read_topic s = (case split_once PROTOCOL_SEPARATOR s of
     None \<Rightarrow> p_topic s | Some (a, b) \<Rightarrow> \<lparr>protocol = a, path_of = Path b\<rparr>)"

lemma cases_ok:
  "list_all (\<lambda>pss. pss \<noteq> [] \<and> length pss \<le> 2 \<and> list_all (list_all (\<lambda>p. wf_path (Path p))) pss) drop_client_cases"
  "list_all (\<lambda>(s, p, e). case_ok (p_topic s, p_topic p, e)) topic_matching_cases"
  "list_all (\<lambda>(s, p, e). case_ok (read_topic s, read_topic p, e) \<and> display_topic (read_topic s) = s \<and>
     display_topic (read_topic p) = p) protocol_matching_cases"
  by code_simp+

lemma claim_cases_ok:
  "list_all (\<lambda>p. wf_path (Path p) \<and> \<not> topic_wild (p_topic p)) [''a'', ''a/b'']"
  "list_all (\<lambda>p. wf_path (Path p) \<and> topic_wild (p_topic p)) [''*'', ''**'', ''*/a'', ''a/*'', ''**/a'', ''a/**'']"
  by code_simp+

context regex_engine
begin

lemma topic_from_str_read:
  "topic_from_str is_match s = Inr t \<longleftrightarrow> t = read_topic s \<and> display_topic t = s \<and> wf_topic t"
proof -
  have "read_topic (display_topic t) = t" if "wf_topic t"
    using that valid_protocol_sep [of "protocol t"]
    by (cases t; cases "path_of t") (auto simp: read_topic_def display_topic_def wf_topic_def split_once_app)
  then show ?thesis using topic_from_str_Inr by metis
qed

lemma directory_tests_pass:
  assumes "hash_iteration ord"
  shows "test_drop_client is_match ord = returns ()" "test_drop_client_claim is_match = returns ()"
    "test_ownership is_match = returns ()" "test_ownership_no_wildcard is_match = returns ()"
    "test_ownership_no_duplicate is_match = returns ()" "test_ownership_unclaim is_match = returns ()"
    "test_topic_matching is_match ord = returns ()" "test_protocol_matching is_match ord = returns ()"
proof -
  show "test_drop_client is_match ord = returns ()"
    unfolding test_drop_client_def for_each_iff
  proof
    fix pss assume "pss \<in> set drop_client_cases"
    then have "pss \<noteq> []" "length pss \<le> 2" "\<forall>ps \<in> set pss. \<forall>p \<in> set ps. wf_path (Path p)"
      using cases_ok(1) by (auto simp: list_all_iff)
    then show "test_drop_client_with is_match ord pss = returns ()"
      by (intro drop_client_test_passes [OF assms]) auto
  qed
  note c = claim_cases_ok [unfolded list_all_iff]
  show "test_drop_client_claim is_match = returns ()" "test_ownership is_match = returns ()"
    "test_ownership_no_duplicate is_match = returns ()" "test_ownership_unclaim is_match = returns ()"
    unfolding test_drop_client_claim_def test_ownership_def for_each_iff
    using c(1) ownership_tests_pass(2-5) by (auto simp: list_all_iff)
  show "test_ownership_no_wildcard is_match = returns ()"
    unfolding test_ownership_no_wildcard_def for_each_iff using c(2) ownership_tests_pass(1) by blast
  show "test_topic_matching is_match ord = returns ()"
    unfolding test_topic_matching_def for_each_iff
    using cases_ok(2) keys_match_test_iff [OF assms]
    by (fastforce simp: list_all_iff case_ok_def topic_overlap_def wf_topic_def)
  show "test_protocol_matching is_match ord = returns ()"
    unfolding test_protocol_matching_def for_each_iff
  proof
    fix c assume "c \<in> set protocol_matching_cases"
    moreover obtain s q e where c: "c = (s, q, e)" by (cases c)
    ultimately have k: "case_ok (read_topic s, read_topic q, e)" "display_topic (read_topic s) = s"
      "display_topic (read_topic q) = q"
      using cases_ok(3) unfolding list_all_iff by blast+
    then have "assert_match is_match ord s q e = returns ()"
      using match_test_iff [OF assms, of "read_topic s" "read_topic q" e, unfolded k(2,3)]
      by (simp add: case_ok_def topic_overlap_def)
    then show "(case c of (s, p, e) \<Rightarrow> assert_match is_match ord s p e) = returns ()" by (simp add: c)
  qed
qed

lemma drop_returns_topics_test_passes: "test_drop_client_returns_topics is_match = returns ()"
proof -
  have "topic_from_str is_match ''p:a/b'' = Inr (read_topic ''p:a/b'')" "topic_from_str is_match ''q:'' = Inr (read_topic ''q:'')"
    unfolding topic_from_str_read by code_simp+
  moreover have "do {
       d \<leftarrow> subscribe 0 (read_topic ''p:a/b'') directory_new;
       d \<leftarrow> subscribe 0 (read_topic ''q:'') d;
       let (d, dropped) = drop_client 0 d;
       assert_that ([read_topic ''p:a/b'', read_topic ''q:''] = sort_key display_topic dropped)
     } = returns ()"
    by code_simp
  ultimately show ?thesis by (simp add: test_drop_client_returns_topics_def)
qed

lemma topic_tests_pass:
  "test_rgx_path is_match = returns ()" "test_path is_match = returns ()"
  "test_topic_parse_and_display is_match = returns ()" "test_topic_from_valid_segments is_match = returns ()"
proof -
  show "test_rgx_path is_match = returns ()"
    unfolding test_rgx_path_def is_match_iff rmatch_PATH by code_simp
  have p: "path_new is_match s = (if wf_path (Path s) then Inr (Path s) else Inl (InvalidTopicString (''Invalid path: '' @ s)))" for s
    using path_new_Inr [of s] path_new_Inl [of s] by auto
  show "test_path is_match = returns ()"
    unfolding test_path_def path_from_str_def p by code_simp
  have t: "unwrap (topic_from_str is_match s) = (if display_topic (read_topic s) = s \<and> wf_topic (read_topic s)
      then returns (read_topic s) else panic)" for s
    using topic_from_str_read [of s] by (cases "topic_from_str is_match s") (auto simp: unwrap_def)
  have e: "is_err (topic_from_str is_match s) \<longleftrightarrow> \<not> (display_topic (read_topic s) = s \<and> wf_topic (read_topic s))" for s
    using topic_from_str_read [of s] by (cases "topic_from_str is_match s") auto
  show "test_topic_parse_and_display is_match = returns ()"
    unfolding test_topic_parse_and_display_def t e by code_simp
  show "test_topic_from_valid_segments is_match = returns ()"
    unfolding test_topic_from_valid_segments_def t by code_simp
qed

end

end
