(* ===== verification/Spec2Isabelle.thy ===== *)
theory Spec2Isabelle
  imports Topic_Properties Directory_Properties Server_Properties
    Client_Properties Client_Api_Properties Client_Stub Codec Lifecycle_Properties
    T2_Tool_Properties Sockets_Properties Debug Bus_Properties Bus_Run_Properties
    Bus_Delivery_Properties Bus_Holdings_Properties
    Client_Forgetting Client_Services Unit_Tests
begin

text \<open>
  A verification development for the message bus \<open>t2_bus\<close> (Rust, under \<open>src/src\<close>).

  \<^bold>\<open>The program.\<close> A server holds a directory of subscriptions and services. Clients connect to
  it over a socket or in memory, subscribe to topic patterns, publish, serve topics and send
  requests. One task, the core, owns all the server's state and takes its work from one
  queue; for each connection a stub forwards the client's messages to that queue and the
  core's messages to the client; listeners accept connections and register them with the
  core. On the other side one task per client, the client core, numbers the outgoing
  messages, keeps what waits for an answer and dispatches what arrives; the client interface
  (\<open>publish\<close>, \<open>subscribe\<close>, \<open>serve\<close>, \<open>request\<close> and their variants) talks to it by channels. A
  command line tool drives servers and clients.

  \<^bold>\<open>Theories and code.\<close>
  \<^item> \<open>Bus_Prelude\<close>: results, panics, 32-bit ids, channels, finite maps as association lists,
    and the shared interfaces: a hash set's iteration order (\<open>hash_iteration\<close>) and transition
    systems.
  \<^item> \<open>Err\<close> (\<open>err.rs\<close>), \<open>Protocol\<close> (\<open>protocol.rs\<close>), \<open>Debug\<close> (\<open>debug.rs\<close>).
  \<^item> \<open>Regex_Engine\<close>, \<open>Topic\<close>, \<open>Topic_Properties\<close> (\<open>topic.rs\<close>): paths and topics, their
    validation, parsing, printing and wire form.
  \<^item> \<open>Matching\<close>, \<open>Directory\<close>, \<open>Directory_Spec\<close>, \<open>Directory_Registry\<close>, \<open>Directory_Properties\<close>
    (\<open>directory.rs\<close>): the meaning of patterns as sets of concrete topics, the tree, and its
    refinement of an abstract registry (locale \<open>topic_directory\<close>). \<open>Unit_Tests\<close> has the unit
    tests of \<open>topic.rs\<close> and \<open>directory.rs\<close>.
  \<^item> \<open>Server_Core\<close>, \<open>Server_Core_Inv\<close>, \<open>Server_Core_Props\<close>, \<open>Server_Core_Run\<close>,
    \<open>Server_Holdings\<close>, \<open>Server_Properties\<close> (\<open>server/core.rs\<close>): every operation of the core, its invariant, its
    main loop.
  \<^item> \<open>Client_Stub\<close> (\<open>server/client_stub.rs\<close>).
  \<^item> \<open>Client_Core\<close>, \<open>Client_Core_Inv\<close>, \<open>Client_Properties\<close>, \<open>Client_Forgetting\<close>
    (\<open>client/core.rs\<close>).
  \<^item> \<open>Client_Api\<close>, \<open>Client_Api_Properties\<close> (\<open>client/mod.rs\<close>, \<open>client/subscription.rs\<close>,
    \<open>client/connector.rs\<close>): the calls, over what the client core and the spawned forwarding
    tasks answer. \<open>Client_Services\<close> shows that a caller that goes through these calls gives up
    only what it was granted, and that once, which is what \<open>Bus_System\<close> asks of it.
  \<^item> \<open>Codec\<close> (\<open>transport/cbor_codec.rs\<close>): the framing, as an incremental reader.
  \<^item> \<open>Lifecycle\<close>, \<open>Lifecycle_Properties\<close> (\<open>stopper.rs\<close>, \<open>server/listen.rs\<close>,
    \<open>server/builder.rs\<close>, \<open>transport/memory.rs\<close>).
  \<^item> \<open>Sockets\<close>, \<open>Sockets_Properties\<close> (\<open>transport/tcp.rs\<close>, \<open>unix.rs\<close>, \<open>tls.rs\<close>): setting up
    listeners and connections over an environment of system and rustls calls.
  \<^item> \<open>Capture_Engine\<close>, \<open>T2_Tool\<close>, \<open>T2_Tool_Properties\<close> (\<open>bin/t2.rs\<close>).
  \<^item> \<open>Bus_System\<close>: the composition. A state has one server core with its queue of tasks, a
    session (a stub) per registered client, an endpoint (a client core, and the services its
    caller was granted and has not given up) per connection and the request timers; a step is
    one turn of one of them, or a caller offering a task or dropping a receiver it was given,
    in any order. \<open>Bus_Responses\<close> and
    \<open>Bus_Clients\<close> say what one task of the server and one turn of a client do to requests and
    responses; \<open>Bus_System_Inv\<close>, \<open>Bus_Wiring\<close> and \<open>Bus_Connect\<close> keep the parts wired together;
    \<open>Bus_Balance\<close>, \<open>Bus_Tokens\<close> and \<open>Bus_Invariant\<close> account for every request;
    \<open>Bus_Services\<close> shows that a client core still owns each service its caller holds. On that
    invariant rest \<open>Bus_Harmless\<close> (no panic of the server), \<open>Bus_Shutdown\<close>, \<open>Bus_Fifo\<close>
    (order), \<open>Server_Provenance\<close> and \<open>Bus_Provenance\<close> (who a message comes from),
    \<open>Bus_Timers\<close> (timeouts) and \<open>Bus_Rest\<close> (what happens to a bus that is left alone).
    \<open>Bus_Links\<close> ties the sessions being served to the core's table of clients,
    \<open>Bus_Listening\<close> says what a client keeps of its subscriptions, and \<open>Bus_Delivery\<close> follows
    one publication through a run; \<open>Bus_Holdings\<close> shows that a client holds at the server
    what has been acknowledged to it. \<open>Bus_Exec\<close> computes runs, and all of them; \<open>Bus_Demo\<close>
    computes one, in which \<open>Bus_Properties\<close>, \<open>Bus_Run_Properties\<close>,
    \<open>Bus_Delivery_Properties\<close> and \<open>Bus_Holdings_Properties\<close> apply the properties they state.
    The locale \<open>client_relation\<close> (in \<open>Bus_Clients\<close>) is what these proofs share about a client's reaction to a message: a
    relation kept by each part of it is kept by all of it.

  \<^bold>\<open>Conventions of the models.\<close> A Rust function that returns \<open>BusResult\<close> returns a sum, the
  error on the left; one that can panic (an \<open>unwrap\<close>, an index, an \<open>unreachable\<close>) returns an
  option on top of it, \<open>None\<close> being the panic (type \<open>run\<close>). State is passed explicitly, as a
  record per component. An unbounded channel is its buffer of everything sent, with its two
  ends alive or dropped; sending fails exactly when the receiver is gone. A loop over
  \<open>select!\<close> is a function of the sequence of events \<open>select!\<close> yields, so a theorem about all
  sequences covers every scheduling. Ids are 32-bit words and wrap around, as release builds
  do; the theorems that need ids not to repeat carry the bound (fewer than \<open>2 ^ 32\<close>
  registrations, or messages of a client; \<open>within_ids\<close> in the composition). No model uses
  fuel: each recursion is on the segments, the list of events or the bytes, or is shown to
  terminate by its measure.

  \<^bold>\<open>What the theorems show.\<close> Publications reach exactly the audience the patterns denote, once
  each, and are acknowledged with its size; requests reach the owner and their answers return
  under the original id, or time out; the directory refines its abstract registry; every
  message is acknowledged exactly once. In any interleaving of the whole bus no client
  panics, each response in transit is one its client waits for, and the server does not panic
  unless someone publishes on a topic that overlaps \<open>bus:kill\<close>; messages arrive in order;
  a client's subscriptions and services are what its acknowledged messages make, so one it
  was told of is in force; a client receives only what other clients have sent for it, a response only from the
  service its own request was passed on to; a request never stays pending past its timeout;
  and a bus that is left alone comes to rest with everything that was sent processed and
  acknowledged; a publication the server passes on is called exactly once for each
  subscription of its listeners whose receiver is still there. Topics, payloads and frames
  round trip, also when the stream is cut anywhere; the reader's buffer is bounded; stubs
  forward in order, drop exactly the silent clients and end after the server; a command of the
  tool ends in an error or runs on, except for the panics listed. The unit tests pass. Several theorems
  record faults: an answered request stops the server at its deadline, publishing on the
  pattern \<open>*:**\<close> panics it, a second service on one topic or a malformed request ends the
  client, a dead subscriber cuts off others from a publication, the callback of a refused
  request is never given up, dropping one of two equal subscriptions silences the other, an oversized message is
  written but cannot be read, a refused authority panics a TLS client, a file of names that is not
  text or a payload that cannot be unpacked panics the tool.

  \<^bold>\<open>Parameters.\<close> What is not under \<open>src\<close> is an argument with its documented law: the regex
  engine (locales \<open>regex_engine\<close> and \<open>capture_engine\<close>, interpreted by a derivative matcher),
  gzip, CBOR and JSON of a value, the iteration order of hash containers, the text of library
  errors, the answers of the operating system and of rustls (binding, accepting, connecting,
  certificates, the file of names, the environment).

  \<^bold>\<open>Not modelled.\<close> The bytes inside a socket beyond the framing, and TLS itself, belong to the
  system and to rustls; \<open>transport/mod.rs\<close>, \<open>prelude.rs\<close> and \<open>lib.rs\<close> are traits, re-exports
  and module declarations. Of the unit tests those on bytes of CBOR and on borrowed strings
  (\<open>test_serde_round_trip\<close>, \<open>test_topic_new\<close>) are left out. Of the tool the
  argument parser and the logger are left out, of the other components the log messages; the
  programs under \<open>examples\<close> and the integration tests of \<open>test.rs\<close> are left out. The
  composition has no clock of its own: timers may fire at any moment, which covers every
  timing. A stub's write to its transport takes no time of its own: a slow one shows as time that
  passes before the stub's next turn. The order in which a hash set is walked is
  some function of the set, the same for equal sets; the theorems hold for every such function.
\<close>

end
